(* ===== verification/Prelude.thy ===== *)
theory Prelude
  imports Main "HOL-Library.Word"
begin

text \<open>
  What every component shares: the machine integers the sources use and their checked signed arithmetic, C++ \<open>char\<close> read as a
  signed or an unsigned byte, the named characters of the tokenizers, arrays that are filled by
  a loop, the error-or-value results of code with early returns, and the generic lemmas on lists
  that the component proofs rewrite with.
\<close>

unbundle bit_operations_syntax

named_theorems table_simps \<open>reading a lookup table that was filled by assignments and loops\<close>
named_theorems tok_defs \<open>definitions of the tokenizers' handlers\<close>
named_theorems vm_defs \<open>definitions of the virtual machines' handlers\<close>
named_theorems char_defs \<open>characters as numbers\<close>

section \<open>Machine integers\<close>

type_synonym u8 = "8 word"
type_synonym u16 = "16 word"
type_synonym u32 = "32 word"
type_synonym u64 = "64 word"
type_synonym i32 = "32 word"
type_synonym i64 = "64 word"

text \<open>Unsigned values of sums, constants, powers and values rounded down to a power of two.\<close>

lemma unat_of_nat_less: "n < 2 ^ LENGTH('a) \<Longrightarrow> unat (of_nat n :: 'a::len word) = n"
  by (simp add: unsigned_of_nat take_bit_nat_eq_self)

lemma unat_add_less: "unat v + unat w < 2 ^ LENGTH('a) \<Longrightarrow> unat (v + w :: 'a::len word) = unat v + unat w"
  by (simp add: unat_word_ariths)

lemma unat_exp_less: "k < LENGTH('a) \<Longrightarrow> unat (2 ^ k :: 'a::len word) = 2 ^ k"
  using unat_of_nat_less [of "2 ^ k", where 'a = 'a] by simp

lemma and_not_mask_push: "w AND NOT (mask k) = push_bit k (drop_bit k (w :: 'a::len word))"
  by (rule bit_word_eqI) (auto simp: bit_simps)

lemma unat_and_not_mask: "unat (w AND NOT (mask k) :: 'a::len word) = unat w div 2 ^ k * 2 ^ k"
proof -
  have "unat w div 2 ^ k * 2 ^ k \<le> unat w" by simp
  also have "unat w < 2 ^ LENGTH('a)" by (rule unsigned_less)
  finally have "take_bit LENGTH('a) (unat w div 2 ^ k * 2 ^ k) = unat w div 2 ^ k * 2 ^ k"
    by (simp add: take_bit_nat_eq_self)
  then show ?thesis
    unfolding and_not_mask_push unsigned_push_bit_eq unsigned_drop_bit_eq
    by (simp add: push_bit_eq_mult drop_bit_eq_div take_bit_nat_eq_self [OF unsigned_less])
qed

text \<open>The usual test for a power of two, and the position of the highest bit.\<close>

lemma bit_between:
  fixes v :: "'a::len word"
  assumes "2 ^ k \<le> unat v" "unat v < 2 ^ Suc k"
  shows "bit v n \<Longrightarrow> n \<le> k" "bit v k"
proof -
  have "unat v div 2 ^ k = 1" using assms by (intro div_nat_eqI) auto
  then have "bit (unat v) k" by (simp add: bit_iff_odd)
  then show "bit v k" by (simp add: bit_unsigned_iff)
  show "n \<le> k" if "bit v n"
  proof (rule ccontr)
    assume "\<not> n \<le> k"
    then have "(2::nat) ^ Suc k \<le> 2 ^ n" by (intro power_increasing) auto
    then have "unat v div 2 ^ n = 0" using assms(2) by simp
    moreover have "bit (unat v) n" using that by (simp add: bit_unsigned_iff bit_imp_le_length)
    ultimately show False by (simp add: bit_iff_odd)
  qed
qed

lemma and_minus_one_pow2:
  fixes w :: "'a::len word"
  assumes "w \<noteq> 0" "w AND (w - 1) = 0"
  shows "\<exists>k < LENGTH('a). unat w = 2 ^ k"
proof -
  have "0 < unat w" using assms(1) by (simp add: unat_gt_0)
  then obtain k where k: "2 ^ k \<le> unat w" "unat w < 2 ^ Suc k"
    using ex_power_ivl1 [of 2 "unat w"] by auto
  have kl: "k < LENGTH('a)"
    using le_less_trans [OF k(1) unsigned_less] by (simp add: power_less_imp_less_exp)
  have "unat w = 2 ^ k"
  proof (rule ccontr)
    assume "unat w \<noteq> 2 ^ k"
    then have "2 ^ k \<le> unat (w - 1)" "unat (w - 1) < 2 ^ Suc k"
      using k assms(1) by (auto simp: unat_minus_one)
    then have "bit (w AND (w - 1)) k" using bit_between(2) [of k w] bit_between(2) [of k "w - 1"] k by (simp add: bit_and_iff)
    then show False using assms(2) by simp
  qed
  with kl show ?thesis by blast
qed

text \<open>
  Signed arithmetic. The result of a signed operation is the mathematical one where the type holds it; any other is
  undefined behaviour, the value \<open>None\<close>.
\<close>

definition fits_signed :: "nat \<Rightarrow> int \<Rightarrow> bool" where
  "fits_signed w z \<longleftrightarrow> - (2 ^ (w - 1)) \<le> z \<and> z < 2 ^ (w - 1)"

definition checked :: "int \<Rightarrow> 'a::len word option" where
  "checked z = (if fits_signed LENGTH('a) z then Some (word_of_int z) else None)"

lemma fits_signed_64: "fits_signed 64 z \<longleftrightarrow> - (2 ^ 63) \<le> z \<and> z < 2 ^ 63"
  by (simp add: fits_signed_def)

lemma fits_signed_sint: "fits_signed LENGTH('a) (sint (w :: 'a::len word))"
  using sint_ge [of w] sint_lt [of w] by (simp add: fits_signed_def)

lemma sint_word_of_int_fits:
  assumes "fits_signed LENGTH('a) z"
  shows "sint (word_of_int z :: 'a::len word) = z"
proof -
  obtain k where k: "LENGTH('a) = Suc k" using len_gt_0 [where 'a = 'a] gr0_implies_Suc by blast
  have "sint (word_of_int z :: 'a word) = signed_take_bit k z" by (simp add: signed_of_int k)
  then show ?thesis using assms k by (simp add: fits_signed_def signed_take_bit_int_eq_self)
qed

lemma checked_Some: "checked z = Some (w :: 'a::len word) \<longleftrightarrow> sint w = z"
proof -
  have "word_of_int (sint w) = w" by simp
  then show ?thesis using fits_signed_sint [of w] by (auto simp: checked_def sint_word_of_int_fits)
qed

lemma checked_None: "checked z = (None :: 'a::len word option) \<longleftrightarrow> \<not> fits_signed LENGTH('a) z"
  by (simp add: checked_def)

section \<open>C++ char\<close>

text \<open>
  \<open>uc c\<close> is \<^verbatim>\<open>static_cast<unsigned char>(c)\<close>; \<open>sc c\<close> is the value of the plain
  \<^verbatim>\<open>char\<close>, which is signed on the x86-64 targets these programs are built for.
\<close>

definition uc :: "char \<Rightarrow> nat" where
  "uc c = of_char c"

definition sc :: "char \<Rightarrow> int" where
  "sc c = (if uc c < 128 then int (uc c) else int (uc c) - 256)"

abbreviation ch_tab :: char where "ch_tab \<equiv> CHR 0x09"
abbreviation ch_lf :: char where "ch_lf \<equiv> CHR 0x0A"
abbreviation ch_cr :: char where "ch_cr \<equiv> CHR 0x0D"
abbreviation ch_quote :: char where "ch_quote \<equiv> CHR 0x22"
abbreviation ch_backslash :: char where "ch_backslash \<equiv> CHR 0x5C"
abbreviation ch_space :: char where "ch_space \<equiv> CHR 0x20"

lemma uc_less [simp]: "uc c < 256"
proof -
  have "(of_char c :: nat) < 256"
    by (metis nat_of_char_less_256)
  then show ?thesis by (simp add: uc_def)
qed

lemma uc_le [simp]: "uc c \<le> 255"
  using uc_less [of c] by (simp del: uc_less)

lemma uc_Char [simp]:
  "uc (Char b0 b1 b2 b3 b4 b5 b6 b7) = horner_sum of_bool 2 [b0, b1, b2, b3, b4, b5, b6, b7]"
  by (simp add: uc_def)

lemma uc_inject: "uc c = uc d \<longleftrightarrow> c = d"
  by (simp add: uc_def)

lemma char_eq_uc [char_defs]: "c = d \<longleftrightarrow> uc c = uc d"
  by (simp add: uc_inject)

lemma char_mem_uc: "c \<in> set s \<longleftrightarrow> uc c \<in> set (map uc s)"
  by (auto simp: uc_inject)

lemma sc_range: "- 128 \<le> sc c \<and> sc c < 128"
  using uc_less [of c] by (simp add: sc_def del: uc_less)

text \<open>
  A comparison of plain characters between two ASCII bounds reads the same on the unsigned
  byte: bytes from 128 on are negative and below both bounds.
\<close>

lemma sc_between:
  assumes "uc lo < 128" and "uc hi < 128"
  shows "sc lo \<le> sc c \<and> sc c \<le> sc hi \<longleftrightarrow> uc lo \<le> uc c \<and> uc c \<le> uc hi"
  using assms uc_less [of c] by (auto simp: sc_def simp del: uc_less)

section \<open>Arrays filled by assignments and loops\<close>

text \<open>
  \<open>fill_range lo hi v t\<close> is the loop \<^verbatim>\<open>for(i = lo; i <= hi; ++i) t[i] = v;\<close> over an array.
\<close>

definition fill_range :: "nat \<Rightarrow> nat \<Rightarrow> 'a \<Rightarrow> 'a list \<Rightarrow> 'a list" where
  "fill_range lo hi v t = fold (\<lambda>i t. t[i := v]) [lo..<Suc hi] t"

lemma length_fold_update [simp]: "length (fold (\<lambda>i t. t[i := v]) is t) = length t"
  by (induction "is" arbitrary: t) auto

lemma length_fill_range [simp, table_simps]: "length (fill_range lo hi v t) = length t"
  by (simp add: fill_range_def)

lemma nth_fold_update:
  "n < length t \<Longrightarrow> fold (\<lambda>i t. t[i := v]) is t ! n = (if n \<in> set is then v else t ! n)"
  by (induction "is" arbitrary: t) (auto simp: nth_list_update)

lemma nth_fill_range [table_simps]:
  "n < length t \<Longrightarrow> fill_range lo hi v t ! n = (if lo \<le> n \<and> n \<le> hi then v else t ! n)"
  by (simp add: fill_range_def nth_fold_update less_Suc_eq_le del: upt_Suc)

lemma nth_assign [table_simps]:
  "n < length t \<Longrightarrow> t[k := v] ! n = (if n = k then v else t ! n)"
  by (simp add: nth_list_update)

lemma length_assign [table_simps]: "length (t[k := v]) = length t"
  by simp

lemma nth_replicate_table [table_simps]: "n < m \<Longrightarrow> replicate m v ! n = v"
  by simp

text \<open>How a sum over a list changes when one element is replaced.\<close>

lemma sum_list_replace:
  fixes f :: "'a \<Rightarrow> nat"
  assumes "t < length xs"
  shows "sum_list (map f (xs[t := v])) + f (xs ! t) = sum_list (map f xs) + f v"
  using assms
proof (induction xs arbitrary: t)
  case (Cons a xs)
  then show ?case by (cases t) auto
qed simp

lemma sum_list_ge_nth:
  fixes f :: "'a \<Rightarrow> nat"
  shows "t < length xs \<Longrightarrow> f (xs ! t) \<le> sum_list (map f xs)"
  by (intro member_le_sum_list) auto

lemma sum_list_ge_two:
  fixes f :: "'a \<Rightarrow> nat"
  assumes "t < length xs" "u < length xs" "t \<noteq> u"
  shows "f (xs ! t) + f (xs ! u) \<le> sum_list (map f xs)"
proof -
  have "sum_list (map f xs) = (\<Sum>i \<in> {..<length xs}. f (xs ! i))" by (simp add: sum_list_sum_nth atLeast0LessThan)
  moreover have "(\<Sum>i \<in> {t, u}. f (xs ! i)) \<le> (\<Sum>i \<in> {..<length xs}. f (xs ! i))"
    using assms by (intro sum_mono2) auto
  ultimately show ?thesis using assms(3) by simp
qed

section \<open>Error-or-value results\<close>

text \<open>
  \<open>Inl\<close> is the early return (an error message and exit code of the program, or a read the
  language leaves undefined), \<open>Inr\<close> the value. \<open>bind_res\<close> sequences two such computations.
\<close>

definition bind_res :: "'e + 'a \<Rightarrow> ('a \<Rightarrow> 'e + 'b) \<Rightarrow> 'e + 'b" where
  "bind_res m f = (case m of Inl e \<Rightarrow> Inl e | Inr a \<Rightarrow> f a)"

lemma bind_res_simps [simp]:
  "bind_res (Inl e) f = Inl e"
  "bind_res (Inr a) f = f a"
  by (simp_all add: bind_res_def)

lemma bind_res_Inr: "bind_res m f = Inr b \<longleftrightarrow> (\<exists>a. m = Inr a \<and> f a = Inr b)"
  by (cases m) auto

lemma bind_resE:
  assumes "bind_res m f = Inr b"
  obtains a where "m = Inr a" and "f a = Inr b"
  using assms by (cases m) auto

primrec fold_res :: "('a \<Rightarrow> 's \<Rightarrow> 'e + 's) \<Rightarrow> 'a list \<Rightarrow> 's \<Rightarrow> 'e + 's" where
  "fold_res f [] s = Inr s"
| "fold_res f (x # xs) s = bind_res (f x s) (fold_res f xs)"

lemma fold_res_append: "fold_res f (xs @ ys) s = bind_res (fold_res f xs s) (fold_res f ys)"
proof (induction xs arbitrary: s)
  case (Cons x xs)
  then show ?case by (cases "f x s") simp_all
qed simp

lemma fold_res_invariant:
  assumes "fold_res f xs s = Inr t" and "I s"
    and "\<And>x s s'. x \<in> set xs \<Longrightarrow> I s \<Longrightarrow> f x s = Inr s' \<Longrightarrow> I s'"
  shows "I t"
  using assms
proof (induction xs arbitrary: s)
  case (Cons x xs)
  from Cons.prems(1) obtain s' where s': "f x s = Inr s'" "fold_res f xs s' = Inr t"
    by (auto simp: bind_res_Inr)
  have "I s'"
    using Cons.prems(2,3) s'(1) by (meson list.set_intros(1))
  then show ?case
    using Cons.IH s'(2) Cons.prems(3) by (meson list.set_intros(2))
qed simp

text \<open>Results of code that can run into behaviour the C++ standard leaves undefined.\<close>

datatype 'a outcome = Value 'a | Undefined

section \<open>Lists\<close>

lemma drop_nth_Cons: "i < length xs \<Longrightarrow> drop i xs = xs ! i # drop (Suc i) xs"
  by (rule Cons_nth_drop_Suc [symmetric])

lemma take_Suc_nth: "i < length xs \<Longrightarrow> take (Suc i) xs = take i xs @ [xs ! i]"
  by (rule take_Suc_conv_app_nth)

end
