(* ===== verification/Char_Classify.thy ===== *)
theory Char_Classify
  imports Prelude
begin

text \<open>
  Part 0 and Part 1 of \<^verbatim>\<open>src/perf/threaded_code/json.cpp\<close>: the token and character-class
  enumerations and the five character classifiers (switch, lookup table, function-pointer table,
  computed goto, range checks with a table). The lookup tables are lists of 256 entries built by
  the same assignments and loops as the source; the computed goto keeps its function-local
  \<^verbatim>\<open>static\<close> variables as an explicit state. The lemmas show that the five agree on every
  \<^verbatim>\<open>char\<close>.
\<close>

section \<open>Common types\<close>

text \<open>\<^verbatim>\<open>True\<close> and \<^verbatim>\<open>False\<close> carry a suffix: HOL has constants of these names.\<close>

datatype JsonToken =
    Invalid | ObjectStart | ObjectEnd | ArrayStart | ArrayEnd | String | Number
  | True_tok | False_tok | Null | Colon | Comma | Whitespace | End | Count

fun token_name :: "JsonToken \<Rightarrow> string" where
  "token_name JsonToken.Invalid = ''Invalid''"
| "token_name JsonToken.ObjectStart = ''ObjectStart''"
| "token_name JsonToken.ObjectEnd = ''ObjectEnd''"
| "token_name JsonToken.ArrayStart = ''ArrayStart''"
| "token_name JsonToken.ArrayEnd = ''ArrayEnd''"
| "token_name JsonToken.String = ''String''"
| "token_name JsonToken.Number = ''Number''"
| "token_name JsonToken.True_tok = ''True''"
| "token_name JsonToken.False_tok = ''False''"
| "token_name JsonToken.Null = ''Null''"
| "token_name JsonToken.Colon = ''Colon''"
| "token_name JsonToken.Comma = ''Comma''"
| "token_name JsonToken.End = ''End''"
| "token_name _ = ''Unknown''"

datatype CharClass =
    Invalid | Whitespace | Digit | Alpha | Quote | Colon | Comma | OpenBrace | CloseBrace
  | OpenBracket | CloseBracket | Minus | Plus | Dot | Backslash | Exponent | Other | Count

section \<open>The classifiers\<close>

subsection \<open>Switch\<close>

definition classify_switch :: "char \<Rightarrow> CharClass" where
  "classify_switch c =
  (if c \<in> {ch_space, ch_tab, ch_lf, ch_cr} then CharClass.Whitespace
   else if c \<in> set ''0123456789'' then CharClass.Digit
   else if c \<in> set ''abcdfghijklmnopqrstuvwxyzABCDFGHIJKLMNOPQRSTUVWXYZ'' then CharClass.Alpha
   else if c \<in> set ''eE'' then CharClass.Exponent
   else if c = ch_quote then CharClass.Quote
   else if c = CHR '':'' then CharClass.Colon
   else if c = CHR '','' then CharClass.Comma
   else if c = CHR ''{'' then CharClass.OpenBrace
   else if c = CHR ''}'' then CharClass.CloseBrace
   else if c = CHR ''['' then CharClass.OpenBracket
   else if c = CHR '']'' then CharClass.CloseBracket
   else if c = CHR ''-'' then CharClass.Minus
   else if c = CHR ''+'' then CharClass.Plus
   else if c = CHR ''.'' then CharClass.Dot
   else if c = ch_backslash then CharClass.Backslash
   else CharClass.Other)"

subsection \<open>Lookup table\<close>

definition make_char_table :: "CharClass list" where
  "make_char_table =
  (let table = fill_range 0 255 CharClass.Other (replicate 256 CharClass.Invalid);
       table = table[uc ch_space := CharClass.Whitespace];
       table = table[uc ch_tab := CharClass.Whitespace];
       table = table[uc ch_lf := CharClass.Whitespace];
       table = table[uc ch_cr := CharClass.Whitespace];
       table = fill_range (uc CHR ''0'') (uc CHR ''9'') CharClass.Digit table;
       table = fill_range (uc CHR ''a'') (uc CHR ''z'') CharClass.Alpha table;
       table = fill_range (uc CHR ''A'') (uc CHR ''Z'') CharClass.Alpha table;
       table = table[uc CHR ''e'' := CharClass.Exponent];
       table = table[uc CHR ''E'' := CharClass.Exponent];
       table = table[uc ch_quote := CharClass.Quote];
       table = table[uc CHR '':'' := CharClass.Colon];
       table = table[uc CHR '','' := CharClass.Comma];
       table = table[uc CHR ''{'' := CharClass.OpenBrace];
       table = table[uc CHR ''}'' := CharClass.CloseBrace];
       table = table[uc CHR ''['' := CharClass.OpenBracket];
       table = table[uc CHR '']'' := CharClass.CloseBracket];
       table = table[uc CHR ''-'' := CharClass.Minus];
       table = table[uc CHR ''+'' := CharClass.Plus];
       table = table[uc CHR ''.'' := CharClass.Dot];
       table = table[uc ch_backslash := CharClass.Backslash]
   in table)"

definition kCharTable :: "CharClass list" where
  "kCharTable = make_char_table"

definition classify_table :: "char \<Rightarrow> CharClass" where
  "classify_table c = kCharTable ! uc c"

subsection \<open>Function-pointer table\<close>

type_synonym ClassifyFunc = "char \<Rightarrow> CharClass"

definition handle_whitespace :: ClassifyFunc where
  "handle_whitespace c = CharClass.Whitespace"

definition handle_digit :: ClassifyFunc where
  "handle_digit c = CharClass.Digit"

definition handle_alpha :: ClassifyFunc where
  "handle_alpha c = CharClass.Alpha"

definition handle_exponent :: ClassifyFunc where
  "handle_exponent c = CharClass.Exponent"

definition handle_quote :: ClassifyFunc where
  "handle_quote c = CharClass.Quote"

definition handle_colon :: ClassifyFunc where
  "handle_colon c = CharClass.Colon"

definition handle_comma :: ClassifyFunc where
  "handle_comma c = CharClass.Comma"

definition handle_open_brace :: ClassifyFunc where
  "handle_open_brace c = CharClass.OpenBrace"

definition handle_close_brace :: ClassifyFunc where
  "handle_close_brace c = CharClass.CloseBrace"

definition handle_open_bracket :: ClassifyFunc where
  "handle_open_bracket c = CharClass.OpenBracket"

definition handle_close_bracket :: ClassifyFunc where
  "handle_close_bracket c = CharClass.CloseBracket"

definition handle_minus :: ClassifyFunc where
  "handle_minus c = CharClass.Minus"

definition handle_plus :: ClassifyFunc where
  "handle_plus c = CharClass.Plus"

definition handle_dot :: ClassifyFunc where
  "handle_dot c = CharClass.Dot"

definition handle_backslash :: ClassifyFunc where
  "handle_backslash c = CharClass.Backslash"

definition handle_other :: ClassifyFunc where
  "handle_other c = CharClass.Other"

text \<open>
  \<^verbatim>\<open>table{}\<close> starts with null pointers, all of which the first loop overwrites; the initial
  entry of the list below is therefore immaterial.
\<close>

definition make_func_table :: "ClassifyFunc list" where
  "make_func_table =
  (let table = fill_range 0 255 handle_other (replicate 256 handle_other);
       table = table[uc ch_space := handle_whitespace];
       table = table[uc ch_tab := handle_whitespace];
       table = table[uc ch_lf := handle_whitespace];
       table = table[uc ch_cr := handle_whitespace];
       table = fill_range (uc CHR ''0'') (uc CHR ''9'') handle_digit table;
       table = fill_range (uc CHR ''a'') (uc CHR ''z'') handle_alpha table;
       table = fill_range (uc CHR ''A'') (uc CHR ''Z'') handle_alpha table;
       table = table[uc CHR ''e'' := handle_exponent];
       table = table[uc CHR ''E'' := handle_exponent];
       table = table[uc ch_quote := handle_quote];
       table = table[uc CHR '':'' := handle_colon];
       table = table[uc CHR '','' := handle_comma];
       table = table[uc CHR ''{'' := handle_open_brace];
       table = table[uc CHR ''}'' := handle_close_brace];
       table = table[uc CHR ''['' := handle_open_bracket];
       table = table[uc CHR '']'' := handle_close_bracket];
       table = table[uc CHR ''-'' := handle_minus];
       table = table[uc CHR ''+'' := handle_plus];
       table = table[uc CHR ''.'' := handle_dot];
       table = table[uc ch_backslash := handle_backslash]
   in table)"

definition kFuncTable :: "ClassifyFunc list" where
  "kFuncTable = make_func_table"

definition classify_direct_threaded :: "char \<Rightarrow> CharClass" where
  "classify_direct_threaded c = (kFuncTable ! uc c) c"

subsection \<open>Computed goto\<close>

text \<open>
  A label address is a value of \<open>goto_label\<close>; a null entry of the label array is \<open>None\<close>, and a
  jump to it (undefined in C++) is the result \<open>None\<close>. The static variables \<^verbatim>\<open>labels\<close> and
  \<^verbatim>\<open>initialized\<close> are the state the function reads and returns.
\<close>

datatype goto_label =
    L_whitespace | L_digit | L_alpha | L_exponent | L_quote | L_colon | L_comma | L_open_brace
  | L_close_brace | L_open_bracket | L_close_bracket | L_minus | L_plus | L_dot | L_backslash
  | L_other

record goto_statics =
  labels :: "goto_label option list"
  initialized :: bool

definition goto_statics_init :: goto_statics where
  "goto_statics_init = \<lparr>labels = replicate 256 None, initialized = False\<rparr>"

definition fill_labels :: "goto_label option list \<Rightarrow> goto_label option list" where
  "fill_labels table0 =
  (let table = fill_range 0 255 (Some L_other) table0;
       table = table[uc ch_space := (Some L_whitespace)];
       table = table[uc ch_tab := (Some L_whitespace)];
       table = table[uc ch_lf := (Some L_whitespace)];
       table = table[uc ch_cr := (Some L_whitespace)];
       table = fill_range (uc CHR ''0'') (uc CHR ''9'') (Some L_digit) table;
       table = fill_range (uc CHR ''a'') (uc CHR ''z'') (Some L_alpha) table;
       table = fill_range (uc CHR ''A'') (uc CHR ''Z'') (Some L_alpha) table;
       table = table[uc CHR ''e'' := (Some L_exponent)];
       table = table[uc CHR ''E'' := (Some L_exponent)];
       table = table[uc ch_quote := (Some L_quote)];
       table = table[uc CHR '':'' := (Some L_colon)];
       table = table[uc CHR '','' := (Some L_comma)];
       table = table[uc CHR ''{'' := (Some L_open_brace)];
       table = table[uc CHR ''}'' := (Some L_close_brace)];
       table = table[uc CHR ''['' := (Some L_open_bracket)];
       table = table[uc CHR '']'' := (Some L_close_bracket)];
       table = table[uc CHR ''-'' := (Some L_minus)];
       table = table[uc CHR ''+'' := (Some L_plus)];
       table = table[uc CHR ''.'' := (Some L_dot)];
       table = table[uc ch_backslash := (Some L_backslash)]
   in table)"

fun label_class :: "goto_label \<Rightarrow> CharClass" where
  "label_class L_whitespace = CharClass.Whitespace"
| "label_class L_digit = CharClass.Digit"
| "label_class L_alpha = CharClass.Alpha"
| "label_class L_exponent = CharClass.Exponent"
| "label_class L_quote = CharClass.Quote"
| "label_class L_colon = CharClass.Colon"
| "label_class L_comma = CharClass.Comma"
| "label_class L_open_brace = CharClass.OpenBrace"
| "label_class L_close_brace = CharClass.CloseBrace"
| "label_class L_open_bracket = CharClass.OpenBracket"
| "label_class L_close_bracket = CharClass.CloseBracket"
| "label_class L_minus = CharClass.Minus"
| "label_class L_plus = CharClass.Plus"
| "label_class L_dot = CharClass.Dot"
| "label_class L_backslash = CharClass.Backslash"
| "label_class L_other = CharClass.Other"

definition classify_computed_goto :: "char \<Rightarrow> goto_statics \<Rightarrow> CharClass option \<times> goto_statics" where
  "classify_computed_goto c g =
  (let g = (if \<not> initialized g then \<lparr>labels = fill_labels (labels g), initialized = True\<rparr> else g)
   in (map_option label_class (labels g ! uc c), g))"

subsection \<open>Range checks and table\<close>

definition classify_hybrid :: "char \<Rightarrow> CharClass" where
  "classify_hybrid c =
  (if uc c \<le> uc ch_space then
     (if c = ch_space \<or> c = ch_lf \<or> c = ch_tab \<or> c = ch_cr then CharClass.Whitespace
      else CharClass.Other)
   else if uc c \<ge> uc CHR ''0'' \<and> uc c \<le> uc CHR ''9'' then CharClass.Digit
   else if (uc c \<ge> uc CHR ''a'' \<and> uc c \<le> uc CHR ''z'')
        \<or> (uc c \<ge> uc CHR ''A'' \<and> uc c \<le> uc CHR ''Z'') then
     (if c = CHR ''e'' \<or> c = CHR ''E'' then CharClass.Exponent else CharClass.Alpha)
   else kCharTable ! uc c)"

section \<open>The five classifiers agree\<close>

lemma length_kCharTable: "length kCharTable = 256"
  by (simp add: kCharTable_def make_char_table_def Let_def)

text \<open>The three tables hold at index \<open>n\<close> what a chain of comparisons on \<open>n\<close> gives.\<close>

definition class_of_code :: "nat \<Rightarrow> goto_label" where
  "class_of_code n =
  (if n = 92 then L_backslash else if n = 46 then L_dot else if n = 43 then L_plus
   else if n = 45 then L_minus else if n = 93 then L_close_bracket
   else if n = 91 then L_open_bracket else if n = 125 then L_close_brace
   else if n = 123 then L_open_brace else if n = 44 then L_comma else if n = 58 then L_colon
   else if n = 34 then L_quote else if n = 69 then L_exponent else if n = 101 then L_exponent
   else if 65 \<le> n \<and> n \<le> 90 then L_alpha else if 97 \<le> n \<and> n \<le> 122 then L_alpha
   else if 48 \<le> n \<and> n \<le> 57 then L_digit
   else if n = 13 \<or> n = 10 \<or> n = 9 \<or> n = 32 then L_whitespace else L_other)"

lemma kCharTable_class_of_code:
  "n < 256 \<Longrightarrow> kCharTable ! n = label_class (class_of_code n)"
  unfolding kCharTable_def make_char_table_def Let_def class_of_code_def
  by (simp add: table_simps)

lemma fill_labels_class_of_code:
  "n < 256 \<Longrightarrow> length t = 256 \<Longrightarrow> fill_labels t ! n = Some (class_of_code n)"
  unfolding fill_labels_def Let_def class_of_code_def
  by (simp add: table_simps)

lemmas handle_defs =
  handle_whitespace_def handle_digit_def handle_alpha_def handle_exponent_def handle_quote_def
  handle_colon_def handle_comma_def handle_open_brace_def handle_close_brace_def
  handle_open_bracket_def handle_close_bracket_def handle_minus_def handle_plus_def
  handle_dot_def handle_backslash_def handle_other_def

lemma kFuncTable_class_of_code:
  "n < 256 \<Longrightarrow> (kFuncTable ! n) c = label_class (class_of_code n)"
  unfolding kFuncTable_def make_func_table_def Let_def class_of_code_def
  by (simp add: table_simps handle_defs)

lemma digit_chars: "c \<in> set ''0123456789'' \<longleftrightarrow> 48 \<le> uc c \<and> uc c \<le> 57"
proof -
  have "uc c \<in> set [48..<58] \<longleftrightarrow> 48 \<le> uc c \<and> uc c \<le> 57"
    unfolding set_upt atLeastLessThan_iff by linarith
  then show ?thesis by (simp add: char_eq_uc)
qed

lemma alpha_chars:
  "c \<in> set ''abcdfghijklmnopqrstuvwxyzABCDFGHIJKLMNOPQRSTUVWXYZ'' \<longleftrightarrow>
    (97 \<le> uc c \<and> uc c \<le> 122 \<or> 65 \<le> uc c \<and> uc c \<le> 90) \<and> uc c \<noteq> 101 \<and> uc c \<noteq> 69"
proof -
  have "uc c \<in> set ([97..<101] @ [102..<123] @ [65..<69] @ [70..<91]) \<longleftrightarrow>
    (97 \<le> uc c \<and> uc c \<le> 122 \<or> 65 \<le> uc c \<and> uc c \<le> 90) \<and> uc c \<noteq> 101 \<and> uc c \<noteq> 69"
    unfolding set_append set_upt Un_iff atLeastLessThan_iff by linarith
  then show ?thesis by (simp add: char_eq_uc)
qed

lemma classify_switch_class_of_code: "classify_switch c = label_class (class_of_code (uc c))"
proof -
  consider "uc c \<le> 32" | "48 \<le> uc c" "uc c \<le> 57" | "65 \<le> uc c" "uc c \<le> 90"
    | "97 \<le> uc c" "uc c \<le> 122"
    | "\<not> uc c \<le> 32" "\<not> (48 \<le> uc c \<and> uc c \<le> 57)" "\<not> (65 \<le> uc c \<and> uc c \<le> 90)"
      "\<not> (97 \<le> uc c \<and> uc c \<le> 122)"
    by linarith
  then show ?thesis
    unfolding classify_switch_def digit_chars alpha_chars class_of_code_def
    by cases (simp_all add: char_eq_uc, auto)
qed

lemma classify_hybrid_class_of_code: "classify_hybrid c = label_class (class_of_code (uc c))"
proof -
  consider "uc c \<le> 32" | "48 \<le> uc c" "uc c \<le> 57" | "65 \<le> uc c" "uc c \<le> 90"
    | "97 \<le> uc c" "uc c \<le> 122"
    | "\<not> uc c \<le> 32" "\<not> (48 \<le> uc c \<and> uc c \<le> 57)" "\<not> (65 \<le> uc c \<and> uc c \<le> 90)"
      "\<not> (97 \<le> uc c \<and> uc c \<le> 122)"
    by linarith
  then show ?thesis
  proof cases
    case 5
    then show ?thesis
      by (auto simp: classify_hybrid_def kCharTable_class_of_code)
  qed (simp_all add: classify_hybrid_def char_eq_uc class_of_code_def)
qed

text \<open>
  The statics of the computed goto are in one of two situations: not yet initialised, or holding
  the complete label array. Every call keeps this.
\<close>

definition goto_statics_ok :: "goto_statics \<Rightarrow> bool" where
  "goto_statics_ok g \<longleftrightarrow>
    length (labels g) = 256 \<and> (initialized g \<longrightarrow> labels g = fill_labels (replicate 256 None))"

lemma length_fill_labels [simp]: "length (fill_labels t) = length t"
  by (simp add: fill_labels_def Let_def)

lemma fill_labels_any: "length t = 256 \<Longrightarrow> fill_labels t = fill_labels (replicate 256 None)"
  by (rule nth_equalityI) (simp_all add: fill_labels_class_of_code)

lemma goto_statics_init_ok: "goto_statics_ok goto_statics_init"
  by (simp add: goto_statics_ok_def goto_statics_init_def)

lemma classify_computed_goto_class_of_code:
  assumes "goto_statics_ok g"
  shows "fst (classify_computed_goto c g) = Some (label_class (class_of_code (uc c)))"
    and "goto_statics_ok (snd (classify_computed_goto c g))"
  using assms
  by (auto simp: goto_statics_ok_def classify_computed_goto_def Let_def fill_labels_class_of_code
      intro: fill_labels_any)

lemmas classify_simps =
  classify_switch_class_of_code classify_table_def kCharTable_class_of_code
  classify_direct_threaded_def kFuncTable_class_of_code classify_hybrid_class_of_code
  classify_computed_goto_class_of_code

text \<open>A sequence of calls of the computed-goto classifier threads the statics through.\<close>

fun classify_goto_all :: "string \<Rightarrow> goto_statics \<Rightarrow> CharClass option list \<times> goto_statics" where
  "classify_goto_all [] g = ([], g)"
| "classify_goto_all (c # cs) g =
    (let (r, g) = classify_computed_goto c g; (rs, g) = classify_goto_all cs g in (r # rs, g))"

lemma classify_goto_all_switch:
  "goto_statics_ok g \<Longrightarrow> fst (classify_goto_all cs g) = map (\<lambda>c. Some (classify_switch c)) cs"
proof (induction cs arbitrary: g)
  case (Cons c cs)
  obtain r g' where rg: "classify_computed_goto c g = (r, g')" by fastforce
  obtain rs g'' where rs: "classify_goto_all cs g' = (rs, g'')" by fastforce
  from Cons.prems classify_computed_goto_class_of_code [of g c] rg
  have "r = Some (classify_switch c)" "goto_statics_ok g'"
    by (simp_all add: classify_switch_class_of_code)
  with Cons.IH [of g'] show ?case by (simp add: rg rs)
qed simp

text \<open>
  C1. The five character classifiers of \<^verbatim>\<open>char_classify\<close> give the same class for every
  \<^verbatim>\<open>char\<close> value: the lookup table, the function-pointer table, the range checks and the
  computed goto agree with the switch, and the computed goto, called any number of times from
  program start, never jumps through a null label.
\<close>

theorem classifiers_agree:
  "classify_table c = classify_switch c \<and> classify_direct_threaded c = classify_switch c \<and>
   classify_hybrid c = classify_switch c \<and>
   fst (classify_goto_all cs goto_statics_init) = map (\<lambda>c. Some (classify_switch c)) cs"
  by (simp add: classify_simps classify_goto_all_switch goto_statics_init_ok)

end
