(* ===== verification/Json_Tokenizer.thy ===== *)
theory Json_Tokenizer
  imports Char_Classify "HOL-Library.Sublist"
begin

text \<open>
  Part 2 of \<^verbatim>\<open>src/perf/threaded_code/json.cpp\<close>: the four tokenizers \<^verbatim>\<open>SwitchTokenizer\<close>,
  \<^verbatim>\<open>TableTokenizer\<close>, \<^verbatim>\<open>DirectThreadedTokenizer\<close> and \<^verbatim>\<open>ComputedGotoTokenizer\<close>, and the loop
  \<^verbatim>\<open>tokenize_all\<close> that drives them. A tokenizer object is its input and its position; the static
  tables are the arrays their initialisation leaves. An abstract lexer on the unread part of the
  input is the specification each tokenizer refines; the interface the driver needs is the locale
  \<open>tokenizer\<close>, and \<open>progressive_tokenizer\<close> adds the progress that makes the driver end.

  \<^verbatim>\<open>size_t\<close> positions are natural numbers: a position never exceeds the input's length by more
  than a keyword's length, and a \<^verbatim>\<open>string_view\<close> is shorter than \<open>2 ^ 63\<close>.
\<close>

record tokenizer =
  tok_input :: string
  tok_pos :: nat

definition mk_tokenizer :: "string \<Rightarrow> tokenizer" where
  "mk_tokenizer inp = \<lparr>tok_input = inp, tok_pos = 0\<rparr>"

definition reset :: "tokenizer \<Rightarrow> tokenizer" where
  "reset t = t\<lparr>tok_pos := 0\<rparr>"

definition advance :: "nat \<Rightarrow> tokenizer \<Rightarrow> tokenizer" where
  "advance n t = t\<lparr>tok_pos := tok_pos t + n\<rparr>"

abbreviation at_char :: "tokenizer \<Rightarrow> nat \<Rightarrow> char" where
  "at_char t k \<equiv> tok_input t ! (tok_pos t + k)"

abbreviation tsize :: "tokenizer \<Rightarrow> nat" where
  "tsize t \<equiv> length (tok_input t)"

lemma advance_simps [simp]:
  "tok_input (advance n t) = tok_input t" "tok_pos (advance n t) = tok_pos t + n"
  by (simp_all add: advance_def)

lemma advance_advance [simp]: "advance m (advance n t) = advance (n + m) t"
  by (simp add: advance_def)

text \<open>Every scanning loop moves the position forward inside the input.\<close>

lemma tokenizer_induct [case_names step]:
  assumes "\<And>t. (\<And>n. tok_pos t < tsize t \<Longrightarrow> 0 < n \<Longrightarrow> P (advance n t)) \<Longrightarrow> P t"
  shows "P (t :: tokenizer)"
proof (induction "tsize t - tok_pos t" arbitrary: t rule: less_induct)
  case less
  show ?case
    by (rule assms, rule less) simp
qed

definition is_ws :: "char \<Rightarrow> bool" where
  "is_ws c \<longleftrightarrow> c = ch_space \<or> c = ch_tab \<or> c = ch_lf \<or> c = ch_cr"

definition is_num_char :: "char \<Rightarrow> bool" where
  "is_num_char c \<longleftrightarrow> (sc c \<ge> sc CHR ''0'' \<and> sc c \<le> sc CHR ''9'') \<or> c = CHR ''.'' \<or> c = CHR ''e'' \<or>
     c = CHR ''E'' \<or> c = CHR ''+'' \<or> c = CHR ''-''"

section \<open>Switch tokenizer\<close>

text \<open>
  The bodies of the string loop and of the number loop are the same in \<^verbatim>\<open>SwitchTokenizer\<close>,
  \<^verbatim>\<open>DirectThreadedTokenizer\<close> and \<^verbatim>\<open>ComputedGotoTokenizer\<close>; they are the two functions below.
\<close>

function string_loop :: "tokenizer \<Rightarrow> JsonToken \<times> tokenizer" where
  "string_loop t =
  (if tok_pos t < tsize t then
     let c = at_char t 0; t = advance 1 t
     in if c = ch_quote then (JsonToken.String, t)
        else if c = ch_backslash \<and> tok_pos t < tsize t then string_loop (advance 1 t)
        else string_loop t
   else (JsonToken.Invalid, t))"
  by auto
termination by (relation "measure (\<lambda>t. tsize t - tok_pos t)") auto

function number_loop :: "tokenizer \<Rightarrow> JsonToken \<times> tokenizer" where
  "number_loop t =
  (if tok_pos t < tsize t then
     if is_num_char (at_char t 0) then number_loop (advance 1 t) else (JsonToken.Number, t)
   else (JsonToken.Number, t))"
  by auto
termination by (relation "measure (\<lambda>t. tsize t - tok_pos t)") auto

declare string_loop.simps [simp del] number_loop.simps [simp del]

definition parse_string :: "tokenizer \<Rightarrow> JsonToken \<times> tokenizer" where
  "parse_string t = string_loop (advance 1 t)"

definition parse_number :: "tokenizer \<Rightarrow> JsonToken \<times> tokenizer" where
  "parse_number t = number_loop (advance 1 t)"

definition parse_keyword :: "string \<Rightarrow> nat \<Rightarrow> JsonToken \<Rightarrow> tokenizer \<Rightarrow> JsonToken \<times> tokenizer" where
  "parse_keyword kw len token t =
  (if tok_pos t + len > tsize t then (JsonToken.Invalid, t)
   else if \<not> list_all (\<lambda>i. at_char t i = kw ! i) [0..<len] then (JsonToken.Invalid, t)
   else (token, advance len t))"

function switch_next_token :: "tokenizer \<Rightarrow> JsonToken \<times> tokenizer" where
  "switch_next_token t =
  (if tok_pos t < tsize t then
     let c = at_char t 0
     in if is_ws c then switch_next_token (advance 1 t)
        else if c = CHR ''{'' then (JsonToken.ObjectStart, advance 1 t)
        else if c = CHR ''}'' then (JsonToken.ObjectEnd, advance 1 t)
        else if c = CHR ''['' then (JsonToken.ArrayStart, advance 1 t)
        else if c = CHR '']'' then (JsonToken.ArrayEnd, advance 1 t)
        else if c = CHR '':'' then (JsonToken.Colon, advance 1 t)
        else if c = CHR '','' then (JsonToken.Comma, advance 1 t)
        else if c = ch_quote then parse_string t
        else if c = CHR ''t'' then parse_keyword ''true'' 4 JsonToken.True_tok t
        else if c = CHR ''f'' then parse_keyword ''false'' 5 JsonToken.False_tok t
        else if c = CHR ''n'' then parse_keyword ''null'' 4 JsonToken.Null t
        else if c = CHR ''-'' \<or> c \<in> set ''0123456789'' then parse_number t
        else (JsonToken.Invalid, advance 1 t)
   else (JsonToken.End, t))"
  by auto
termination by (relation "measure (\<lambda>t. tsize t - tok_pos t)") auto

declare switch_next_token.simps [simp del]

section \<open>Table tokenizer\<close>

datatype CharClassId =
    CC_WS | CC_LBRACE | CC_RBRACE | CC_LBRACKET | CC_RBRACKET | CC_QUOTE
  | CC_COLON | CC_COMMA | CC_MINUS | CC_DIGIT | CC_DOT | CC_EXP
  | CC_PLUS | CC_T | CC_F | CC_N | CC_BACKSLASH | CC_OTHER

text \<open>The enumerators are numbered from 0; \<^verbatim>\<open>CC_COUNT\<close> is 18.\<close>

fun cc_index :: "CharClassId \<Rightarrow> nat" where
  "cc_index CC_WS = 0"
| "cc_index CC_LBRACE = 1"
| "cc_index CC_RBRACE = 2"
| "cc_index CC_LBRACKET = 3"
| "cc_index CC_RBRACKET = 4"
| "cc_index CC_QUOTE = 5"
| "cc_index CC_COLON = 6"
| "cc_index CC_COMMA = 7"
| "cc_index CC_MINUS = 8"
| "cc_index CC_DIGIT = 9"
| "cc_index CC_DOT = 10"
| "cc_index CC_EXP = 11"
| "cc_index CC_PLUS = 12"
| "cc_index CC_T = 13"
| "cc_index CC_F = 14"
| "cc_index CC_N = 15"
| "cc_index CC_BACKSLASH = 16"
| "cc_index CC_OTHER = 17"

abbreviation CC_COUNT :: nat where "CC_COUNT \<equiv> 18"

record table_statics =
  tt_initialized :: bool
  tt_char_class :: "CharClassId list"
  tt_token_table :: "JsonToken list"

text \<open>Static storage is zero-initialised: every class id is \<open>CC_WS\<close>, every token \<open>Invalid\<close>.\<close>

definition table_statics_start :: table_statics where
  "table_statics_start =
    \<lparr>tt_initialized = False, tt_char_class = replicate 256 CC_WS,
     tt_token_table = replicate CC_COUNT JsonToken.Invalid\<rparr>"

definition init_char_class :: "CharClassId list \<Rightarrow> CharClassId list" where
  "init_char_class table =
  (let table = fill_range 0 255 CC_OTHER table;
       table = table[uc ch_space := CC_WS];
       table = table[uc ch_tab := CC_WS];
       table = table[uc ch_lf := CC_WS];
       table = table[uc ch_cr := CC_WS];
       table = table[uc CHR ''{'' := CC_LBRACE];
       table = table[uc CHR ''}'' := CC_RBRACE];
       table = table[uc CHR ''['' := CC_LBRACKET];
       table = table[uc CHR '']'' := CC_RBRACKET];
       table = table[uc ch_quote := CC_QUOTE];
       table = table[uc CHR '':'' := CC_COLON];
       table = table[uc CHR '','' := CC_COMMA];
       table = table[uc CHR ''-'' := CC_MINUS];
       table = fill_range (uc CHR ''0'') (uc CHR ''9'') CC_DIGIT table;
       table = table[uc CHR ''.'' := CC_DOT];
       table = table[uc CHR ''e'' := CC_EXP];
       table = table[uc CHR ''E'' := CC_EXP];
       table = table[uc CHR ''+'' := CC_PLUS];
       table = table[uc CHR ''t'' := CC_T];
       table = table[uc CHR ''f'' := CC_F];
       table = table[uc CHR ''n'' := CC_N];
       table = table[uc ch_backslash := CC_BACKSLASH]
   in table)"

definition init_token_table :: "JsonToken list \<Rightarrow> JsonToken list" where
  "init_token_table table =
  (let table = fill_range 0 (CC_COUNT - 1) JsonToken.Invalid table;
       table = table[cc_index CC_LBRACE := JsonToken.ObjectStart];
       table = table[cc_index CC_RBRACE := JsonToken.ObjectEnd];
       table = table[cc_index CC_LBRACKET := JsonToken.ArrayStart];
       table = table[cc_index CC_RBRACKET := JsonToken.ArrayEnd];
       table = table[cc_index CC_COLON := JsonToken.Colon];
       table = table[cc_index CC_COMMA := JsonToken.Comma]
   in table)"

definition init_tables :: "table_statics \<Rightarrow> table_statics" where
  "init_tables st =
  (if tt_initialized st then st
   else \<lparr>tt_initialized = True, tt_char_class = init_char_class (tt_char_class st),
         tt_token_table = init_token_table (tt_token_table st)\<rparr>)"

text \<open>
  Every constructor runs \<open>init_tables\<close>, so the arrays a member function reads are those of the
  initialised statics.
\<close>

definition char_class :: "char \<Rightarrow> CharClassId" where
  "char_class c = tt_char_class (init_tables table_statics_start) ! uc c"

definition token_table :: "CharClassId \<Rightarrow> JsonToken" where
  "token_table cc = tt_token_table (init_tables table_statics_start) ! cc_index cc"

function table_string_loop :: "tokenizer \<Rightarrow> JsonToken \<times> tokenizer" where
  "table_string_loop t =
  (if tok_pos t < tsize t then
     let cc = char_class (at_char t 0); t = advance 1 t
     in if cc = CC_QUOTE then (JsonToken.String, t)
        else if cc = CC_BACKSLASH \<and> tok_pos t < tsize t then table_string_loop (advance 1 t)
        else table_string_loop t
   else (JsonToken.Invalid, t))"
  by auto
termination by (relation "measure (\<lambda>t. tsize t - tok_pos t)") auto

function table_number_loop :: "tokenizer \<Rightarrow> JsonToken \<times> tokenizer" where
  "table_number_loop t =
  (if tok_pos t < tsize t then
     let cc = char_class (at_char t 0)
     in if cc = CC_DIGIT \<or> cc = CC_DOT \<or> cc = CC_EXP \<or> cc = CC_PLUS \<or> cc = CC_MINUS
        then table_number_loop (advance 1 t)
        else (JsonToken.Number, t)
   else (JsonToken.Number, t))"
  by auto
termination by (relation "measure (\<lambda>t. tsize t - tok_pos t)") auto

function table_skip_ws :: "tokenizer \<Rightarrow> tokenizer" where
  "table_skip_ws t =
  (if tok_pos t < tsize t \<and> char_class (at_char t 0) = CC_WS then table_skip_ws (advance 1 t) else t)"
  by auto
termination by (relation "measure (\<lambda>t. tsize t - tok_pos t)") auto

declare table_string_loop.simps [simp del] table_number_loop.simps [simp del]
  table_skip_ws.simps [simp del]

definition table_next_token :: "tokenizer \<Rightarrow> JsonToken \<times> tokenizer" where
  "table_next_token t =
  (let t = table_skip_ws t
   in if tok_pos t \<ge> tsize t then (JsonToken.End, t)
      else
        let cc = char_class (at_char t 0)
        in if token_table cc \<noteq> JsonToken.Invalid then (token_table cc, advance 1 t)
           else if cc = CC_QUOTE then table_string_loop (advance 1 t)
           else if cc = CC_MINUS \<or> cc = CC_DIGIT then table_number_loop (advance 1 t)
           else if cc = CC_T then parse_keyword ''true'' 4 JsonToken.True_tok t
           else if cc = CC_F then parse_keyword ''false'' 5 JsonToken.False_tok t
           else if cc = CC_N then parse_keyword ''null'' 4 JsonToken.Null t
           else (JsonToken.Invalid, advance 1 t))"

section \<open>Direct threaded tokenizer\<close>

type_synonym TokenHandler = "tokenizer \<Rightarrow> JsonToken \<times> tokenizer"

definition dt_handle_skip :: TokenHandler where
  "dt_handle_skip t = (JsonToken.Whitespace, advance 1 t)"

definition dt_handle_object_start :: TokenHandler where
  "dt_handle_object_start t = (JsonToken.ObjectStart, advance 1 t)"

definition dt_handle_object_end :: TokenHandler where
  "dt_handle_object_end t = (JsonToken.ObjectEnd, advance 1 t)"

definition dt_handle_array_start :: TokenHandler where
  "dt_handle_array_start t = (JsonToken.ArrayStart, advance 1 t)"

definition dt_handle_array_end :: TokenHandler where
  "dt_handle_array_end t = (JsonToken.ArrayEnd, advance 1 t)"

definition dt_handle_colon :: TokenHandler where
  "dt_handle_colon t = (JsonToken.Colon, advance 1 t)"

definition dt_handle_comma :: TokenHandler where
  "dt_handle_comma t = (JsonToken.Comma, advance 1 t)"

definition dt_handle_string :: TokenHandler where
  "dt_handle_string t = string_loop (advance 1 t)"

definition dt_handle_number :: TokenHandler where
  "dt_handle_number t = number_loop (advance 1 t)"

definition dt_handle_true :: TokenHandler where
  "dt_handle_true t =
  (if tok_pos t + 4 \<le> tsize t \<and> at_char t 1 = CHR ''r'' \<and> at_char t 2 = CHR ''u'' \<and> at_char t 3 = CHR ''e''
   then (JsonToken.True_tok, advance 4 t)
   else (JsonToken.Invalid, advance 1 t))"

definition dt_handle_false :: TokenHandler where
  "dt_handle_false t =
  (if tok_pos t + 5 \<le> tsize t \<and> at_char t 1 = CHR ''a'' \<and> at_char t 2 = CHR ''l'' \<and> at_char t 3 = CHR ''s'' \<and>
      at_char t 4 = CHR ''e''
   then (JsonToken.False_tok, advance 5 t)
   else (JsonToken.Invalid, advance 1 t))"

definition dt_handle_null :: TokenHandler where
  "dt_handle_null t =
  (if tok_pos t + 4 \<le> tsize t \<and> at_char t 1 = CHR ''u'' \<and> at_char t 2 = CHR ''l'' \<and> at_char t 3 = CHR ''l''
   then (JsonToken.Null, advance 4 t)
   else (JsonToken.Invalid, advance 1 t))"

definition dt_handle_invalid :: TokenHandler where
  "dt_handle_invalid t = (JsonToken.Invalid, advance 1 t)"

lemmas dt_handler_defs [tok_defs] =
  dt_handle_skip_def dt_handle_object_start_def dt_handle_object_end_def
  dt_handle_array_start_def dt_handle_array_end_def dt_handle_colon_def dt_handle_comma_def
  dt_handle_string_def dt_handle_number_def dt_handle_true_def dt_handle_false_def
  dt_handle_null_def dt_handle_invalid_def

record handler_statics =
  dt_initialized :: bool
  dt_handlers :: "TokenHandler option list"

definition handler_statics_start :: handler_statics where
  "handler_statics_start = \<lparr>dt_initialized = False, dt_handlers = replicate 256 None\<rparr>"

definition init_handlers :: "handler_statics \<Rightarrow> handler_statics" where
  "init_handlers st =
  (if dt_initialized st then st
   else
    let table = fill_range 0 255 (Some dt_handle_invalid) (dt_handlers st);
        table = table[uc ch_space := Some dt_handle_skip];
        table = table[uc ch_tab := Some dt_handle_skip];
        table = table[uc ch_lf := Some dt_handle_skip];
        table = table[uc ch_cr := Some dt_handle_skip];
        table = table[uc CHR ''{'' := Some dt_handle_object_start];
        table = table[uc CHR ''}'' := Some dt_handle_object_end];
        table = table[uc CHR ''['' := Some dt_handle_array_start];
        table = table[uc CHR '']'' := Some dt_handle_array_end];
        table = table[uc CHR '':'' := Some dt_handle_colon];
        table = table[uc CHR '','' := Some dt_handle_comma];
        table = table[uc ch_quote := Some dt_handle_string];
        table = table[uc CHR ''t'' := Some dt_handle_true];
        table = table[uc CHR ''f'' := Some dt_handle_false];
        table = table[uc CHR ''n'' := Some dt_handle_null];
        table = table[uc CHR ''-'' := Some dt_handle_number];
        table = fill_range (uc CHR ''0'') (uc CHR ''9'') (Some dt_handle_number) table
    in \<lparr>dt_initialized = True, dt_handlers = table\<rparr>)"

text \<open>
  What the initialised array holds: the handlers of the special characters, \<open>dt_handle_invalid\<close>
  elsewhere, no null pointer. This is what makes the dispatch loop below terminate.
\<close>

definition dt_handler_of_code :: "nat \<Rightarrow> TokenHandler" where
  "dt_handler_of_code n =
    (if 48 \<le> n \<and> n \<le> 57 then dt_handle_number else if n = 45 then dt_handle_number
     else if n = 110 then dt_handle_null else if n = 102 then dt_handle_false
     else if n = 116 then dt_handle_true else if n = 34 then dt_handle_string
     else if n = 44 then dt_handle_comma else if n = 58 then dt_handle_colon
     else if n = 93 then dt_handle_array_end else if n = 91 then dt_handle_array_start
     else if n = 125 then dt_handle_object_end else if n = 123 then dt_handle_object_start
     else if n = 13 \<or> n = 10 \<or> n = 9 \<or> n = 32 then dt_handle_skip
     else dt_handle_invalid)"

lemma init_handlers_nth:
  "n < 256 \<Longrightarrow> dt_handlers (init_handlers handler_statics_start) ! n = Some (dt_handler_of_code n)"
  unfolding init_handlers_def handler_statics_start_def dt_handler_of_code_def Let_def
  by (simp add: table_simps)

definition handlers :: "char \<Rightarrow> TokenHandler" where
  "handlers c = the (dt_handlers (init_handlers handler_statics_start) ! uc c)"

lemma handlers_eq: "handlers c = dt_handler_of_code (uc c)"
  by (simp add: handlers_def init_handlers_nth)

lemma string_loop_forward: "tok_pos t \<le> tok_pos (snd (string_loop t)) \<and> tok_input (snd (string_loop t)) = tok_input t"
proof (induction t rule: tokenizer_induct)
  case (step t)
  show ?case
    using step [of 1] step [of "Suc (Suc 0)"]
    by (subst (1 2) string_loop.simps) (auto simp: Let_def dest: Suc_leD)
qed

lemma number_loop_forward: "tok_pos t \<le> tok_pos (snd (number_loop t)) \<and> tok_input (snd (number_loop t)) = tok_input t"
proof (induction t rule: tokenizer_induct)
  case (step t)
  show ?case
    using step [of 1]
    by (subst (1 2) number_loop.simps) (auto dest: Suc_leD)
qed

lemma handlers_forward: "tok_pos t < tok_pos (snd (handlers c t))"
  and handlers_input: "tok_input (snd (handlers c t)) = tok_input t"
  using string_loop_forward [of "advance 1 t"] number_loop_forward [of "advance 1 t"]
  by (simp_all add: handlers_eq dt_handler_of_code_def dt_handler_defs)

function direct_next_token :: "tokenizer \<Rightarrow> JsonToken \<times> tokenizer" where
  "direct_next_token t =
  (if tok_pos t < tsize t then
     let (result, t') = handlers (at_char t 0) t
     in if result \<noteq> JsonToken.Whitespace then (result, t') else direct_next_token t'
   else (JsonToken.End, t))"
  by auto
termination
proof (relation "measure (\<lambda>t. tsize t - tok_pos t)")
  fix t x r t'
  assume "tok_pos t < tsize t" "x = handlers (at_char t 0) t" "(r, t') = x"
  with handlers_forward [of t "at_char t 0"] handlers_input [of "at_char t 0" t]
  show "(t', t) \<in> measure (\<lambda>t. tsize t - tok_pos t)"
    by (cases "handlers (at_char t 0) t") auto
qed simp

declare direct_next_token.simps [simp del]

section \<open>Computed goto tokenizer\<close>

datatype tok_label =
    L_skip | L_object_start | L_object_end | L_array_start | L_array_end | L_colon | L_comma
  | L_string | L_number | L_true | L_false | L_null | L_invalid

record dispatch_statics =
  dispatch_table_init :: bool
  dispatch_labels :: "tok_label option list"

definition dispatch_statics_start :: dispatch_statics where
  "dispatch_statics_start = \<lparr>dispatch_table_init = False, dispatch_labels = replicate 256 None\<rparr>"

definition init_dispatch :: "dispatch_statics \<Rightarrow> dispatch_statics" where
  "init_dispatch st =
  (if dispatch_table_init st then st
   else
    let table = fill_range 0 255 (Some L_invalid) (dispatch_labels st);
        table = table[uc ch_space := Some L_skip];
        table = table[uc ch_tab := Some L_skip];
        table = table[uc ch_lf := Some L_skip];
        table = table[uc ch_cr := Some L_skip];
        table = table[uc CHR ''{'' := Some L_object_start];
        table = table[uc CHR ''}'' := Some L_object_end];
        table = table[uc CHR ''['' := Some L_array_start];
        table = table[uc CHR '']'' := Some L_array_end];
        table = table[uc CHR '':'' := Some tok_label.L_colon];
        table = table[uc CHR '','' := Some tok_label.L_comma];
        table = table[uc ch_quote := Some L_string];
        table = table[uc CHR ''t'' := Some L_true];
        table = table[uc CHR ''f'' := Some L_false];
        table = table[uc CHR ''n'' := Some L_null];
        table = table[uc CHR ''-'' := Some L_number];
        table = fill_range (uc CHR ''0'') (uc CHR ''9'') (Some L_number) table
    in \<lparr>dispatch_table_init = True, dispatch_labels = table\<rparr>)"

definition label_of_code :: "nat \<Rightarrow> tok_label" where
  "label_of_code n =
    (if 48 \<le> n \<and> n \<le> 57 then L_number else if n = 45 then L_number
     else if n = 110 then L_null else if n = 102 then L_false
     else if n = 116 then L_true else if n = 34 then L_string
     else if n = 44 then tok_label.L_comma else if n = 58 then tok_label.L_colon
     else if n = 93 then L_array_end else if n = 91 then L_array_start
     else if n = 125 then L_object_end else if n = 123 then L_object_start
     else if n = 13 \<or> n = 10 \<or> n = 9 \<or> n = 32 then L_skip
     else L_invalid)"

lemma init_dispatch_nth:
  "n < 256 \<Longrightarrow> dispatch_labels (init_dispatch dispatch_statics_start) ! n = Some (label_of_code n)"
  unfolding init_dispatch_def dispatch_statics_start_def label_of_code_def Let_def
  by (simp add: table_simps)

definition dispatch_table :: "char \<Rightarrow> tok_label" where
  "dispatch_table c = the (dispatch_labels (init_dispatch dispatch_statics_start) ! uc c)"

lemma dispatch_table_eq: "dispatch_table c = label_of_code (uc c)"
  by (simp add: dispatch_table_def init_dispatch_nth)

text \<open>\<open>goto_dispatch\<close> is the code from \<^verbatim>\<open>DISPATCH()\<close> on: the jump and the code at the label.\<close>

function goto_dispatch :: "tokenizer \<Rightarrow> JsonToken \<times> tokenizer" where
  "goto_dispatch t =
  (if tok_pos t \<ge> tsize t then (JsonToken.End, t)
   else case dispatch_table (at_char t 0) of
     L_skip \<Rightarrow> goto_dispatch (advance 1 t)
   | L_object_start \<Rightarrow> (JsonToken.ObjectStart, advance 1 t)
   | L_object_end \<Rightarrow> (JsonToken.ObjectEnd, advance 1 t)
   | L_array_start \<Rightarrow> (JsonToken.ArrayStart, advance 1 t)
   | L_array_end \<Rightarrow> (JsonToken.ArrayEnd, advance 1 t)
   | tok_label.L_colon \<Rightarrow> (JsonToken.Colon, advance 1 t)
   | tok_label.L_comma \<Rightarrow> (JsonToken.Comma, advance 1 t)
   | L_string \<Rightarrow> string_loop (advance 1 t)
   | L_number \<Rightarrow> number_loop (advance 1 t)
   | L_true \<Rightarrow>
       if tok_pos t + 4 \<le> tsize t \<and> at_char t 1 = CHR ''r'' \<and> at_char t 2 = CHR ''u'' \<and> at_char t 3 = CHR ''e''
       then (JsonToken.True_tok, advance 4 t)
       else (JsonToken.Invalid, advance 1 t)
   | L_false \<Rightarrow>
       if tok_pos t + 5 \<le> tsize t \<and> at_char t 1 = CHR ''a'' \<and> at_char t 2 = CHR ''l'' \<and>
          at_char t 3 = CHR ''s'' \<and> at_char t 4 = CHR ''e''
       then (JsonToken.False_tok, advance 5 t)
       else (JsonToken.Invalid, advance 1 t)
   | L_null \<Rightarrow>
       if tok_pos t + 4 \<le> tsize t \<and> at_char t 1 = CHR ''u'' \<and> at_char t 2 = CHR ''l'' \<and> at_char t 3 = CHR ''l''
       then (JsonToken.Null, advance 4 t)
       else (JsonToken.Invalid, advance 1 t)
   | L_invalid \<Rightarrow> (JsonToken.Invalid, advance 1 t))"
  by auto
termination by (relation "measure (\<lambda>t. tsize t - tok_pos t)") auto

declare goto_dispatch.simps [simp del]

definition goto_next_token :: "tokenizer \<Rightarrow> JsonToken \<times> tokenizer" where
  "goto_next_token t = goto_dispatch t"

section \<open>The driver\<close>

text \<open>
  \<^verbatim>\<open>tokenize_all\<close> adds the numeric codes of the tokens up to \<open>End\<close>. Whether it ends depends on
  the tokenizer, so it takes fuel, one unit per call of \<^verbatim>\<open>next_token\<close>; \<open>None\<close> is that the fuel
  was not enough. \<open>collect_tokens\<close> is the same loop returning the tokens, as the program's own
  test harness does, which in addition stops after 100 tokens.
\<close>

fun tok_code :: "JsonToken \<Rightarrow> nat" where
  "tok_code JsonToken.Invalid = 0"
| "tok_code JsonToken.ObjectStart = 1"
| "tok_code JsonToken.ObjectEnd = 2"
| "tok_code JsonToken.ArrayStart = 3"
| "tok_code JsonToken.ArrayEnd = 4"
| "tok_code JsonToken.String = 5"
| "tok_code JsonToken.Number = 6"
| "tok_code JsonToken.True_tok = 7"
| "tok_code JsonToken.False_tok = 8"
| "tok_code JsonToken.Null = 9"
| "tok_code JsonToken.Colon = 10"
| "tok_code JsonToken.Comma = 11"
| "tok_code JsonToken.Whitespace = 12"
| "tok_code JsonToken.End = 13"
| "tok_code JsonToken.Count = 14"

fun tokenize_all :: "TokenHandler \<Rightarrow> nat \<Rightarrow> tokenizer \<Rightarrow> u64 \<Rightarrow> (tokenizer \<times> u64) option" where
  "tokenize_all next_token 0 t acc = None"
| "tokenize_all next_token (Suc fuel) t acc =
    (case next_token t of (k, t') \<Rightarrow>
       if k = JsonToken.End then Some (t', acc)
       else tokenize_all next_token fuel t' (acc + of_nat (tok_code k)))"

fun collect_tokens :: "TokenHandler \<Rightarrow> nat \<Rightarrow> tokenizer \<Rightarrow> JsonToken list option" where
  "collect_tokens next_token 0 t = None"
| "collect_tokens next_token (Suc fuel) t =
    (case next_token t of (k, t') \<Rightarrow>
       if k = JsonToken.End then Some [JsonToken.End]
       else map_option ((#) k) (collect_tokens next_token fuel t'))"

section \<open>The specification: a lexer on the unread input\<close>

definition rest :: "tokenizer \<Rightarrow> string" where
  "rest t = drop (tok_pos t) (tok_input t)"

fun lex_string :: "string \<Rightarrow> JsonToken \<times> string" where
  "lex_string [] = (JsonToken.Invalid, [])"
| "lex_string (c # cs) =
    (if c = ch_quote then (JsonToken.String, cs)
     else if c = ch_backslash then
       (case cs of [] \<Rightarrow> (JsonToken.Invalid, []) | d # ds \<Rightarrow> lex_string ds)
     else lex_string cs)"

definition lex_keyword :: "bool \<Rightarrow> string \<Rightarrow> JsonToken \<Rightarrow> string \<Rightarrow> JsonToken \<times> string" where
  "lex_keyword skip kw token s =
    (if prefix kw s then (token, drop (length kw) s)
     else (JsonToken.Invalid, if skip then tl s else s))"

text \<open>
  \<open>lex skip\<close> gives the next token and what is left unread. The four tokenizers differ in one
  point only, the flag \<open>skip\<close>: whether a failed keyword consumes its first letter.
\<close>

definition lex :: "bool \<Rightarrow> string \<Rightarrow> JsonToken \<times> string" where
  "lex skip s =
  (case dropWhile is_ws s of
     [] \<Rightarrow> (JsonToken.End, [])
   | c # cs \<Rightarrow>
       if c = CHR ''{'' then (JsonToken.ObjectStart, cs)
       else if c = CHR ''}'' then (JsonToken.ObjectEnd, cs)
       else if c = CHR ''['' then (JsonToken.ArrayStart, cs)
       else if c = CHR '']'' then (JsonToken.ArrayEnd, cs)
       else if c = CHR '':'' then (JsonToken.Colon, cs)
       else if c = CHR '','' then (JsonToken.Comma, cs)
       else if c = ch_quote then lex_string cs
       else if c = CHR ''t'' then lex_keyword skip ''true'' JsonToken.True_tok (c # cs)
       else if c = CHR ''f'' then lex_keyword skip ''false'' JsonToken.False_tok (c # cs)
       else if c = CHR ''n'' then lex_keyword skip ''null'' JsonToken.Null (c # cs)
       else if c = CHR ''-'' \<or> c \<in> set ''0123456789'' then (JsonToken.Number, dropWhile is_num_char cs)
       else (JsonToken.Invalid, cs))"

text \<open>
  The interface: a tokenizer implements a lexer if each call returns the lexer's token, leaves
  the lexer's rest unread, keeps the input and stays within it.
\<close>

locale tokenizer_spec =
  fixes next_token :: TokenHandler and lexer :: "string \<Rightarrow> JsonToken \<times> string"
  assumes token: "fst (next_token t) = fst (lexer (rest t))"
    and unread: "rest (snd (next_token t)) = snd (lexer (rest t))"
    and input: "tok_input (snd (next_token t)) = tok_input t"
    and bound: "tok_pos t \<le> tsize t \<Longrightarrow> tok_pos (snd (next_token t)) \<le> tsize t"

fun lex_all :: "(string \<Rightarrow> JsonToken \<times> string) \<Rightarrow> nat \<Rightarrow> string \<Rightarrow> JsonToken list option" where
  "lex_all lexer 0 s = None"
| "lex_all lexer (Suc fuel) s =
    (case lexer s of (k, s') \<Rightarrow>
       if k = JsonToken.End then Some [JsonToken.End]
       else map_option ((#) k) (lex_all lexer fuel s'))"

lemma tokenizer_eqI:
  assumes "tok_input t = tok_input u" "rest t = rest u"
    and "tok_pos t \<le> tsize t" "tok_pos u \<le> tsize u"
  shows "t = (u :: tokenizer)"
proof -
  have "tsize t - tok_pos t = tsize u - tok_pos u"
    using assms(2) by (metis length_drop rest_def)
  with assms have "tok_pos t = tok_pos u" by simp
  with assms(1) show ?thesis by simp
qed

context tokenizer_spec
begin

lemma collect_tokens_lex_all: "collect_tokens next_token n t = lex_all lexer n (rest t)"
proof (induction n arbitrary: t)
  case (Suc n)
  show ?case
    using token [of t] unread [of t] Suc.IH
    by (cases "next_token t"; cases "lexer (rest t)") auto
qed simp

lemma tokenize_all_lex_all:
  "map_option snd (tokenize_all next_token n t acc) =
    map_option (\<lambda>ks. acc + of_nat (sum_list (map tok_code (butlast ks)))) (lex_all lexer n (rest t))"
proof (induction n arbitrary: t acc)
  case (Suc n)
  obtain k t' where kt: "next_token t = (k, t')" by fastforce
  then have lx: "lexer (rest t) = (k, rest t')"
    using token [of t] unread [of t] by (cases "lexer (rest t)") auto
  show ?case
  proof (cases "k = JsonToken.End")
    case False
    have "lex_all lexer n (rest t') \<noteq> Some []" for t'
      by (cases n) (auto split: prod.splits)
    then show ?thesis
      using Suc.IH [of t' "acc + of_nat (tok_code k)"] False
      by (auto simp: kt lx option.map_comp comp_def algebra_simps
          intro!: map_option_cong)
  qed (simp add: kt lx)
qed simp

end

lemma tokenizers_equal:
  assumes "tokenizer_spec f l" "tokenizer_spec g l" "tok_pos t \<le> tsize t"
  shows "f t = g t"
proof -
  have "snd (f t) = snd (g t)"
    using assms by (intro tokenizer_eqI) (simp_all add: tokenizer_spec_def)
  moreover have "fst (f t) = fst (g t)"
    using assms by (simp add: tokenizer_spec_def)
  ultimately show ?thesis by (simp add: prod_eq_iff)
qed

text \<open>A lexer that consumes something unless it reports the end makes the driver end.\<close>

locale progressive_tokenizer = tokenizer_spec +
  assumes progress: "fst (lexer s) \<noteq> JsonToken.End \<Longrightarrow> length (snd (lexer s)) < length s"
begin

lemma lex_all_ends: "length s < n \<Longrightarrow> \<exists>ks. lex_all lexer n s = Some ks"
proof (induction n arbitrary: s)
  case (Suc n)
  obtain k s' where ks: "lexer s = (k, s')" by fastforce
  show ?case
  proof (cases "k = JsonToken.End")
    case False
    with progress [of s] Suc.prems have "length s' < n" by (simp add: ks)
    with Suc.IH show ?thesis using False by (fastforce simp: ks)
  qed (simp add: ks)
qed simp

lemma tokenize_all_ends:
  assumes "tsize t - tok_pos t < n"
  shows "\<exists>r. tokenize_all next_token n t acc = Some r"
proof -
  from assms have "length (rest t) < n" by (simp add: rest_def)
  then obtain ks where "lex_all lexer n (rest t) = Some ks" using lex_all_ends by blast
  with tokenize_all_lex_all [of n t acc] show ?thesis by auto
qed

end

section \<open>The tokenizers implement the lexer\<close>

lemma rest_nil: "\<not> tok_pos t < tsize t \<Longrightarrow> rest t = []"
  by (simp add: rest_def)

lemma rest_cons: "tok_pos t < tsize t \<Longrightarrow> rest t = at_char t 0 # rest (advance 1 t)"
  by (simp add: rest_def drop_nth_Cons)

lemma rest_advance: "rest (advance n t) = drop n (rest t)"
  by (simp add: rest_def add.commute)

lemma at_char_rest: "tok_pos t + k < tsize t \<Longrightarrow> at_char t k = rest t ! k"
  by (simp add: rest_def)

definition yields :: "JsonToken \<times> tokenizer \<Rightarrow> tokenizer \<Rightarrow> JsonToken \<times> string \<Rightarrow> bool" where
  "yields r t ks \<longleftrightarrow> fst r = fst ks \<and> rest (snd r) = snd ks \<and> tok_input (snd r) = tok_input t \<and>
    (tok_pos t \<le> tsize t \<longrightarrow> tok_pos (snd r) \<le> tsize t)"

lemma tokenizer_specI: "(\<And>t. yields (f t) t (l (rest t))) \<Longrightarrow> tokenizer_spec f l"
  by (simp add: tokenizer_spec_def yields_def)

lemma yields_self [intro]: "yields (k, t) t (k, rest t)"
  by (simp add: yields_def)

lemma yields_advance [intro]:
  "tok_pos t + n \<le> tsize t \<Longrightarrow> yields (k, advance n t) t (k, rest (advance n t))"
  by (simp add: yields_def)

lemma yields_later [intro]:
  "yields r (advance n t) ks \<Longrightarrow> tok_pos t + n \<le> tsize t \<Longrightarrow> yields r t ks"
  by (simp add: yields_def)

lemma string_loop_yields: "yields (string_loop t) t (lex_string (rest t))"
proof (induction t rule: tokenizer_induct)
  case (step t)
  show ?case
  proof (cases "tok_pos t < tsize t")
    case True
    then have r: "rest t = at_char t 0 # rest (advance 1 t)" by (rule rest_cons)
    show ?thesis
    proof (cases "at_char t 0 = ch_backslash \<and> tok_pos (advance 1 t) < tsize t")
      case esc: True
      then have "rest (advance 1 t) = at_char (advance 1 t) 0 # rest (advance 1 (advance 1 t))"
        by (intro rest_cons) simp
      with esc True step [of "Suc (Suc 0)"] r show ?thesis
        by (subst string_loop.simps) (auto simp: Let_def)
    next
      case False
      then have "at_char t 0 = ch_backslash \<Longrightarrow> rest (advance 1 t) = []"
        by (intro rest_nil) simp
      with False True step [of 1] r show ?thesis
        by (subst string_loop.simps) (auto simp: Let_def)
    qed
  next
    case False
    then show ?thesis
      by (subst string_loop.simps) (simp add: rest_nil yields_def)
  qed
qed

lemma number_loop_yields: "yields (number_loop t) t (JsonToken.Number, dropWhile is_num_char (rest t))"
proof (induction t rule: tokenizer_induct)
  case (step t)
  show ?case
  proof (cases "tok_pos t < tsize t")
    case True
    then have r: "rest t = at_char t 0 # rest (advance 1 t)" by (rule rest_cons)
    with True step [of 1] show ?thesis
      by (subst number_loop.simps) (auto simp: yields_def)
  next
    case False
    then show ?thesis
      by (subst number_loop.simps) (simp add: rest_nil yields_def)
  qed
qed

lemma prefix_take_iff: "prefix kw s \<longleftrightarrow> take (length kw) s = kw"
  by (metis append_eq_conv_conj append_take_drop_id prefixE prefixI)

lemma keyword_prefix:
  assumes "tok_pos t + length kw \<le> tsize t"
  shows "list_all (\<lambda>i. at_char t i = kw ! i) [0..<length kw] \<longleftrightarrow> prefix kw (rest t)"
proof -
  have "length (take (length kw) (rest t)) = length kw"
    using assms by (simp add: rest_def)
  then have "prefix kw (rest t) \<longleftrightarrow> (\<forall>i<length kw. take (length kw) (rest t) ! i = kw ! i)"
    unfolding prefix_take_iff by (metis nth_equalityI)
  moreover have "at_char t i = take (length kw) (rest t) ! i" if "i < length kw" for i
    using that assms by (simp add: rest_def)
  ultimately show ?thesis
    by (auto simp: list_all_iff)
qed

lemma keyword_too_long: "\<not> tok_pos t + length kw \<le> tsize t \<Longrightarrow> kw \<noteq> [] \<Longrightarrow> \<not> prefix kw (rest t)"
  by (cases kw) (auto simp: rest_def dest!: prefix_length_le)

lemma parse_keyword_yields:
  assumes "kw \<noteq> []" and "len = length kw"
  shows "yields (parse_keyword kw len token t) t (lex_keyword False kw token (rest t))"
proof (cases "tok_pos t + length kw \<le> tsize t")
  case True
  with keyword_prefix [OF True] assms(2) show ?thesis
    by (auto simp: parse_keyword_def lex_keyword_def yields_def rest_advance)
next
  case False
  with keyword_too_long [OF False assms(1)] assms(2) show ?thesis
    by (auto simp: parse_keyword_def lex_keyword_def)
qed

lemma switch_next_token_yields: "yields (switch_next_token t) t (lex False (rest t))"
proof (induction t rule: tokenizer_induct)
  case (step t)
  show ?case
  proof (cases "tok_pos t < tsize t")
    case True
    then have r: "rest t = at_char t 0 # rest (advance 1 t)" by (rule rest_cons)
    have b: "tok_pos t + 1 \<le> tsize t" using True by simp
    show ?thesis
    proof (cases "is_ws (at_char t 0)")
      case ws: True
      have "lex False (rest t) = lex False (rest (advance 1 t))"
        using ws by (simp add: lex_def r)
      with step [of 1] True ws b show ?thesis
        by (subst switch_next_token.simps) (auto simp: Let_def)
    next
      case nws: False
      note kw = parse_keyword_yields [of "''true''" 4 JsonToken.True_tok t]
        parse_keyword_yields [of "''false''" 5 JsonToken.False_tok t]
        parse_keyword_yields [of "''null''" 4 JsonToken.Null t]
      show ?thesis
        using True nws b kw yields_later [OF string_loop_yields b] yields_later [OF number_loop_yields b]
        by (subst switch_next_token.simps)
          (simp add: Let_def lex_def r parse_string_def parse_number_def yields_advance, auto)
    qed
  next
    case False
    then show ?thesis
      by (subst switch_next_token.simps) (simp add: rest_nil lex_def yields_def)
  qed
qed

subsection \<open>The table tokenizer\<close>

definition cc_of_code :: "nat \<Rightarrow> CharClassId" where
  "cc_of_code n =
  (if n = 92 then CC_BACKSLASH else if n = 110 then CC_N else if n = 102 then CC_F
   else if n = 116 then CC_T else if n = 43 then CC_PLUS else if n = 69 then CC_EXP
   else if n = 101 then CC_EXP else if n = 46 then CC_DOT
   else if 48 \<le> n \<and> n \<le> 57 then CC_DIGIT else if n = 45 then CC_MINUS
   else if n = 44 then CC_COMMA else if n = 58 then CC_COLON else if n = 34 then CC_QUOTE
   else if n = 93 then CC_RBRACKET else if n = 91 then CC_LBRACKET
   else if n = 125 then CC_RBRACE else if n = 123 then CC_LBRACE
   else if n = 13 \<or> n = 10 \<or> n = 9 \<or> n = 32 then CC_WS else CC_OTHER)"

lemma char_class_eq: "char_class c = cc_of_code (uc c)"
  unfolding char_class_def init_tables_def table_statics_start_def init_char_class_def
    cc_of_code_def Let_def
  by (simp add: table_simps)

lemma token_table_eq:
  "token_table cc = (case cc of CC_LBRACE \<Rightarrow> JsonToken.ObjectStart | CC_RBRACE \<Rightarrow> JsonToken.ObjectEnd
    | CC_LBRACKET \<Rightarrow> JsonToken.ArrayStart | CC_RBRACKET \<Rightarrow> JsonToken.ArrayEnd
    | CC_COLON \<Rightarrow> JsonToken.Colon | CC_COMMA \<Rightarrow> JsonToken.Comma | _ \<Rightarrow> JsonToken.Invalid)"
  unfolding token_table_def init_tables_def table_statics_start_def init_token_table_def Let_def
  by (cases cc) (simp_all add: table_simps)

lemma is_ws_uc: "is_ws c \<longleftrightarrow> uc c = 32 \<or> uc c = 9 \<or> uc c = 10 \<or> uc c = 13"
  by (simp add: is_ws_def char_eq_uc)

lemma is_num_char_uc:
  "is_num_char c \<longleftrightarrow>
    48 \<le> uc c \<and> uc c \<le> 57 \<or> uc c = 46 \<or> uc c = 101 \<or> uc c = 69 \<or> uc c = 43 \<or> uc c = 45"
  using sc_between [of "CHR ''0''" "CHR ''9''" c] by (simp add: is_num_char_def char_eq_uc)

text \<open>The table's classes are the characters the switch names.\<close>

lemma char_class_iff:
  "c = CHR ''{'' \<longleftrightarrow> char_class c = CC_LBRACE" "c = CHR ''}'' \<longleftrightarrow> char_class c = CC_RBRACE"
  "c = CHR ''['' \<longleftrightarrow> char_class c = CC_LBRACKET" "c = CHR '']'' \<longleftrightarrow> char_class c = CC_RBRACKET"
  "c = CHR '':'' \<longleftrightarrow> char_class c = CC_COLON" "c = CHR '','' \<longleftrightarrow> char_class c = CC_COMMA"
  "c = CHR ''t'' \<longleftrightarrow> char_class c = CC_T" "c = CHR ''f'' \<longleftrightarrow> char_class c = CC_F"
  "c = CHR ''n'' \<longleftrightarrow> char_class c = CC_N" "c = CHR ''-'' \<longleftrightarrow> char_class c = CC_MINUS"
  "c = ch_quote \<longleftrightarrow> char_class c = CC_QUOTE" "c = ch_backslash \<longleftrightarrow> char_class c = CC_BACKSLASH"
  by (simp_all add: char_class_eq cc_of_code_def char_eq_uc)

lemma char_class_ws: "is_ws c \<longleftrightarrow> char_class c = CC_WS"
  by (auto simp: char_class_eq cc_of_code_def is_ws_uc)

lemma char_class_digit: "c \<in> set ''0123456789'' \<longleftrightarrow> char_class c = CC_DIGIT"
  unfolding digit_chars by (auto simp: char_class_eq cc_of_code_def)

lemma char_class_num:
  "is_num_char c \<longleftrightarrow> char_class c = CC_DIGIT \<or> char_class c = CC_DOT \<or> char_class c = CC_EXP \<or>
    char_class c = CC_PLUS \<or> char_class c = CC_MINUS"
  by (auto simp: char_class_eq cc_of_code_def is_num_char_uc)

lemma table_string_loop_eq: "table_string_loop t = string_loop t"
proof (induction t rule: tokenizer_induct)
  case (step t)
  show ?case
    using step [of 1] step [of "Suc (Suc 0)"]
    by (subst table_string_loop.simps, subst string_loop.simps)
      (simp add: Let_def char_class_iff)
qed

lemma table_number_loop_eq: "table_number_loop t = number_loop t"
proof (induction t rule: tokenizer_induct)
  case (step t)
  show ?case
    using step [of 1]
    by (subst table_number_loop.simps, subst number_loop.simps) (simp add: Let_def char_class_num)
qed

lemma table_skip_ws_props:
  "rest (table_skip_ws t) = dropWhile is_ws (rest t) \<and> tok_input (table_skip_ws t) = tok_input t \<and>
   (tok_pos t \<le> tsize t \<longrightarrow> tok_pos (table_skip_ws t) \<le> tsize t)"
proof (induction t rule: tokenizer_induct)
  case (step t)
  show ?case
  proof (cases "tok_pos t < tsize t")
    case True
    with step [of 1] rest_cons [OF True] show ?thesis
      by (subst (1 2 3) table_skip_ws.simps) (auto simp: char_class_ws [symmetric])
  next
    case False
    then show ?thesis
      by (subst (1 2 3) table_skip_ws.simps) (simp add: rest_nil)
  qed
qed

text \<open>
  Where no white space is next, the switch and the table tokenizer take the same branch.
\<close>

lemma table_branch_eq:
  assumes "tok_pos t < tsize t" and "\<not> is_ws (at_char t 0)" and "table_skip_ws t = t"
  shows "table_next_token t = switch_next_token t"
  using assms unfolding table_next_token_def switch_next_token.simps [of t] char_class_ws
    char_class_digit char_class_iff
  by (cases "char_class (at_char t 0)")
    (simp_all add: token_table_eq table_string_loop_eq table_number_loop_eq parse_string_def
      parse_number_def)

lemma lex_dropWhile: "lex skip (dropWhile is_ws s) = lex skip s"
  by (simp add: lex_def)

lemma table_skip_ws_stops:
  assumes "tok_pos (table_skip_ws t) < tsize t"
  shows "\<not> is_ws (at_char (table_skip_ws t) 0)" and "table_skip_ws (table_skip_ws t) = table_skip_ws t"
proof -
  let ?u = "table_skip_ws t"
  have u: "rest ?u = dropWhile is_ws (rest t)" "tok_input ?u = tok_input t"
    using table_skip_ws_props [of t] by auto
  have "rest ?u = at_char ?u 0 # rest (advance 1 ?u)"
    using assms u by (intro rest_cons) simp
  with u(1) show "\<not> is_ws (at_char ?u 0)"
    by (metis dropWhile_eq_Cons_conv)
  then show "table_skip_ws ?u = ?u"
    by (subst table_skip_ws.simps) (simp add: char_class_ws)
qed

lemma table_next_token_yields: "yields (table_next_token t) t (lex False (rest t))"
proof -
  let ?u = "table_skip_ws t"
  have u: "rest ?u = dropWhile is_ws (rest t)" "tok_input ?u = tok_input t"
    "tok_pos t \<le> tsize t \<longrightarrow> tok_pos ?u \<le> tsize t"
    using table_skip_ws_props [of t] by auto
  show ?thesis
  proof (cases "tok_pos ?u < tsize t")
    case True
    note stop = table_skip_ws_stops [OF True]
    have "table_next_token t = table_next_token ?u"
      by (simp add: table_next_token_def stop(2))
    also have "\<dots> = switch_next_token ?u"
      using True u(2) stop by (intro table_branch_eq) simp_all
    finally show ?thesis
      using switch_next_token_yields [of ?u] u by (simp add: yields_def lex_dropWhile)
  next
    case False
    then have "rest ?u = []" using u(2) by (intro rest_nil) simp
    with False u show ?thesis
      by (simp add: table_next_token_def yields_def lex_def)
  qed
qed

subsection \<open>The direct threaded and the computed goto tokenizer\<close>

lemma lex_class:
  "\<not> is_ws c \<Longrightarrow> lex skip (c # cs) = (case char_class c of
      CC_LBRACE \<Rightarrow> (JsonToken.ObjectStart, cs) | CC_RBRACE \<Rightarrow> (JsonToken.ObjectEnd, cs)
    | CC_LBRACKET \<Rightarrow> (JsonToken.ArrayStart, cs) | CC_RBRACKET \<Rightarrow> (JsonToken.ArrayEnd, cs)
    | CC_COLON \<Rightarrow> (JsonToken.Colon, cs) | CC_COMMA \<Rightarrow> (JsonToken.Comma, cs)
    | CC_QUOTE \<Rightarrow> lex_string cs
    | CC_T \<Rightarrow> lex_keyword skip ''true'' JsonToken.True_tok (c # cs)
    | CC_F \<Rightarrow> lex_keyword skip ''false'' JsonToken.False_tok (c # cs)
    | CC_N \<Rightarrow> lex_keyword skip ''null'' JsonToken.Null (c # cs)
    | CC_MINUS \<Rightarrow> (JsonToken.Number, dropWhile is_num_char cs)
    | CC_DIGIT \<Rightarrow> (JsonToken.Number, dropWhile is_num_char cs)
    | _ \<Rightarrow> (JsonToken.Invalid, cs))"
  unfolding lex_def char_class_ws char_class_digit char_class_iff
  by (cases "char_class c") (simp_all add: char_class_ws)

lemma lex_ws: "is_ws c \<Longrightarrow> lex skip (c # cs) = lex skip cs"
  by (simp add: lex_def)

lemma lex_string_token: "fst (lex_string s) \<in> {JsonToken.String, JsonToken.Invalid}"
  by (induction s rule: lex_string.induct) (auto split: list.splits)

lemma lex_not_whitespace: "fst (lex skip s) \<noteq> JsonToken.Whitespace"
proof (induction s)
  case (Cons c cs)
  then show ?case
    using lex_string_token [of cs]
    by (cases "is_ws c"; cases "char_class c")
      (auto simp: lex_ws lex_class lex_keyword_def)
qed (simp add: lex_def)

lemma handlers_class:
  "handlers c = (case char_class c of
      CC_WS \<Rightarrow> dt_handle_skip | CC_LBRACE \<Rightarrow> dt_handle_object_start
    | CC_RBRACE \<Rightarrow> dt_handle_object_end | CC_LBRACKET \<Rightarrow> dt_handle_array_start
    | CC_RBRACKET \<Rightarrow> dt_handle_array_end | CC_QUOTE \<Rightarrow> dt_handle_string
    | CC_COLON \<Rightarrow> dt_handle_colon | CC_COMMA \<Rightarrow> dt_handle_comma
    | CC_MINUS \<Rightarrow> dt_handle_number | CC_DIGIT \<Rightarrow> dt_handle_number
    | CC_T \<Rightarrow> dt_handle_true | CC_F \<Rightarrow> dt_handle_false | CC_N \<Rightarrow> dt_handle_null
    | _ \<Rightarrow> dt_handle_invalid)"
  by (simp add: handlers_eq char_class_eq dt_handler_of_code_def cc_of_code_def)

lemma dispatch_table_class:
  "dispatch_table c = (case char_class c of
      CC_WS \<Rightarrow> L_skip | CC_LBRACE \<Rightarrow> L_object_start | CC_RBRACE \<Rightarrow> L_object_end
    | CC_LBRACKET \<Rightarrow> L_array_start | CC_RBRACKET \<Rightarrow> L_array_end | CC_QUOTE \<Rightarrow> L_string
    | CC_COLON \<Rightarrow> tok_label.L_colon | CC_COMMA \<Rightarrow> tok_label.L_comma
    | CC_MINUS \<Rightarrow> L_number | CC_DIGIT \<Rightarrow> L_number
    | CC_T \<Rightarrow> L_true | CC_F \<Rightarrow> L_false | CC_N \<Rightarrow> L_null | _ \<Rightarrow> L_invalid)"
  by (simp add: dispatch_table_eq char_class_eq label_of_code_def cc_of_code_def)

lemma keyword_test:
  assumes "kw = k # ks" and "at_char t 0 = k" and "tok_pos t < tsize t"
  shows "prefix kw (rest t) \<longleftrightarrow>
    tok_pos t + length kw \<le> tsize t \<and> list_all (\<lambda>i. at_char t (Suc i) = ks ! i) [0..<length ks]"
proof (cases "tok_pos t + length kw \<le> tsize t")
  case True
  have "[0..<length kw] = 0 # map Suc [0..<length ks]"
    using assms(1) by (metis length_Cons map_Suc_upt upt_conv_Cons zero_less_Suc)
  then have "list_all (\<lambda>i. at_char t i = kw ! i) [0..<length kw] \<longleftrightarrow>
      list_all (\<lambda>i. at_char t (Suc i) = ks ! i) [0..<length ks]"
    using assms(1,2) by (simp add: list.pred_map comp_def del: upt_Suc)
  with keyword_prefix [OF True] True show ?thesis by simp
next
  case False
  with keyword_too_long [OF False] assms(1) show ?thesis by auto
qed

lemma dt_keyword_yields:
  assumes "tok_pos t < tsize t"
  shows "at_char t 0 = CHR ''t'' \<Longrightarrow>
      yields (dt_handle_true t) t (lex_keyword True ''true'' JsonToken.True_tok (rest t))"
    and "at_char t 0 = CHR ''f'' \<Longrightarrow>
      yields (dt_handle_false t) t (lex_keyword True ''false'' JsonToken.False_tok (rest t))"
    and "at_char t 0 = CHR ''n'' \<Longrightarrow>
      yields (dt_handle_null t) t (lex_keyword True ''null'' JsonToken.Null (rest t))"
  using assms keyword_test [of "''true''" "CHR ''t''" "''rue''" t]
    keyword_test [of "''false''" "CHR ''f''" "''alse''" t]
    keyword_test [of "''null''" "CHR ''n''" "''ull''" t]
  by (auto simp: dt_handler_defs lex_keyword_def yields_def rest_advance drop_Suc eval_nat_numeral)

lemma handlers_yields:
  assumes "tok_pos t < tsize t" and "\<not> is_ws (at_char t 0)"
  shows "yields (handlers (at_char t 0) t) t (lex True (rest t))"
proof -
  have r: "rest t = at_char t 0 # rest (advance 1 t)" using assms(1) by (rule rest_cons)
  have b: "tok_pos t + 1 \<le> tsize t" using assms(1) by simp
  have l: "lex True (rest t) = lex True (at_char t 0 # rest (advance 1 t))" using r by simp
  note later = yields_later [OF string_loop_yields b] yields_later [OF number_loop_yields b]
  note kw = dt_keyword_yields [OF assms(1), unfolded char_class_iff r]
  show ?thesis
    using b later kw assms(2)
    unfolding l lex_class [OF assms(2)] handlers_class
    by (cases "char_class (at_char t 0)")
      (simp_all add: dt_handle_skip_def dt_handle_object_start_def
        dt_handle_object_end_def dt_handle_array_start_def dt_handle_array_end_def
        dt_handle_colon_def dt_handle_comma_def dt_handle_string_def dt_handle_number_def
        dt_handle_invalid_def yields_advance char_class_ws)
qed

lemma direct_next_token_yields: "yields (direct_next_token t) t (lex True (rest t))"
proof (induction t rule: tokenizer_induct)
  case (step t)
  show ?case
  proof (cases "tok_pos t < tsize t")
    case True
    then have r: "rest t = at_char t 0 # rest (advance 1 t)" by (rule rest_cons)
    have b: "tok_pos t + 1 \<le> tsize t" using True by simp
    show ?thesis
    proof (cases "is_ws (at_char t 0)")
      case ws: True
      then have "handlers (at_char t 0) t = (JsonToken.Whitespace, advance 1 t)"
        by (simp add: handlers_class char_class_ws dt_handle_skip_def)
      moreover have "lex True (rest t) = lex True (rest (advance 1 t))"
        using lex_ws [OF ws] by (simp add: r)
      ultimately show ?thesis
        using True yields_later [OF step [OF True zero_less_one] b] by (subst direct_next_token.simps) simp
    next
      case False
      note y = handlers_yields [OF True False]
      then have "fst (handlers (at_char t 0) t) \<noteq> JsonToken.Whitespace"
        using lex_not_whitespace [of True "rest t"] by (simp add: yields_def)
      then have "direct_next_token t = handlers (at_char t 0) t"
        using True by (subst direct_next_token.simps) (auto split: prod.splits)
      with y show ?thesis by simp
    qed
  next
    case False
    then show ?thesis
      by (subst direct_next_token.simps) (simp add: rest_nil lex_def yields_def)
  qed
qed

text \<open>The code at each label is the body of the corresponding handler.\<close>

lemma goto_dispatch_handlers:
  assumes "tok_pos t < tsize t" and "\<not> is_ws (at_char t 0)"
  shows "goto_dispatch t = handlers (at_char t 0) t"
  using assms unfolding char_class_ws goto_dispatch.simps [of t] dispatch_table_class handlers_class
  by (cases "char_class (at_char t 0)") (simp_all add: dt_handler_defs)

lemma goto_dispatch_yields: "yields (goto_dispatch t) t (lex True (rest t))"
proof (induction t rule: tokenizer_induct)
  case (step t)
  show ?case
  proof (cases "tok_pos t < tsize t")
    case True
    then have r: "rest t = at_char t 0 # rest (advance 1 t)" by (rule rest_cons)
    have b: "tok_pos t + 1 \<le> tsize t" using True by simp
    show ?thesis
    proof (cases "is_ws (at_char t 0)")
      case ws: True
      then have "dispatch_table (at_char t 0) = L_skip"
        by (simp add: dispatch_table_class char_class_ws)
      moreover have "lex True (rest t) = lex True (rest (advance 1 t))"
        using lex_ws [OF ws] by (simp add: r)
      ultimately show ?thesis
        using True yields_later [OF step [OF True zero_less_one] b] by (subst goto_dispatch.simps) simp
    next
      case False
      then show ?thesis
        using handlers_yields [OF True False] goto_dispatch_handlers [OF True False] by simp
    qed
  next
    case False
    then show ?thesis
      by (subst goto_dispatch.simps) (simp add: rest_nil lex_def yields_def)
  qed
qed

lemma lex_not_end: "\<not> is_ws c \<Longrightarrow> fst (lex skip (c # cs)) \<noteq> JsonToken.End"
  using lex_string_token [of cs]
  by (cases "char_class c") (auto simp: lex_class lex_keyword_def)

section \<open>Interpretations\<close>

lemma lex_string_length: "length (snd (lex_string s)) \<le> length s"
proof (induction s rule: lex_string.induct)
  case (2 c cs)
  then show ?case by (cases cs) (simp_all add: le_SucI)
qed simp

lemma lex_progress: "fst (lex True s) \<noteq> JsonToken.End \<Longrightarrow> length (snd (lex True s)) < length s"
proof (induction s)
  case (Cons c cs)
  show ?case
  proof (cases "is_ws c")
    case False
    then show ?thesis
      using lex_string_length [of cs] length_dropWhile_le [of is_num_char cs]
      by (cases "char_class c") (auto simp: lex_class lex_keyword_def prefix_def)
  qed (use Cons in \<open>simp add: lex_ws\<close>)
qed (simp add: lex_def)

interpretation switch_tok: tokenizer_spec switch_next_token "lex False"
  by (rule tokenizer_specI) (rule switch_next_token_yields)

interpretation table_tok: tokenizer_spec table_next_token "lex False"
  by (rule tokenizer_specI) (rule table_next_token_yields)

interpretation direct_tok: progressive_tokenizer direct_next_token "lex True"
proof (intro progressive_tokenizer.intro progressive_tokenizer_axioms.intro)
  show "tokenizer_spec direct_next_token (lex True)"
    by (rule tokenizer_specI) (rule direct_next_token_yields)
qed (rule lex_progress)

interpretation goto_tok: progressive_tokenizer goto_next_token "lex True"
proof (intro progressive_tokenizer.intro progressive_tokenizer_axioms.intro)
  show "tokenizer_spec goto_next_token (lex True)"
    by (rule tokenizer_specI) (simp add: goto_next_token_def goto_dispatch_yields)
qed (rule lex_progress)

lemma past_the_end:
  assumes "\<not> tok_pos t < tsize t"
  shows "switch_next_token t = (JsonToken.End, t)" "table_next_token t = (JsonToken.End, t)"
    "direct_next_token t = (JsonToken.End, t)" "goto_next_token t = (JsonToken.End, t)"
  using assms
  by (simp_all add: switch_next_token.simps [of t] table_next_token_def table_skip_ws.simps [of t]
      direct_next_token.simps [of t] goto_next_token_def goto_dispatch.simps [of t])

section \<open>Properties\<close>

text \<open>
  C2. The table-driven tokenizer is the switch tokenizer: from every state (in or past the input)
  one call returns the same token and leaves the same position.
\<close>

theorem table_equals_switch: "table_next_token t = switch_next_token t"
proof (cases "tok_pos t < tsize t")
  case True
  then show ?thesis
    by (intro tokenizers_equal [OF table_tok.tokenizer_spec_axioms switch_tok.tokenizer_spec_axioms])
      simp
qed (simp add: past_the_end)

text \<open>
  C3. The computed goto tokenizer is the direct threaded tokenizer: from every state one call
  returns the same token and leaves the same position.
\<close>

theorem goto_equals_direct: "goto_next_token t = direct_next_token t"
proof (cases "tok_pos t < tsize t")
  case True
  then show ?thesis
    by (intro tokenizers_equal [OF goto_tok.tokenizer_spec_axioms direct_tok.tokenizer_spec_axioms])
      simp
qed (simp add: past_the_end)

text \<open>
  C4. Driven by the direct threaded or the computed goto tokenizer, \<^verbatim>\<open>tokenize_all\<close> ends on every
  input: one call per character and one for the end are enough, and the sum it has added is the
  sum, modulo \<open>2 ^ 64\<close>, of the codes of the tokens the specification lists.
\<close>

theorem tokenize_all_terminates:
  "\<exists>ks t' t''. lex_all (lex True) (Suc (length inp)) inp = Some ks \<and>
    tokenize_all direct_next_token (Suc (length inp)) (mk_tokenizer inp) acc =
      Some (t', acc + of_nat (sum_list (map tok_code (butlast ks)))) \<and>
    tokenize_all goto_next_token (Suc (length inp)) (mk_tokenizer inp) acc =
      Some (t'', acc + of_nat (sum_list (map tok_code (butlast ks))))"
proof -
  let ?t = "mk_tokenizer inp"
  have r: "rest ?t = inp" by (simp add: rest_def mk_tokenizer_def)
  obtain ks where ks: "lex_all (lex True) (Suc (length inp)) inp = Some ks"
    using direct_tok.lex_all_ends by blast
  have "map_option snd (tokenize_all direct_next_token (Suc (length inp)) ?t acc) =
      Some (acc + of_nat (sum_list (map tok_code (butlast ks))))"
    unfolding direct_tok.tokenize_all_lex_all r ks by simp
  moreover have "map_option snd (tokenize_all goto_next_token (Suc (length inp)) ?t acc) =
      Some (acc + of_nat (sum_list (map tok_code (butlast ks))))"
    unfolding goto_tok.tokenize_all_lex_all r ks by simp
  ultimately show ?thesis
    using ks unfolding map_option_eq_Some by (metis prod.collapse)
qed

lemma lex_stuck:
  assumes "\<not> is_ws c" "c = CHR ''t'' \<and> kw = ''true'' \<or> c = CHR ''f'' \<and> kw = ''false'' \<or> c = CHR ''n'' \<and> kw = ''null''"
    and "\<not> prefix kw (c # cs)"
  shows "lex False (c # cs) = (JsonToken.Invalid, c # cs)"
  using assms(2)
proof (elim disjE conjE)
qed (use assms(1,3) in \<open>simp_all add: lex_def lex_keyword_def\<close>)

lemma lex_all_stuck:
  assumes "lex False s = (JsonToken.Invalid, s')" and "lex False s' = (JsonToken.Invalid, s')"
  shows "lex_all (lex False) n s = None"
proof -
  have "lex_all (lex False) n s' = None" for n
    by (induction n) (simp_all add: assms(2))
  then show ?thesis by (cases n) (simp_all add: assms(1))
qed

text \<open>
  C5. The switch and the table tokenizer do not advance over a word that begins like a keyword
  but is not one: when the first non-blank character of the input is the first letter of a
  keyword that does not follow, \<^verbatim>\<open>tokenize_all\<close> never ends, whatever the fuel.
\<close>

theorem switch_tokenizer_stuck:
  assumes "dropWhile is_ws inp = c # cs"
    and "c = CHR ''t'' \<and> kw = ''true'' \<or> c = CHR ''f'' \<and> kw = ''false'' \<or> c = CHR ''n'' \<and> kw = ''null''"
    and "\<not> prefix kw (c # cs)"
  shows "tokenize_all switch_next_token n (mk_tokenizer inp) acc = None \<and>
    tokenize_all table_next_token n (mk_tokenizer inp) acc = None"
proof -
  have "\<not> is_ws c" using assms(1) by (metis dropWhile_eq_Cons_conv)
  then have "lex False (c # cs) = (JsonToken.Invalid, c # cs)"
    by (rule lex_stuck [OF _ assms(2,3)])
  moreover from this have "lex False inp = (JsonToken.Invalid, c # cs)"
    using lex_dropWhile [of False inp] assms(1) by simp
  ultimately have "lex_all (lex False) n inp = None"
    by (intro lex_all_stuck)
  then have "lex_all (lex False) n (rest (mk_tokenizer inp)) = None"
    by (simp add: rest_def mk_tokenizer_def)
  then show ?thesis
    using switch_tok.tokenize_all_lex_all [of n "mk_tokenizer inp" acc]
      table_tok.tokenize_all_lex_all [of n "mk_tokenizer inp" acc] by simp
qed

theorem switch_tokenizer_stuck_witness:
  "tokenize_all switch_next_token 100 (mk_tokenizer ''  tru'') 0 = None \<and>
   tokenize_all table_next_token 100 (mk_tokenizer ''  tru'') 0 = None"
  by (rule switch_tokenizer_stuck [where c = "CHR ''t''" and cs = "''ru''" and kw = "''true''"])
    (simp_all add: is_ws_def)

lemma lex_agree: "fst (lex True s) \<noteq> JsonToken.Invalid \<Longrightarrow> lex False s = lex True s"
proof (induction s)
  case (Cons c cs)
  show ?case
  proof (cases "is_ws c")
    case False
    then show ?thesis
      using Cons.prems by (cases "char_class c") (simp_all add: lex_class lex_keyword_def split: if_splits)
  qed (use Cons in \<open>simp add: lex_ws\<close>)
qed (simp add: lex_def)

lemma lex_all_agree:
  "lex_all (lex True) n s = Some ks \<Longrightarrow> JsonToken.Invalid \<notin> set ks \<Longrightarrow> lex_all (lex False) n s = Some ks"
proof (induction n arbitrary: s ks)
  case (Suc n)
  obtain k s' where ks: "lex True s = (k, s')" by fastforce
  have "k \<noteq> JsonToken.Invalid"
    using Suc.prems by (auto simp: ks split: if_splits)
  then have "lex False s = (k, s')" using lex_agree [of s] ks by simp
  then show ?case
    using Suc.prems Suc.IH [of s'] by (auto simp: ks split: if_splits)
qed simp

text \<open>
  C6. On input without lexical errors the four tokenizers agree: whenever the direct threaded
  tokenizer's token sequence has no \<open>Invalid\<close>, the switch, table and computed goto tokenizers
  produce the same sequence with the same number of calls.
\<close>

theorem tokenizers_agree_on_valid_input:
  assumes "collect_tokens direct_next_token n t = Some ks" and "JsonToken.Invalid \<notin> set ks"
  shows "collect_tokens switch_next_token n t = Some ks \<and> collect_tokens table_next_token n t = Some ks \<and>
    collect_tokens goto_next_token n t = Some ks"
  using assms lex_all_agree [of n "rest t" ks]
  by (simp add: direct_tok.collect_tokens_lex_all switch_tok.collect_tokens_lex_all
      table_tok.collect_tokens_lex_all goto_tok.collect_tokens_lex_all)

theorem tokenizers_agree_on_valid_input_witness:
  "collect_tokens switch_next_token 4 (mk_tokenizer ''[ true]'') =
     Some [JsonToken.ArrayStart, JsonToken.True_tok, JsonToken.ArrayEnd, JsonToken.End] \<and>
   collect_tokens table_next_token 4 (mk_tokenizer ''[ true]'') =
     Some [JsonToken.ArrayStart, JsonToken.True_tok, JsonToken.ArrayEnd, JsonToken.End] \<and>
   collect_tokens goto_next_token 4 (mk_tokenizer ''[ true]'') =
     Some [JsonToken.ArrayStart, JsonToken.True_tok, JsonToken.ArrayEnd, JsonToken.End]"
proof -
  have "collect_tokens direct_next_token 4 (mk_tokenizer ''[ true]'') =
     Some [JsonToken.ArrayStart, JsonToken.True_tok, JsonToken.ArrayEnd, JsonToken.End]"
    by (simp add: direct_tok.collect_tokens_lex_all rest_def mk_tokenizer_def eval_nat_numeral
        lex_def lex_keyword_def is_ws_def del: collect_tokens.simps)
  then show ?thesis
    by (rule tokenizers_agree_on_valid_input) simp
qed

section \<open>Printing and reading back\<close>

text \<open>
  Texts of lexemes: the six punctuation marks, a string as plain and escaped characters, a number
  as its first character and the rest, the three keywords.
\<close>

datatype string_item = Plain char | Escape char

datatype lexeme = Punct char | Str "string_item list" | Num char string | LTrue | LFalse | LNull

fun item_text :: "string_item \<Rightarrow> string" where
  "item_text (Plain c) = [c]"
| "item_text (Escape c) = [ch_backslash, c]"

fun item_ok :: "string_item \<Rightarrow> bool" where
  "item_ok (Plain c) \<longleftrightarrow> c \<noteq> ch_quote \<and> c \<noteq> ch_backslash"
| "item_ok (Escape c) \<longleftrightarrow> True"

fun lexeme_text :: "lexeme \<Rightarrow> string" where
  "lexeme_text (Punct c) = [c]"
| "lexeme_text (Str items) = ch_quote # concat (map item_text items) @ [ch_quote]"
| "lexeme_text (Num c s) = c # s"
| "lexeme_text LTrue = ''true''"
| "lexeme_text LFalse = ''false''"
| "lexeme_text LNull = ''null''"

fun lexeme_ok :: "lexeme \<Rightarrow> bool" where
  "lexeme_ok (Punct c) \<longleftrightarrow> c \<in> set ''{}[]:,''"
| "lexeme_ok (Str items) \<longleftrightarrow> list_all item_ok items"
| "lexeme_ok (Num c s) \<longleftrightarrow> (c = CHR ''-'' \<or> c \<in> set ''0123456789'') \<and> list_all is_num_char s"
| "lexeme_ok _ \<longleftrightarrow> True"

fun lexeme_token :: "lexeme \<Rightarrow> JsonToken" where
  "lexeme_token (Punct c) =
    (if c = CHR ''{'' then JsonToken.ObjectStart else if c = CHR ''}'' then JsonToken.ObjectEnd
     else if c = CHR ''['' then JsonToken.ArrayStart else if c = CHR '']'' then JsonToken.ArrayEnd
     else if c = CHR '':'' then JsonToken.Colon else JsonToken.Comma)"
| "lexeme_token (Str _) = JsonToken.String"
| "lexeme_token (Num _ _) = JsonToken.Number"
| "lexeme_token LTrue = JsonToken.True_tok"
| "lexeme_token LFalse = JsonToken.False_tok"
| "lexeme_token LNull = JsonToken.Null"

text \<open>Each lexeme is followed by any amount of white space, possibly none.\<close>

fun render :: "(lexeme \<times> string) list \<Rightarrow> string" where
  "render [] = []"
| "render ((l, ws) # ls) = lexeme_text l @ ws @ render ls"

text \<open>A number must not run into a character that continues it.\<close>

fun separated :: "(lexeme \<times> string) list \<Rightarrow> bool" where
  "separated [] \<longleftrightarrow> True"
| "separated ((l, ws) # ls) \<longleftrightarrow> lexeme_ok l \<and> list_all is_ws ws \<and> separated ls \<and>
    (case l of
       Num _ _ \<Rightarrow> (case ws @ render ls of [] \<Rightarrow> True | c # _ \<Rightarrow> \<not> is_num_char c)
     | _ \<Rightarrow> True)"

lemma lex_ws_append: "list_all is_ws ws \<Longrightarrow> lex skip (ws @ s) = lex skip s"
  by (induction ws) (simp_all add: lex_ws)

lemma lex_string_items:
  "list_all item_ok items \<Longrightarrow>
    lex_string (concat (map item_text items) @ ch_quote # s) = (JsonToken.String, s)"
proof (induction items)
  case (Cons i items)
  then show ?case by (cases i) simp_all
qed simp

lemma lex_number:
  assumes "c = CHR ''-'' \<or> c \<in> set ''0123456789''" and "list_all is_num_char s"
    and "case r of [] \<Rightarrow> True | d # _ \<Rightarrow> \<not> is_num_char d"
  shows "lex skip (c # s @ r) = (JsonToken.Number, r)"
proof -
  have d: "dropWhile is_num_char (s @ r) = r"
    using assms(2,3) by (cases r) (simp_all add: dropWhile_append2 list_all_iff)
  from assms(1) have "char_class c = CC_MINUS \<or> char_class c = CC_DIGIT"
    unfolding char_class_digit char_class_iff .
  moreover from this have "\<not> is_ws c" by (auto simp: char_class_ws)
  ultimately show ?thesis using d by (auto simp: lex_class)
qed

lemma lex_lexeme:
  assumes "lexeme_ok l" and "case l of Num _ _ \<Rightarrow> (case r of [] \<Rightarrow> True | c # _ \<Rightarrow> \<not> is_num_char c) | _ \<Rightarrow> True"
  shows "lex skip (lexeme_text l @ r) = (lexeme_token l, r)"
proof (cases l)
  case (Punct c)
  with assms(1) have "c \<in> set ''{}[]:,''" by simp
  then show ?thesis
    unfolding Punct list.set insert_iff empty_iff
    by (elim disjE) (simp_all add: lex_def is_ws_def)
next
  case (Str items)
  with assms(1) lex_string_items [of items r] show ?thesis
    by (simp add: lex_def is_ws_def)
next
  case (Num c s)
  with assms lex_number [of c s r skip] show ?thesis by simp
qed (simp_all add: lex_def lex_keyword_def is_ws_def)

lemma lex_all_render:
  "separated ls \<Longrightarrow> list_all is_ws ws \<Longrightarrow>
    lex_all (lex skip) (Suc (length ls)) (ws @ render ls) = Some (map (lexeme_token \<circ> fst) ls @ [JsonToken.End])"
proof (induction ls arbitrary: ws)
  case Nil
  then show ?case using lex_ws_append [of ws skip "[]"] by (simp add: lex_def)
next
  case (Cons lw ls)
  obtain l ws' where lw: "lw = (l, ws')" by fastforce
  have "lex skip (ws @ render (lw # ls)) = lex skip (lexeme_text l @ ws' @ render ls)"
    using Cons.prems(2) by (simp add: lex_ws_append lw)
  also have "\<dots> = (lexeme_token l, ws' @ render ls)"
    using Cons.prems(1) by (intro lex_lexeme) (simp_all add: lw)
  finally have step: "lex skip (ws @ render (lw # ls)) = (lexeme_token l, ws' @ render ls)" .
  have "lexeme_token l \<noteq> JsonToken.End" by (cases l) simp_all
  moreover have "lex_all (lex skip) (Suc (length ls)) (ws' @ render ls) =
      Some (map (lexeme_token \<circ> fst) ls @ [JsonToken.End])"
    using Cons.prems by (intro Cons.IH) (simp_all add: lw)
  ultimately show ?case
    using step by (simp add: lw del: render.simps lex_all.simps(2)) (subst lex_all.simps(2), simp)
qed

text \<open>
  C7. Round trip: a sequence of well-formed lexemes printed with any white space between them (a
  number not directly followed by a character that would continue it) is read back by each of the
  four tokenizers as exactly the sequence of their tokens, then \<open>End\<close>.
\<close>

theorem render_tokenize_roundtrip:
  assumes "separated ls" and "list_all is_ws ws"
    and "next_token \<in> {switch_next_token, table_next_token, direct_next_token, goto_next_token}"
  shows "collect_tokens next_token (Suc (length ls)) (mk_tokenizer (ws @ render ls)) =
    Some (map (lexeme_token \<circ> fst) ls @ [JsonToken.End])"
proof -
  have "rest (mk_tokenizer (ws @ render ls)) = ws @ render ls"
    by (simp add: rest_def mk_tokenizer_def)
  with assms(3) lex_all_render [OF assms(1,2)] show ?thesis
    unfolding insert_iff empty_iff
    by (elim disjE) (simp_all only: switch_tok.collect_tokens_lex_all table_tok.collect_tokens_lex_all
        direct_tok.collect_tokens_lex_all goto_tok.collect_tokens_lex_all)
qed

theorem render_tokenize_roundtrip_witness:
  "collect_tokens direct_next_token 8
      (mk_tokenizer ('' {'' @ [ch_quote] @ ''name'' @ [ch_quote] @ '': -12.5, null}'')) =
    Some [JsonToken.ObjectStart, JsonToken.String, JsonToken.Colon, JsonToken.Number,
      JsonToken.Comma, JsonToken.Null, JsonToken.ObjectEnd, JsonToken.End]"
  using render_tokenize_roundtrip
    [of "[(Punct CHR ''{'', []), (Str (map Plain ''name''), []), (Punct CHR '':'', '' ''),
       (Num CHR ''-'' ''12.5'', []), (Punct CHR '','', '' ''), (LNull, []), (Punct CHR ''}'', [])]"
      "'' ''" direct_next_token]
  by (simp add: is_ws_def is_num_char_uc eval_nat_numeral del: collect_tokens.simps)

end
