(* ===== verification/Musttail_Classify.thy ===== *)
theory Musttail_Classify
  imports Char_Classify
begin

text \<open>
  Part 1 of \<^verbatim>\<open>src/perf/threaded_code/json_musttail.cpp\<close>: the character classes with the numbering
  of that file, the lookup table and the function-pointer table, and the batch classifier whose
  handlers tail-call each other. A handler that ends in \<^verbatim>\<open>MUSTTAIL return next(s)\<close> returns its
  state together with which function it jumps to; \<open>classify_dispatch\<close> performs the jumps.
\<close>

datatype mt_CharClass =
    Whitespace | Digit | Alpha | Quote | Colon | Comma
  | OpenBrace | CloseBrace | OpenBracket | CloseBracket | Minus
  | Plus | Dot | Backslash | Exponent | Other | Count

fun mt_class_code :: "mt_CharClass \<Rightarrow> nat" where
  "mt_class_code mt_CharClass.Whitespace = 0"
| "mt_class_code mt_CharClass.Digit = 1"
| "mt_class_code mt_CharClass.Alpha = 2"
| "mt_class_code mt_CharClass.Quote = 3"
| "mt_class_code mt_CharClass.Colon = 4"
| "mt_class_code mt_CharClass.Comma = 5"
| "mt_class_code mt_CharClass.OpenBrace = 6"
| "mt_class_code mt_CharClass.CloseBrace = 7"
| "mt_class_code mt_CharClass.OpenBracket = 8"
| "mt_class_code mt_CharClass.CloseBracket = 9"
| "mt_class_code mt_CharClass.Minus = 10"
| "mt_class_code mt_CharClass.Plus = 11"
| "mt_class_code mt_CharClass.Dot = 12"
| "mt_class_code mt_CharClass.Backslash = 13"
| "mt_class_code mt_CharClass.Exponent = 14"
| "mt_class_code mt_CharClass.Other = 15"
| "mt_class_code mt_CharClass.Count = 16"

definition mt_make_char_table :: "mt_CharClass list" where
  "mt_make_char_table =
  (let table = fill_range 0 255 mt_CharClass.Other (replicate 256 mt_CharClass.Whitespace);
       table = table[uc ch_cr := mt_CharClass.Whitespace];
       table = table[uc ch_lf := mt_CharClass.Whitespace];
       table = table[uc ch_tab := mt_CharClass.Whitespace];
       table = table[uc ch_space := mt_CharClass.Whitespace];
       table = fill_range (uc CHR ''0'') (uc CHR ''9'') mt_CharClass.Digit table;
       table = fill_range (uc CHR ''a'') (uc CHR ''z'') mt_CharClass.Alpha table;
       table = fill_range (uc CHR ''A'') (uc CHR ''Z'') mt_CharClass.Alpha table;
       table = table[uc CHR ''E'' := mt_CharClass.Exponent];
       table = table[uc CHR ''e'' := mt_CharClass.Exponent];
       table = table[uc ch_quote := mt_CharClass.Quote];
       table = table[uc CHR '':'' := mt_CharClass.Colon];
       table = table[uc CHR '','' := mt_CharClass.Comma];
       table = table[uc CHR ''{'' := mt_CharClass.OpenBrace];
       table = table[uc CHR ''}'' := mt_CharClass.CloseBrace];
       table = table[uc CHR ''['' := mt_CharClass.OpenBracket];
       table = table[uc CHR '']'' := mt_CharClass.CloseBracket];
       table = table[uc CHR ''-'' := mt_CharClass.Minus];
       table = table[uc CHR ''+'' := mt_CharClass.Plus];
       table = table[uc CHR ''.'' := mt_CharClass.Dot];
       table = table[uc ch_backslash := mt_CharClass.Backslash]
   in table)"

definition mt_kCharTable :: "mt_CharClass list" where
  "mt_kCharTable = mt_make_char_table"

definition mt_classify_table :: "char \<Rightarrow> mt_CharClass" where
  "mt_classify_table c = mt_kCharTable ! uc c"

definition h_whitespace :: "char \<Rightarrow> mt_CharClass" where
  "h_whitespace c = mt_CharClass.Whitespace"

definition h_digit :: "char \<Rightarrow> mt_CharClass" where
  "h_digit c = mt_CharClass.Digit"

definition h_alpha :: "char \<Rightarrow> mt_CharClass" where
  "h_alpha c = mt_CharClass.Alpha"

definition h_exponent :: "char \<Rightarrow> mt_CharClass" where
  "h_exponent c = mt_CharClass.Exponent"

definition h_quote :: "char \<Rightarrow> mt_CharClass" where
  "h_quote c = mt_CharClass.Quote"

definition h_colon :: "char \<Rightarrow> mt_CharClass" where
  "h_colon c = mt_CharClass.Colon"

definition h_comma :: "char \<Rightarrow> mt_CharClass" where
  "h_comma c = mt_CharClass.Comma"

definition h_open_brace :: "char \<Rightarrow> mt_CharClass" where
  "h_open_brace c = mt_CharClass.OpenBrace"

definition h_close_brace :: "char \<Rightarrow> mt_CharClass" where
  "h_close_brace c = mt_CharClass.CloseBrace"

definition h_open_bracket :: "char \<Rightarrow> mt_CharClass" where
  "h_open_bracket c = mt_CharClass.OpenBracket"

definition h_close_bracket :: "char \<Rightarrow> mt_CharClass" where
  "h_close_bracket c = mt_CharClass.CloseBracket"

definition h_minus :: "char \<Rightarrow> mt_CharClass" where
  "h_minus c = mt_CharClass.Minus"

definition h_plus :: "char \<Rightarrow> mt_CharClass" where
  "h_plus c = mt_CharClass.Plus"

definition h_dot :: "char \<Rightarrow> mt_CharClass" where
  "h_dot c = mt_CharClass.Dot"

definition h_backslash :: "char \<Rightarrow> mt_CharClass" where
  "h_backslash c = mt_CharClass.Backslash"

definition h_other :: "char \<Rightarrow> mt_CharClass" where
  "h_other c = mt_CharClass.Other"

definition mt_make_func_table :: "(char \<Rightarrow> mt_CharClass) list" where
  "mt_make_func_table =
  (let table = fill_range 0 255 h_other (replicate 256 h_other);
       table = table[uc ch_cr := h_whitespace];
       table = table[uc ch_lf := h_whitespace];
       table = table[uc ch_tab := h_whitespace];
       table = table[uc ch_space := h_whitespace];
       table = fill_range (uc CHR ''0'') (uc CHR ''9'') h_digit table;
       table = fill_range (uc CHR ''a'') (uc CHR ''z'') h_alpha table;
       table = fill_range (uc CHR ''A'') (uc CHR ''Z'') h_alpha table;
       table = table[uc CHR ''E'' := h_exponent];
       table = table[uc CHR ''e'' := h_exponent];
       table = table[uc ch_quote := h_quote];
       table = table[uc CHR '':'' := h_colon];
       table = table[uc CHR '','' := h_comma];
       table = table[uc CHR ''{'' := h_open_brace];
       table = table[uc CHR ''}'' := h_close_brace];
       table = table[uc CHR ''['' := h_open_bracket];
       table = table[uc CHR '']'' := h_close_bracket];
       table = table[uc CHR ''-'' := h_minus];
       table = table[uc CHR ''+'' := h_plus];
       table = table[uc CHR ''.'' := h_dot];
       table = table[uc ch_backslash := h_backslash]
   in table)"

definition mt_kFuncTable :: "(char \<Rightarrow> mt_CharClass) list" where
  "mt_kFuncTable = mt_make_func_table"

definition classify_direct :: "char \<Rightarrow> mt_CharClass" where
  "classify_direct c = (mt_kFuncTable ! uc c) c"

section \<open>The batch classifier\<close>

text \<open>
  The pointers \<^verbatim>\<open>cur\<close> and \<^verbatim>\<open>end\<close> are indices into the buffer \<open>cs_data\<close> they point into.
\<close>

record ClassifyState =
  cs_data :: string
  cs_cur :: nat
  cs_end :: nat
  cs_sum :: u64

datatype classify_next = Jump_classify_dispatch | Jump_classify_done

type_synonym ClassifyHandler = "ClassifyState \<Rightarrow> ClassifyState \<times> classify_next"

definition classify_done :: "ClassifyState \<Rightarrow> ClassifyState" where
  "classify_done s = s"

text \<open>The last two statements of every handler: advance and choose the next function.\<close>

definition classify_next_of :: "ClassifyState \<Rightarrow> ClassifyState \<times> classify_next" where
  "classify_next_of s =
    (let s = s\<lparr>cs_cur := cs_cur s + 1\<rparr>
     in (s, if cs_cur s < cs_end s then Jump_classify_dispatch else Jump_classify_done))"

definition classify_m_whitespace :: ClassifyHandler where
  "classify_m_whitespace s =
    classify_next_of (s\<lparr>cs_sum := cs_sum s + of_nat (mt_class_code mt_CharClass.Whitespace)\<rparr>)"

definition classify_m_digit :: ClassifyHandler where
  "classify_m_digit s =
    classify_next_of (s\<lparr>cs_sum := cs_sum s + of_nat (mt_class_code mt_CharClass.Digit)\<rparr>)"

definition classify_m_alpha :: ClassifyHandler where
  "classify_m_alpha s =
    classify_next_of (s\<lparr>cs_sum := cs_sum s + of_nat (mt_class_code mt_CharClass.Alpha)\<rparr>)"

definition classify_m_exponent :: ClassifyHandler where
  "classify_m_exponent s =
    classify_next_of (s\<lparr>cs_sum := cs_sum s + of_nat (mt_class_code mt_CharClass.Exponent)\<rparr>)"

definition classify_m_quote :: ClassifyHandler where
  "classify_m_quote s =
    classify_next_of (s\<lparr>cs_sum := cs_sum s + of_nat (mt_class_code mt_CharClass.Quote)\<rparr>)"

definition classify_m_colon :: ClassifyHandler where
  "classify_m_colon s =
    classify_next_of (s\<lparr>cs_sum := cs_sum s + of_nat (mt_class_code mt_CharClass.Colon)\<rparr>)"

definition classify_m_comma :: ClassifyHandler where
  "classify_m_comma s =
    classify_next_of (s\<lparr>cs_sum := cs_sum s + of_nat (mt_class_code mt_CharClass.Comma)\<rparr>)"

definition classify_m_open_brace :: ClassifyHandler where
  "classify_m_open_brace s =
    classify_next_of (s\<lparr>cs_sum := cs_sum s + of_nat (mt_class_code mt_CharClass.OpenBrace)\<rparr>)"

definition classify_m_close_brace :: ClassifyHandler where
  "classify_m_close_brace s =
    classify_next_of (s\<lparr>cs_sum := cs_sum s + of_nat (mt_class_code mt_CharClass.CloseBrace)\<rparr>)"

definition classify_m_open_bracket :: ClassifyHandler where
  "classify_m_open_bracket s =
    classify_next_of (s\<lparr>cs_sum := cs_sum s + of_nat (mt_class_code mt_CharClass.OpenBracket)\<rparr>)"

definition classify_m_close_bracket :: ClassifyHandler where
  "classify_m_close_bracket s =
    classify_next_of (s\<lparr>cs_sum := cs_sum s + of_nat (mt_class_code mt_CharClass.CloseBracket)\<rparr>)"

definition classify_m_minus :: ClassifyHandler where
  "classify_m_minus s =
    classify_next_of (s\<lparr>cs_sum := cs_sum s + of_nat (mt_class_code mt_CharClass.Minus)\<rparr>)"

definition classify_m_plus :: ClassifyHandler where
  "classify_m_plus s =
    classify_next_of (s\<lparr>cs_sum := cs_sum s + of_nat (mt_class_code mt_CharClass.Plus)\<rparr>)"

definition classify_m_dot :: ClassifyHandler where
  "classify_m_dot s =
    classify_next_of (s\<lparr>cs_sum := cs_sum s + of_nat (mt_class_code mt_CharClass.Dot)\<rparr>)"

definition classify_m_backslash :: ClassifyHandler where
  "classify_m_backslash s =
    classify_next_of (s\<lparr>cs_sum := cs_sum s + of_nat (mt_class_code mt_CharClass.Backslash)\<rparr>)"

definition classify_m_other :: ClassifyHandler where
  "classify_m_other s =
    classify_next_of (s\<lparr>cs_sum := cs_sum s + of_nat (mt_class_code mt_CharClass.Other)\<rparr>)"

lemmas classify_m_defs [tok_defs] =
  classify_m_whitespace_def
  classify_m_digit_def
  classify_m_alpha_def
  classify_m_exponent_def
  classify_m_quote_def
  classify_m_colon_def
  classify_m_comma_def
  classify_m_open_brace_def
  classify_m_close_brace_def
  classify_m_open_bracket_def
  classify_m_close_bracket_def
  classify_m_minus_def
  classify_m_plus_def
  classify_m_dot_def
  classify_m_backslash_def
  classify_m_other_def

record classify_statics =
  classify_init_flag :: bool
  classify_handlers :: "ClassifyHandler option list"

definition classify_statics_start :: classify_statics where
  "classify_statics_start = \<lparr>classify_init_flag = False, classify_handlers = replicate 256 None\<rparr>"

definition init_classify_handlers :: "classify_statics \<Rightarrow> classify_statics" where
  "init_classify_handlers st =
  (if classify_init_flag st then st
   else
    let table = fill_range 0 255 (Some classify_m_other) (classify_handlers st);
        table = table[uc ch_cr := (Some classify_m_whitespace)];
        table = table[uc ch_lf := (Some classify_m_whitespace)];
        table = table[uc ch_tab := (Some classify_m_whitespace)];
        table = table[uc ch_space := (Some classify_m_whitespace)];
        table = fill_range (uc CHR ''0'') (uc CHR ''9'') (Some classify_m_digit) table;
        table = fill_range (uc CHR ''a'') (uc CHR ''z'') (Some classify_m_alpha) table;
        table = fill_range (uc CHR ''A'') (uc CHR ''Z'') (Some classify_m_alpha) table;
        table = table[uc CHR ''E'' := (Some classify_m_exponent)];
        table = table[uc CHR ''e'' := (Some classify_m_exponent)];
        table = table[uc ch_quote := (Some classify_m_quote)];
        table = table[uc CHR '':'' := (Some classify_m_colon)];
        table = table[uc CHR '','' := (Some classify_m_comma)];
        table = table[uc CHR ''{'' := (Some classify_m_open_brace)];
        table = table[uc CHR ''}'' := (Some classify_m_close_brace)];
        table = table[uc CHR ''['' := (Some classify_m_open_bracket)];
        table = table[uc CHR '']'' := (Some classify_m_close_bracket)];
        table = table[uc CHR ''-'' := (Some classify_m_minus)];
        table = table[uc CHR ''+'' := (Some classify_m_plus)];
        table = table[uc CHR ''.'' := (Some classify_m_dot)];
        table = table[uc ch_backslash := (Some classify_m_backslash)]
    in \<lparr>classify_init_flag = True, classify_handlers = table\<rparr>)"

section \<open>What the tables hold\<close>

definition mt_class_of_code :: "nat \<Rightarrow> mt_CharClass" where
  "mt_class_of_code n =
  (if n = 92 then Backslash else if n = 46 then Dot else if n = 43 then Plus
   else if n = 45 then Minus else if n = 93 then CloseBracket
   else if n = 91 then OpenBracket else if n = 125 then CloseBrace
   else if n = 123 then OpenBrace else if n = 44 then Comma else if n = 58 then Colon
   else if n = 34 then Quote else if n = 101 then Exponent else if n = 69 then Exponent
   else if 65 \<le> n \<and> n \<le> 90 then Alpha else if 97 \<le> n \<and> n \<le> 122 then Alpha
   else if 48 \<le> n \<and> n \<le> 57 then Digit
   else if n = 32 \<or> n = 9 \<or> n = 10 \<or> n = 13 then mt_CharClass.Whitespace else Other)"

fun classify_m_of :: "mt_CharClass \<Rightarrow> ClassifyHandler" where
  "classify_m_of k s = classify_next_of (s\<lparr>cs_sum := cs_sum s + of_nat (mt_class_code k)\<rparr>)"

lemma mt_kCharTable_nth: "n < 256 \<Longrightarrow> mt_kCharTable ! n = mt_class_of_code n"
  unfolding mt_kCharTable_def mt_make_char_table_def Let_def mt_class_of_code_def
  by (simp add: table_simps)

lemmas h_defs = h_whitespace_def
  h_digit_def
  h_alpha_def
  h_exponent_def
  h_quote_def
  h_colon_def
  h_comma_def
  h_open_brace_def
  h_close_brace_def
  h_open_bracket_def
  h_close_bracket_def
  h_minus_def
  h_plus_def
  h_dot_def
  h_backslash_def
  h_other_def

lemma mt_kFuncTable_nth: "n < 256 \<Longrightarrow> (mt_kFuncTable ! n) c = mt_class_of_code n"
  unfolding mt_kFuncTable_def mt_make_func_table_def Let_def mt_class_of_code_def
  by (simp add: table_simps h_defs)

lemma classify_handlers_nth:
  assumes "n < 256"
  shows "\<exists>h. classify_handlers (init_classify_handlers classify_statics_start) ! n = Some h \<and>
    h s = classify_m_of (mt_class_of_code n) s"
  using assms
  unfolding init_classify_handlers_def classify_statics_start_def mt_class_of_code_def Let_def
  by (simp add: table_simps classify_m_defs)

text \<open>\<^verbatim>\<open>classify_musttail_batch\<close> runs \<open>init_classify_handlers\<close> first, so this is the array read.\<close>

definition classify_handler :: "char \<Rightarrow> ClassifyHandler" where
  "classify_handler c =
    the (classify_handlers (init_classify_handlers classify_statics_start) ! uc c)"

lemma classify_handler_eq: "classify_handler c s = classify_m_of (mt_classify_table c) s"
  using classify_handlers_nth [OF uc_less [of c], of s]
  by (auto simp: classify_handler_def mt_classify_table_def mt_kCharTable_nth)

text \<open>Reading through \<^verbatim>\<open>cur\<close> is only defined inside the buffer.\<close>

function classify_dispatch :: "ClassifyState \<Rightarrow> ClassifyState" where
  "classify_dispatch s =
    (case classify_handler (cs_data s ! cs_cur s) s of
       (s', Jump_classify_dispatch) \<Rightarrow> classify_dispatch s'
     | (s', Jump_classify_done) \<Rightarrow> classify_done s')"
  by auto
termination
  by (relation "measure (\<lambda>s. cs_end s - cs_cur s)")
    (auto simp: classify_handler_eq classify_next_of_def Let_def split: if_splits)

declare classify_dispatch.simps [simp del]

definition classify_musttail_batch :: "string \<Rightarrow> nat \<Rightarrow> u64" where
  "classify_musttail_batch data len =
    (if len = 0 then 0
     else cs_sum (classify_dispatch \<lparr>cs_data = data, cs_cur = 0, cs_end = len, cs_sum = 0\<rparr>))"

section \<open>Properties\<close>

lemma classify_dispatch_sum:
  assumes "cs_cur s < cs_end s" and "cs_end s \<le> length (cs_data s)"
  shows "cs_sum (classify_dispatch s) = cs_sum s +
    of_nat (sum_list (map (mt_class_code \<circ> mt_classify_table)
      (take (cs_end s - cs_cur s) (drop (cs_cur s) (cs_data s)))))"
  using assms
proof (induction s rule: classify_dispatch.induct)
  case (1 s)
  let ?c = "cs_data s ! cs_cur s"
  let ?s' = "s\<lparr>cs_sum := cs_sum s + of_nat (mt_class_code (mt_classify_table ?c)), cs_cur := cs_cur s + 1\<rparr>"
  have split: "take (cs_end s - cs_cur s) (drop (cs_cur s) (cs_data s)) =
      ?c # take (cs_end s - Suc (cs_cur s)) (drop (Suc (cs_cur s)) (cs_data s))"
    using 1(2,3) by (simp add: drop_nth_Cons Suc_diff_Suc flip: Cons_nth_drop_Suc) (metis Suc_diff_Suc take_Suc_Cons)
  show ?case
  proof (cases "Suc (cs_cur s) < cs_end s")
    case True
    then have h: "classify_handler ?c s = (?s', Jump_classify_dispatch)"
      by (simp add: classify_handler_eq classify_next_of_def)
    have "cs_sum (classify_dispatch ?s') = cs_sum ?s' +
      of_nat (sum_list (map (mt_class_code \<circ> mt_classify_table)
        (take (cs_end ?s' - cs_cur ?s') (drop (cs_cur ?s') (cs_data ?s')))))"
      using 1(3) True by (intro 1(1) [OF h [symmetric]]) simp_all
    then show ?thesis
      unfolding split by (subst classify_dispatch.simps) (simp add: h algebra_simps)
  next
    case False
    then have h: "classify_handler ?c s = (?s', Jump_classify_done)"
      by (simp add: classify_handler_eq classify_next_of_def)
    show ?thesis
      unfolding split using False
      by (subst classify_dispatch.simps) (simp add: h classify_done_def)
  qed
qed

text \<open>
  C8. The tail-calling batch classifier adds up, modulo \<open>2 ^ 64\<close>, the class codes that the
  function-pointer table gives for the first \<^verbatim>\<open>len\<close> characters of the buffer; the function-pointer
  table and the lookup table agree.
\<close>

theorem classify_musttail_batch_sum:
  assumes "len \<le> length data"
  shows "classify_musttail_batch data len =
      of_nat (sum_list (map (mt_class_code \<circ> classify_direct) (take len data))) \<and>
    classify_direct c = mt_classify_table c"
proof -
  have agree: "classify_direct = mt_classify_table"
    by (rule ext) (simp add: classify_direct_def mt_classify_table_def mt_kFuncTable_nth mt_kCharTable_nth)
  show ?thesis
  proof (cases "len = 0")
    case False
    with assms classify_dispatch_sum [of "\<lparr>cs_data = data, cs_cur = 0, cs_end = len, cs_sum = 0\<rparr>"] agree
    show ?thesis by (simp add: classify_musttail_batch_def)
  qed (simp add: classify_musttail_batch_def agree)
qed

theorem classify_musttail_batch_sum_witness:
  "classify_musttail_batch ''{1}'' 3 =
      of_nat (sum_list (map (mt_class_code \<circ> classify_direct) (take 3 ''{1}''))) \<and>
    classify_direct (CHR ''1'') = mt_classify_table (CHR ''1'')"
  by (rule classify_musttail_batch_sum) simp

end
