(* ===== verification/Musttail_Tokenizer.thy ===== *)
theory Musttail_Tokenizer
  imports Json_Tokenizer
begin

text \<open>
  Part 2 of \<^verbatim>\<open>src/perf/threaded_code/json_musttail.cpp\<close>: the switch and the direct threaded tokenizer
  of that file, with its own token numbering, and the batch tokenizer whose handlers tail-call each
  other and add up token codes. The lemmas relate them to the tokenizers of
  \<^verbatim>\<open>src/perf/threaded_code/json.cpp\<close> and to the lexer specification.
\<close>

datatype mt_JsonToken =
    Invalid | ObjectStart | ObjectEnd | ArrayStart | ArrayEnd | String | Number
  | True_tok | False_tok | Null | Colon | Comma | End | Continue | Count

fun mt_tok_code :: "mt_JsonToken \<Rightarrow> nat" where
  "mt_tok_code mt_JsonToken.Invalid = 0"
| "mt_tok_code mt_JsonToken.ObjectStart = 1"
| "mt_tok_code mt_JsonToken.ObjectEnd = 2"
| "mt_tok_code mt_JsonToken.ArrayStart = 3"
| "mt_tok_code mt_JsonToken.ArrayEnd = 4"
| "mt_tok_code mt_JsonToken.String = 5"
| "mt_tok_code mt_JsonToken.Number = 6"
| "mt_tok_code mt_JsonToken.True_tok = 7"
| "mt_tok_code mt_JsonToken.False_tok = 8"
| "mt_tok_code mt_JsonToken.Null = 9"
| "mt_tok_code mt_JsonToken.Colon = 10"
| "mt_tok_code mt_JsonToken.Comma = 11"
| "mt_tok_code mt_JsonToken.End = 12"
| "mt_tok_code mt_JsonToken.Continue = 13"
| "mt_tok_code mt_JsonToken.Count = 14"

text \<open>\<^verbatim>\<open>token_name\<close> indexes an array of 14 names; \<open>Count\<close> is out of its bounds.\<close>

definition mt_token_name :: "mt_JsonToken \<Rightarrow> string option" where
  "mt_token_name t =
  (let names = [''Invalid'', ''ObjectStart'', ''ObjectEnd'', ''ArrayStart'', ''ArrayEnd'',
        ''String'', ''Number'', ''True'', ''False'', ''Null'', ''Colon'', ''Comma'',
        ''End'', ''Continue'']
   in if mt_tok_code t < length names then Some (names ! mt_tok_code t) else None)"

section \<open>Switch tokenizer\<close>

type_synonym mt_handler = "tokenizer \<Rightarrow> mt_JsonToken \<times> tokenizer"

function mt_string_loop :: mt_handler where
  "mt_string_loop t =
  (if tok_pos t < tsize t then
     let c = at_char t 0; t = advance 1 t
     in if c = ch_quote then (mt_JsonToken.String, t)
        else if c = ch_backslash \<and> tok_pos t < tsize t then mt_string_loop (advance 1 t)
        else mt_string_loop t
   else (mt_JsonToken.Invalid, t))"
  by auto
termination by (relation "measure (\<lambda>t. tsize t - tok_pos t)") auto

function mt_number_loop :: mt_handler where
  "mt_number_loop t =
  (if tok_pos t < tsize t then
     if is_num_char (at_char t 0) then mt_number_loop (advance 1 t) else (mt_JsonToken.Number, t)
   else (mt_JsonToken.Number, t))"
  by auto
termination by (relation "measure (\<lambda>t. tsize t - tok_pos t)") auto

declare mt_string_loop.simps [simp del] mt_number_loop.simps [simp del]

definition mt_parse_string :: mt_handler where
  "mt_parse_string t = mt_string_loop (advance 1 t)"

definition mt_parse_number :: mt_handler where
  "mt_parse_number t = mt_number_loop (advance 1 t)"

definition mt_parse_keyword :: "string \<Rightarrow> nat \<Rightarrow> mt_JsonToken \<Rightarrow> mt_handler" where
  "mt_parse_keyword kw len token t =
  (if tok_pos t + len > tsize t then (mt_JsonToken.Invalid, t)
   else if \<not> list_all (\<lambda>i. at_char t i = kw ! i) [0..<len] then (mt_JsonToken.Invalid, t)
   else (token, advance len t))"

function mt_switch_next_token :: mt_handler where
  "mt_switch_next_token t =
  (if tok_pos t < tsize t then
     let c = at_char t 0
     in if is_ws c then mt_switch_next_token (advance 1 t)
        else if c = CHR ''{'' then (mt_JsonToken.ObjectStart, advance 1 t)
        else if c = CHR ''}'' then (mt_JsonToken.ObjectEnd, advance 1 t)
        else if c = CHR ''['' then (mt_JsonToken.ArrayStart, advance 1 t)
        else if c = CHR '']'' then (mt_JsonToken.ArrayEnd, advance 1 t)
        else if c = CHR '':'' then (mt_JsonToken.Colon, advance 1 t)
        else if c = CHR '','' then (mt_JsonToken.Comma, advance 1 t)
        else if c = ch_quote then mt_parse_string t
        else if c = CHR ''t'' then mt_parse_keyword ''true'' 4 mt_JsonToken.True_tok t
        else if c = CHR ''f'' then mt_parse_keyword ''false'' 5 mt_JsonToken.False_tok t
        else if c = CHR ''n'' then mt_parse_keyword ''null'' 4 mt_JsonToken.Null t
        else if (sc c \<ge> sc CHR ''0'' \<and> sc c \<le> sc CHR ''9'') \<or> c = CHR ''-'' then mt_parse_number t
        else (mt_JsonToken.Invalid, advance 1 t)
   else (mt_JsonToken.End, t))"
  by auto
termination by (relation "measure (\<lambda>t. tsize t - tok_pos t)") auto

declare mt_switch_next_token.simps [simp del]

section \<open>Direct threaded tokenizer\<close>

definition mt_handle_skip :: mt_handler where
  "mt_handle_skip t = (mt_JsonToken.Continue, advance 1 t)"

definition mt_handle_object_start :: mt_handler where
  "mt_handle_object_start t = (mt_JsonToken.ObjectStart, advance 1 t)"

definition mt_handle_object_end :: mt_handler where
  "mt_handle_object_end t = (mt_JsonToken.ObjectEnd, advance 1 t)"

definition mt_handle_array_start :: mt_handler where
  "mt_handle_array_start t = (mt_JsonToken.ArrayStart, advance 1 t)"

definition mt_handle_array_end :: mt_handler where
  "mt_handle_array_end t = (mt_JsonToken.ArrayEnd, advance 1 t)"

definition mt_handle_colon :: mt_handler where
  "mt_handle_colon t = (mt_JsonToken.Colon, advance 1 t)"

definition mt_handle_comma :: mt_handler where
  "mt_handle_comma t = (mt_JsonToken.Comma, advance 1 t)"

definition mt_handle_string :: mt_handler where
  "mt_handle_string t = mt_string_loop (advance 1 t)"

definition mt_handle_number :: mt_handler where
  "mt_handle_number t = mt_number_loop (advance 1 t)"

definition mt_handle_true :: mt_handler where
  "mt_handle_true t =
  (if tok_pos t + 4 \<le> tsize t \<and> at_char t 1 = CHR ''r'' \<and> at_char t 2 = CHR ''u'' \<and> at_char t 3 = CHR ''e''
   then (mt_JsonToken.True_tok, advance 4 t)
   else (mt_JsonToken.Invalid, advance 1 t))"

definition mt_handle_false :: mt_handler where
  "mt_handle_false t =
  (if tok_pos t + 5 \<le> tsize t \<and> at_char t 1 = CHR ''a'' \<and> at_char t 2 = CHR ''l'' \<and>
      at_char t 3 = CHR ''s'' \<and> at_char t 4 = CHR ''e''
   then (mt_JsonToken.False_tok, advance 5 t)
   else (mt_JsonToken.Invalid, advance 1 t))"

definition mt_handle_null :: mt_handler where
  "mt_handle_null t =
  (if tok_pos t + 4 \<le> tsize t \<and> at_char t 1 = CHR ''u'' \<and> at_char t 2 = CHR ''l'' \<and> at_char t 3 = CHR ''l''
   then (mt_JsonToken.Null, advance 4 t)
   else (mt_JsonToken.Invalid, advance 1 t))"

definition mt_handle_invalid :: mt_handler where
  "mt_handle_invalid t = (mt_JsonToken.Invalid, advance 1 t)"

lemmas mt_handle_defs [tok_defs] =
  mt_handle_skip_def mt_handle_object_start_def mt_handle_object_end_def
  mt_handle_array_start_def mt_handle_array_end_def mt_handle_colon_def mt_handle_comma_def
  mt_handle_string_def mt_handle_number_def mt_handle_true_def mt_handle_false_def
  mt_handle_null_def mt_handle_invalid_def

record mt_handler_statics =
  mt_initialized :: bool
  mt_handlers_array :: "mt_handler option list"

definition mt_handler_statics_start :: mt_handler_statics where
  "mt_handler_statics_start = \<lparr>mt_initialized = False, mt_handlers_array = replicate 256 None\<rparr>"

definition mt_init_handlers :: "mt_handler_statics \<Rightarrow> mt_handler_statics" where
  "mt_init_handlers st =
  (if mt_initialized st then st
   else
    let table = fill_range 0 255 (Some mt_handle_invalid) (mt_handlers_array st);
        table = table[uc ch_cr := Some mt_handle_skip];
        table = table[uc ch_lf := Some mt_handle_skip];
        table = table[uc ch_tab := Some mt_handle_skip];
        table = table[uc ch_space := Some mt_handle_skip];
        table = table[uc CHR ''{'' := Some mt_handle_object_start];
        table = table[uc CHR ''}'' := Some mt_handle_object_end];
        table = table[uc CHR ''['' := Some mt_handle_array_start];
        table = table[uc CHR '']'' := Some mt_handle_array_end];
        table = table[uc CHR '':'' := Some mt_handle_colon];
        table = table[uc CHR '','' := Some mt_handle_comma];
        table = table[uc ch_quote := Some mt_handle_string];
        table = table[uc CHR ''t'' := Some mt_handle_true];
        table = table[uc CHR ''f'' := Some mt_handle_false];
        table = table[uc CHR ''n'' := Some mt_handle_null];
        table = table[uc CHR ''-'' := Some mt_handle_number];
        table = fill_range (uc CHR ''0'') (uc CHR ''9'') (Some mt_handle_number) table
    in \<lparr>mt_initialized = True, mt_handlers_array = table\<rparr>)"

definition mt_handlers :: "char \<Rightarrow> mt_handler" where
  "mt_handlers c = the (mt_handlers_array (mt_init_handlers mt_handler_statics_start) ! uc c)"

lemma mt_init_handlers_nth:
  "mt_handlers_array (mt_init_handlers mt_handler_statics_start) ! uc c =
    Some (case char_class c of
      CC_WS \<Rightarrow> mt_handle_skip | CC_LBRACE \<Rightarrow> mt_handle_object_start
    | CC_RBRACE \<Rightarrow> mt_handle_object_end | CC_LBRACKET \<Rightarrow> mt_handle_array_start
    | CC_RBRACKET \<Rightarrow> mt_handle_array_end | CC_QUOTE \<Rightarrow> mt_handle_string
    | CC_COLON \<Rightarrow> mt_handle_colon | CC_COMMA \<Rightarrow> mt_handle_comma
    | CC_MINUS \<Rightarrow> mt_handle_number | CC_DIGIT \<Rightarrow> mt_handle_number
    | CC_T \<Rightarrow> mt_handle_true | CC_F \<Rightarrow> mt_handle_false | CC_N \<Rightarrow> mt_handle_null
    | _ \<Rightarrow> mt_handle_invalid)"
  unfolding mt_init_handlers_def mt_handler_statics_start_def Let_def char_class_eq cc_of_code_def
  by (simp add: table_simps)

lemmas mt_handlers_class = mt_handlers_def [unfolded mt_init_handlers_nth option.sel]

section \<open>The two files' tokenizers correspond\<close>

text \<open>\<open>mt_tok\<close> translates the tokens of \<^verbatim>\<open>json.cpp\<close>; its \<open>Whitespace\<close> is \<open>Continue\<close> here.\<close>

fun mt_tok :: "JsonToken \<Rightarrow> mt_JsonToken" where
  "mt_tok JsonToken.Invalid = mt_JsonToken.Invalid"
| "mt_tok JsonToken.ObjectStart = mt_JsonToken.ObjectStart"
| "mt_tok JsonToken.ObjectEnd = mt_JsonToken.ObjectEnd"
| "mt_tok JsonToken.ArrayStart = mt_JsonToken.ArrayStart"
| "mt_tok JsonToken.ArrayEnd = mt_JsonToken.ArrayEnd"
| "mt_tok JsonToken.String = mt_JsonToken.String"
| "mt_tok JsonToken.Number = mt_JsonToken.Number"
| "mt_tok JsonToken.True_tok = mt_JsonToken.True_tok"
| "mt_tok JsonToken.False_tok = mt_JsonToken.False_tok"
| "mt_tok JsonToken.Null = mt_JsonToken.Null"
| "mt_tok JsonToken.Colon = mt_JsonToken.Colon"
| "mt_tok JsonToken.Comma = mt_JsonToken.Comma"
| "mt_tok JsonToken.Whitespace = mt_JsonToken.Continue"
| "mt_tok JsonToken.End = mt_JsonToken.End"
| "mt_tok JsonToken.Count = mt_JsonToken.Count"

fun mt_res :: "JsonToken \<times> tokenizer \<Rightarrow> mt_JsonToken \<times> tokenizer" where
  "mt_res (k, t) = (mt_tok k, t)"

lemma mt_string_loop_eq: "mt_string_loop t = mt_res (string_loop t)"
proof (induction t rule: tokenizer_induct)
  case (step t)
  show ?case
    using step [of 1] step [of "Suc (Suc 0)"]
    by (subst mt_string_loop.simps, subst string_loop.simps) (simp add: Let_def)
qed

lemma mt_number_loop_eq: "mt_number_loop t = mt_res (number_loop t)"
proof (induction t rule: tokenizer_induct)
  case (step t)
  show ?case
    using step [of 1] by (subst mt_number_loop.simps, subst number_loop.simps) simp
qed

lemma mt_parse_keyword_eq: "mt_parse_keyword kw len (mt_tok k) t = mt_res (parse_keyword kw len k t)"
  by (simp add: mt_parse_keyword_def parse_keyword_def)

lemma digit_range: "sc CHR ''0'' \<le> sc c \<and> sc c \<le> sc CHR ''9'' \<longleftrightarrow> c \<in> set ''0123456789''"
  unfolding digit_chars using sc_between [of "CHR ''0''" "CHR ''9''" c] by simp

lemma mt_switch_next_token_eq: "mt_switch_next_token t = mt_res (switch_next_token t)"
proof (induction t rule: tokenizer_induct)
  case (step t)
  note kw = mt_parse_keyword_eq [of _ _ JsonToken.True_tok] mt_parse_keyword_eq [of _ _ JsonToken.False_tok]
    mt_parse_keyword_eq [of _ _ JsonToken.Null]
  show ?case
    using step [of 1]
    unfolding mt_switch_next_token.simps [of t] switch_next_token.simps [of t] digit_range
      char_class_ws char_class_digit char_class_iff Let_def
    by (cases "char_class (at_char t 0)")
      (simp_all add: mt_parse_string_def parse_string_def mt_parse_number_def parse_number_def
        mt_string_loop_eq mt_number_loop_eq kw [simplified])
qed

lemma mt_handlers_eq: "mt_handlers c t = mt_res (handlers c t)"
  unfolding mt_handlers_class handlers_class
  by (cases "char_class c")
    (simp_all add: mt_handle_defs dt_handler_defs mt_string_loop_eq mt_number_loop_eq)

lemma mt_tok_inject [simp]: "mt_tok a = mt_tok b \<longleftrightarrow> a = b"
  by (cases a; cases b) simp_all

function mt_direct_next_token :: mt_handler where
  "mt_direct_next_token t =
  (if tok_pos t < tsize t then
     let (result, t') = mt_handlers (at_char t 0) t
     in if result \<noteq> mt_JsonToken.Continue then (result, t') else mt_direct_next_token t'
   else (mt_JsonToken.End, t))"
  by auto
termination
proof (relation "measure (\<lambda>t. tsize t - tok_pos t)")
  fix t x r t'
  assume "tok_pos t < tsize t" "x = mt_handlers (at_char t 0) t" "(r, t') = x"
  with handlers_forward [of t "at_char t 0"] handlers_input [of "at_char t 0" t]
  show "(t', t) \<in> measure (\<lambda>t. tsize t - tok_pos t)"
    by (cases "handlers (at_char t 0) t") (auto simp: mt_handlers_eq)
qed simp

declare mt_direct_next_token.simps [simp del]

lemma mt_direct_next_token_eq: "mt_direct_next_token t = mt_res (direct_next_token t)"
proof (induction t rule: direct_next_token.induct)
  case (1 t)
  obtain k t' where kt: "handlers (at_char t 0) t = (k, t')" by fastforce
  have "k = JsonToken.Whitespace \<longleftrightarrow> mt_tok k = mt_JsonToken.Continue"
    by (cases k) simp_all
  with 1 kt show ?case
    by (subst mt_direct_next_token.simps, subst direct_next_token.simps) (simp add: mt_handlers_eq)
qed

text \<open>
  C9. The switch and the direct threaded tokenizer of \<^verbatim>\<open>json_musttail.cpp\<close> return, from every
  state, the token and the position of their counterparts in \<^verbatim>\<open>json.cpp\<close>.
\<close>

theorem musttail_file_tokenizers_correspond:
  "mt_switch_next_token t = mt_res (switch_next_token t) \<and>
   mt_direct_next_token t = mt_res (direct_next_token t)"
  by (simp add: mt_switch_next_token_eq mt_direct_next_token_eq)

section \<open>The batch tokenizer\<close>

text \<open>
  The pointers \<^verbatim>\<open>cur\<close> and \<^verbatim>\<open>end\<close> are indices into the buffer \<open>ts_data\<close>. A handler returns its
  state and where it continues: in \<open>tok_dispatch\<close>, in \<open>tok_done_handler\<close>, or it returns.
\<close>

record TokenizerState =
  ts_data :: string
  ts_cur :: nat
  ts_end :: nat
  token_sum :: u64
  ts_done :: bool

datatype tok_next = Jump_tok_dispatch | Jump_tok_done | Tok_return

type_synonym tok_handler = "TokenizerState \<Rightarrow> TokenizerState \<times> tok_next"

definition tok_done_handler :: "TokenizerState \<Rightarrow> TokenizerState" where
  "tok_done_handler s = s\<lparr>ts_done := True\<rparr>"

definition tok_next_of :: tok_handler where
  "tok_next_of s = (s, if ts_cur s < ts_end s then Jump_tok_dispatch else Jump_tok_done)"

definition tok_add :: "mt_JsonToken \<Rightarrow> TokenizerState \<Rightarrow> TokenizerState" where
  "tok_add k s = s\<lparr>token_sum := token_sum s + of_nat (mt_tok_code k)\<rparr>"

definition cur_add :: "nat \<Rightarrow> TokenizerState \<Rightarrow> TokenizerState" where
  "cur_add n s = s\<lparr>ts_cur := ts_cur s + n\<rparr>"

abbreviation cur_char :: "TokenizerState \<Rightarrow> nat \<Rightarrow> char" where
  "cur_char s k \<equiv> ts_data s ! (ts_cur s + k)"

lemma cur_add_simps [simp]:
  "ts_data (cur_add n s) = ts_data s" "ts_cur (cur_add n s) = ts_cur s + n"
  "ts_end (cur_add n s) = ts_end s" "token_sum (cur_add n s) = token_sum s"
  by (simp_all add: cur_add_def)

lemma tok_add_simps [simp]:
  "ts_data (tok_add k s) = ts_data s" "ts_cur (tok_add k s) = ts_cur s"
  "ts_end (tok_add k s) = ts_end s" "token_sum (tok_add k s) = token_sum s + of_nat (mt_tok_code k)"
  by (simp_all add: tok_add_def)

function tok_skip_loop :: "TokenizerState \<Rightarrow> TokenizerState" where
  "tok_skip_loop s =
    (if ts_cur s < ts_end s \<and> is_ws (cur_char s 0) then tok_skip_loop (cur_add 1 s) else s)"
  by auto
termination by (relation "measure (\<lambda>s. ts_end s - ts_cur s)") auto

definition tok_skip :: tok_handler where
  "tok_skip s = tok_next_of (tok_skip_loop s)"

definition tok_object_start :: tok_handler where
  "tok_object_start s = tok_next_of (cur_add 1 (tok_add mt_JsonToken.ObjectStart s))"

definition tok_object_end :: tok_handler where
  "tok_object_end s = tok_next_of (cur_add 1 (tok_add mt_JsonToken.ObjectEnd s))"

definition tok_array_start :: tok_handler where
  "tok_array_start s = tok_next_of (cur_add 1 (tok_add mt_JsonToken.ArrayStart s))"

definition tok_array_end :: tok_handler where
  "tok_array_end s = tok_next_of (cur_add 1 (tok_add mt_JsonToken.ArrayEnd s))"

definition tok_colon :: tok_handler where
  "tok_colon s = tok_next_of (cur_add 1 (tok_add mt_JsonToken.Colon s))"

definition tok_comma :: tok_handler where
  "tok_comma s = tok_next_of (cur_add 1 (tok_add mt_JsonToken.Comma s))"

function tok_string_loop :: tok_handler where
  "tok_string_loop s =
  (if ts_cur s < ts_end s then
     let c = cur_char s 0; s = cur_add 1 s
     in if c = ch_quote then tok_next_of (tok_add mt_JsonToken.String s)
        else if c = ch_backslash \<and> ts_cur s < ts_end s then tok_string_loop (cur_add 1 s)
        else tok_string_loop s
   else (s\<lparr>ts_done := True\<rparr>, Tok_return))"
  by auto
termination by (relation "measure (\<lambda>s. ts_end s - ts_cur s)") auto

definition tok_string :: tok_handler where
  "tok_string s = tok_string_loop (cur_add 1 s)"

function tok_number_loop :: "TokenizerState \<Rightarrow> TokenizerState" where
  "tok_number_loop s =
    (if ts_cur s < ts_end s \<and> is_num_char (cur_char s 0) then tok_number_loop (cur_add 1 s) else s)"
  by auto
termination by (relation "measure (\<lambda>s. ts_end s - ts_cur s)") auto

declare tok_skip_loop.simps [simp del] tok_string_loop.simps [simp del] tok_number_loop.simps [simp del]

definition tok_number :: tok_handler where
  "tok_number s = tok_next_of (tok_add mt_JsonToken.Number (tok_number_loop (cur_add 1 s)))"

definition tok_true :: tok_handler where
  "tok_true s =
  (if ts_cur s + 4 \<le> ts_end s \<and> cur_char s 1 = CHR ''r'' \<and> cur_char s 2 = CHR ''u'' \<and>
      cur_char s 3 = CHR ''e''
   then tok_next_of (tok_add mt_JsonToken.True_tok (cur_add 4 s))
   else tok_next_of (cur_add 1 (tok_add mt_JsonToken.Invalid s)))"

definition tok_false :: tok_handler where
  "tok_false s =
  (if ts_cur s + 5 \<le> ts_end s \<and> cur_char s 1 = CHR ''a'' \<and> cur_char s 2 = CHR ''l'' \<and>
      cur_char s 3 = CHR ''s'' \<and> cur_char s 4 = CHR ''e''
   then tok_next_of (tok_add mt_JsonToken.False_tok (cur_add 5 s))
   else tok_next_of (cur_add 1 (tok_add mt_JsonToken.Invalid s)))"

definition tok_null :: tok_handler where
  "tok_null s =
  (if ts_cur s + 4 \<le> ts_end s \<and> cur_char s 1 = CHR ''u'' \<and> cur_char s 2 = CHR ''l'' \<and>
      cur_char s 3 = CHR ''l''
   then tok_next_of (tok_add mt_JsonToken.Null (cur_add 4 s))
   else tok_next_of (cur_add 1 (tok_add mt_JsonToken.Invalid s)))"

definition tok_invalid :: tok_handler where
  "tok_invalid s = tok_next_of (cur_add 1 (tok_add mt_JsonToken.Invalid s))"

lemmas tok_handler_defs [tok_defs] =
  tok_object_start_def tok_object_end_def tok_array_start_def tok_array_end_def tok_colon_def
  tok_comma_def tok_string_def tok_number_def tok_true_def tok_false_def tok_null_def
  tok_invalid_def

record tok_statics =
  tok_init_flag :: bool
  tok_handlers_array :: "tok_handler option list"

definition tok_statics_start :: tok_statics where
  "tok_statics_start = \<lparr>tok_init_flag = False, tok_handlers_array = replicate 256 None\<rparr>"

definition init_tok_handlers :: "tok_statics \<Rightarrow> tok_statics" where
  "init_tok_handlers st =
  (if tok_init_flag st then st
   else
    let table = fill_range 0 255 (Some tok_invalid) (tok_handlers_array st);
        table = table[uc ch_cr := Some tok_skip];
        table = table[uc ch_lf := Some tok_skip];
        table = table[uc ch_tab := Some tok_skip];
        table = table[uc ch_space := Some tok_skip];
        table = table[uc CHR ''{'' := Some tok_object_start];
        table = table[uc CHR ''}'' := Some tok_object_end];
        table = table[uc CHR ''['' := Some tok_array_start];
        table = table[uc CHR '']'' := Some tok_array_end];
        table = table[uc CHR '':'' := Some tok_colon];
        table = table[uc CHR '','' := Some tok_comma];
        table = table[uc ch_quote := Some tok_string];
        table = table[uc CHR ''t'' := Some tok_true];
        table = table[uc CHR ''f'' := Some tok_false];
        table = table[uc CHR ''n'' := Some tok_null];
        table = table[uc CHR ''-'' := Some tok_number];
        table = fill_range (uc CHR ''0'') (uc CHR ''9'') (Some tok_number) table
    in \<lparr>tok_init_flag = True, tok_handlers_array = table\<rparr>)"

definition tok_handlers :: "char \<Rightarrow> tok_handler" where
  "tok_handlers c = the (tok_handlers_array (init_tok_handlers tok_statics_start) ! uc c)"

lemma init_tok_handlers_nth:
  "tok_handlers_array (init_tok_handlers tok_statics_start) ! uc c =
    Some (case char_class c of
      CC_WS \<Rightarrow> tok_skip | CC_LBRACE \<Rightarrow> tok_object_start
    | CC_RBRACE \<Rightarrow> tok_object_end | CC_LBRACKET \<Rightarrow> tok_array_start
    | CC_RBRACKET \<Rightarrow> tok_array_end | CC_QUOTE \<Rightarrow> tok_string
    | CC_COLON \<Rightarrow> tok_colon | CC_COMMA \<Rightarrow> tok_comma
    | CC_MINUS \<Rightarrow> tok_number | CC_DIGIT \<Rightarrow> tok_number
    | CC_T \<Rightarrow> tok_true | CC_F \<Rightarrow> tok_false | CC_N \<Rightarrow> tok_null
    | _ \<Rightarrow> tok_invalid)"
  unfolding init_tok_handlers_def tok_statics_start_def Let_def char_class_eq cc_of_code_def
  by (simp add: table_simps)

lemmas tok_handlers_class = tok_handlers_def [unfolded init_tok_handlers_nth option.sel]

subsection \<open>Handlers move forward\<close>

lemma tok_skip_loop_frame:
  "ts_data (tok_skip_loop s) = ts_data s \<and> ts_end (tok_skip_loop s) = ts_end s \<and>
   token_sum (tok_skip_loop s) = token_sum s \<and> ts_cur s \<le> ts_cur (tok_skip_loop s) \<and>
   (ts_cur (tok_skip_loop s) < ts_end s \<longrightarrow> \<not> is_ws (cur_char (tok_skip_loop s) 0))"
proof (induction s rule: tok_skip_loop.induct)
  case (1 s)
  show ?case
  proof (cases "ts_cur s < ts_end s \<and> is_ws (cur_char s 0)")
    case True
    then have "tok_skip_loop s = tok_skip_loop (cur_add 1 s)"
      by (subst tok_skip_loop.simps) simp
    with 1 [OF True] show ?thesis by auto
  next
    case False
    then have "tok_skip_loop s = s" by (subst tok_skip_loop.simps) auto
    with False show ?thesis by simp
  qed
qed

lemma tok_number_loop_frame:
  "ts_data (tok_number_loop s) = ts_data s \<and> ts_end (tok_number_loop s) = ts_end s \<and>
   token_sum (tok_number_loop s) = token_sum s \<and> ts_cur s \<le> ts_cur (tok_number_loop s)"
proof (induction s rule: tok_number_loop.induct)
  case (1 s)
  show ?case
  proof (cases "ts_cur s < ts_end s \<and> is_num_char (cur_char s 0)")
    case True
    then have "tok_number_loop s = tok_number_loop (cur_add 1 s)"
      by (subst tok_number_loop.simps) simp
    with 1 [OF True] show ?thesis by simp
  next
    case False
    then have "tok_number_loop s = s" by (subst tok_number_loop.simps) auto
    then show ?thesis by simp
  qed
qed

lemma fst_tok_next_of [simp]: "fst (tok_next_of s) = s"
  by (simp add: tok_next_of_def)

lemma ts_done_update_simps [simp]:
  "ts_data (s\<lparr>ts_done := b\<rparr>) = ts_data s" "ts_cur (s\<lparr>ts_done := b\<rparr>) = ts_cur s"
  "ts_end (s\<lparr>ts_done := b\<rparr>) = ts_end s" "token_sum (s\<lparr>ts_done := b\<rparr>) = token_sum s"
  by simp_all

lemma TokenizerState_induct [case_names step]:
  assumes "\<And>s. (\<And>n. ts_cur s < ts_end s \<Longrightarrow> 0 < n \<Longrightarrow> P (cur_add n s)) \<Longrightarrow> P s"
  shows "P (s :: TokenizerState)"
proof (induction "ts_end s - ts_cur s" arbitrary: s rule: less_induct)
  case less
  show ?case
    by (rule assms, rule less) simp
qed

lemma cur_add_cur_add [simp]: "cur_add m (cur_add n s) = cur_add (n + m) s"
  by (simp add: cur_add_def)

lemma tok_string_loop_frame:
  "ts_data (fst (tok_string_loop s)) = ts_data s \<and> ts_end (fst (tok_string_loop s)) = ts_end s \<and>
   ts_cur s \<le> ts_cur (fst (tok_string_loop s))"
proof (induction s rule: TokenizerState_induct)
  case (step s)
  show ?case
    using step [of 1] step [of "Suc (Suc 0)"]
    by (subst (1 2 3) tok_string_loop.simps) (auto simp: Let_def)
qed

lemma tok_handlers_frame:
  assumes "\<not> is_ws c"
  shows "ts_cur s < ts_cur (fst (tok_handlers c s)) \<and> ts_end (fst (tok_handlers c s)) = ts_end s \<and>
    ts_data (fst (tok_handlers c s)) = ts_data s"
  using assms tok_string_loop_frame [of "cur_add 1 s"] tok_number_loop_frame [of "cur_add 1 s"]
  unfolding tok_handlers_class char_class_ws
  by (cases "char_class c") (simp_all add: tok_handler_defs)

function tok_dispatch :: "TokenizerState \<Rightarrow> TokenizerState" where
  "tok_dispatch s =
  (let s = tok_skip_loop s
   in if ts_cur s < ts_end s then
        case tok_handlers (cur_char s 0) s of
          (s', Jump_tok_dispatch) \<Rightarrow> tok_dispatch s'
        | (s', Jump_tok_done) \<Rightarrow> tok_done_handler s'
        | (s', Tok_return) \<Rightarrow> s'
      else tok_done_handler s)"
  by auto
termination
proof (relation "measure (\<lambda>s. ts_end s - ts_cur s)")
  fix s u s' nx
  assume u: "u = tok_skip_loop s" "ts_cur u < ts_end u"
    and x: "(s', nx) = tok_handlers (cur_char u 0) u"
  have "\<not> is_ws (cur_char u 0)" "ts_cur s \<le> ts_cur u" "ts_end u = ts_end s"
    using u tok_skip_loop_frame [of s] by auto
  with tok_handlers_frame [of "cur_char u 0" u] x u(2)
  show "(s', s) \<in> measure (\<lambda>s. ts_end s - ts_cur s)"
    by (cases "tok_handlers (cur_char u 0) u") auto
qed simp

declare tok_dispatch.simps [simp del]

definition tokenize_musttail :: "string \<Rightarrow> u64" where
  "tokenize_musttail inp =
  (if inp = [] then 0
   else token_sum (tok_dispatch
     \<lparr>ts_data = inp, ts_cur = 0, ts_end = length inp, token_sum = 0, ts_done = False\<rparr>))"

section \<open>The batch sum is the driver's sum\<close>

text \<open>The sum of the codes of all tokens of a text, by the lexer specification.\<close>

function lex_codes :: "string \<Rightarrow> nat" where
  "lex_codes s =
    (case lex True s of (k, s') \<Rightarrow> if k = JsonToken.End then 0 else tok_code k + lex_codes s')"
  by auto
termination
proof (relation "measure length")
  fix s k s'
  assume "(k, s') = lex True s" "k \<noteq> JsonToken.End"
  with lex_progress [of s] show "(s', s) \<in> measure length" by (metis fst_conv in_measure snd_conv)
qed simp

declare lex_codes.simps [simp del]

lemma lex_codes_nil: "lex_codes [] = 0"
  by (simp add: lex_codes.simps [of "[]"] lex_def)

lemma lex_codes_dropWhile: "lex_codes (dropWhile is_ws s) = lex_codes s"
  by (simp add: lex_codes.simps [of s] lex_codes.simps [of "dropWhile is_ws s"] lex_dropWhile)

lemma lex_all_codes:
  "lex_all (lex True) n s = Some ks \<Longrightarrow> sum_list (map tok_code (butlast ks)) = lex_codes s"
proof (induction n arbitrary: s ks)
  case (Suc n)
  obtain k s' where ks: "lex True s = (k, s')" by fastforce
  show ?case
  proof (cases "k = JsonToken.End")
    case False
    with Suc.prems ks obtain ks' where ks': "lex_all (lex True) n s' = Some ks'" "ks = k # ks'"
      by auto
    moreover from this have "ks' \<noteq> []"
      by (cases n) (auto split: prod.splits if_splits)
    ultimately show ?thesis
      using Suc.IH [of s' ks'] False ks by (simp add: lex_codes.simps [of s])
  qed (use Suc.prems ks in \<open>auto simp: lex_codes.simps [of s]\<close>)
qed simp

definition tabs :: "TokenizerState \<Rightarrow> tokenizer" where
  "tabs s = \<lparr>tok_input = ts_data s, tok_pos = ts_cur s\<rparr>"

lemma tabs_simps [simp]:
  "tok_input (tabs s) = ts_data s" "tok_pos (tabs s) = ts_cur s"
  "tabs (cur_add n s) = advance n (tabs s)" "tabs (tok_add k s) = tabs s"
  "tabs (s\<lparr>ts_done := b\<rparr>) = tabs s"
  by (simp_all add: tabs_def advance_def cur_add_def tok_add_def)

text \<open>
  \<open>follows r s q\<close>: the handler result \<open>r\<close> from \<open>s\<close> is the result \<open>q\<close> of the corresponding
  tokenizer step. It stands at the same place, has added the code of the token, and goes on
  exactly if there is input left.
\<close>

definition follows :: "TokenizerState \<times> tok_next \<Rightarrow> TokenizerState \<Rightarrow> JsonToken \<times> tokenizer \<Rightarrow> bool" where
  "follows r s q \<longleftrightarrow> tabs (fst r) = snd q \<and>
    token_sum (fst r) = token_sum s + of_nat (tok_code (fst q)) \<and>
    ts_end (fst r) = ts_end s \<and> (snd r = Jump_tok_dispatch \<longleftrightarrow> ts_cur (fst r) < ts_end s)"

lemma follows_next:
  "mt_tok_code m = tok_code k \<Longrightarrow> follows (tok_next_of (tok_add m (cur_add n s))) s (k, advance n (tabs s))"
  "mt_tok_code m = tok_code k \<Longrightarrow> follows (tok_next_of (cur_add n (tok_add m s))) s (k, advance n (tabs s))"
  by (simp_all add: follows_def tok_next_of_def)

lemma follows_cur_add: "follows r (cur_add n s) q \<longleftrightarrow> follows r s q"
  by (simp add: follows_def)

lemma string_follows:
  "ts_end s = length (ts_data s) \<Longrightarrow> follows (tok_string_loop s) s (string_loop (tabs s))"
proof (induction s rule: TokenizerState_induct)
  case (step s)
  show ?case
    using step.IH [of 1] step.IH [of "Suc (Suc 0)"] step.prems
      follows_next(1) [of mt_JsonToken.String JsonToken.String 1 s]
    by (subst tok_string_loop.simps, subst string_loop.simps)
      (auto simp: Let_def follows_cur_add follows_def)
qed

lemma number_follows:
  "ts_end s = length (ts_data s) \<Longrightarrow>
    tabs (tok_number_loop s) = snd (number_loop (tabs s)) \<and> fst (number_loop (tabs s)) = JsonToken.Number"
proof (induction s rule: TokenizerState_induct)
  case (step s)
  show ?case
    using step.IH [of 1] step.prems
    by (subst tok_number_loop.simps, subst (1 2) number_loop.simps) auto
qed

lemma tok_handlers_follow:
  assumes "ts_end s = length (ts_data s)" and "\<not> is_ws c"
  shows "follows (tok_handlers c s) s (handlers c (tabs s))"
proof -
  note num = number_follows [of "cur_add 1 s"] tok_number_loop_frame [of "cur_add 1 s"]
  have n: "follows (tok_number s) s (dt_handle_number (tabs s))"
    using num assms(1)
    by (cases "number_loop (advance 1 (tabs s))")
      (auto simp: follows_def tok_number_def dt_handle_number_def tok_next_of_def)
  have s: "follows (tok_string s) s (dt_handle_string (tabs s))"
    using string_follows [of "cur_add 1 s"] assms(1)
    by (simp add: tok_string_def dt_handle_string_def follows_cur_add)
  show ?thesis
    using n s assms unfolding tok_handlers_class handlers_class char_class_ws
    by (cases "char_class c")
      (simp_all add: tok_object_start_def tok_object_end_def tok_array_start_def
        tok_array_end_def tok_colon_def tok_comma_def tok_true_def tok_false_def tok_null_def
        tok_invalid_def dt_handle_object_start_def dt_handle_object_end_def
        dt_handle_array_start_def dt_handle_array_end_def dt_handle_colon_def
        dt_handle_comma_def dt_handle_true_def dt_handle_false_def dt_handle_null_def
        dt_handle_invalid_def follows_next)
qed

lemma tok_skip_loop_rest:
  "ts_end s = length (ts_data s) \<Longrightarrow> rest (tabs (tok_skip_loop s)) = dropWhile is_ws (rest (tabs s))"
proof (induction s rule: TokenizerState_induct)
  case (step s)
  show ?case
  proof (cases "ts_cur s < ts_end s")
    case True
    with step.prems have "rest (tabs s) = at_char (tabs s) 0 # rest (advance 1 (tabs s))"
      by (intro rest_cons) simp
    with True step.IH [of 1] step.prems show ?thesis
      by (subst tok_skip_loop.simps) auto
  next
    case False
    with step.prems have "rest (tabs s) = []" by (intro rest_nil) simp
    with False show ?thesis by (subst tok_skip_loop.simps) auto
  qed
qed

lemma tok_dispatch_sum:
  "ts_end s = length (ts_data s) \<Longrightarrow>
    token_sum (tok_dispatch s) = token_sum s + of_nat (lex_codes (rest (tabs s)))"
proof (induction s rule: tok_dispatch.induct)
  case (1 s)
  define u where "u = tok_skip_loop s"
  have u: "ts_data u = ts_data s" "ts_end u = ts_end s" "token_sum u = token_sum s"
    "ts_cur u < ts_end s \<Longrightarrow> \<not> is_ws (cur_char u 0)"
    using tok_skip_loop_frame [of s] by (auto simp: u_def)
  have ru: "lex_codes (rest (tabs s)) = lex_codes (rest (tabs u))"
    using tok_skip_loop_rest [of s] 1(2) by (simp add: u_def lex_codes_dropWhile)
  show ?case
  proof (cases "ts_cur u < ts_end u")
    case True
    obtain s' nx where h: "tok_handlers (cur_char u 0) u = (s', nx)" by fastforce
    obtain k t' where q: "handlers (cur_char u 0) (tabs u) = (k, t')" by fastforce
    have nws: "\<not> is_ws (cur_char u 0)" using u(2,4) True by simp
    have f: "tabs s' = t'" "token_sum s' = token_sum s + of_nat (tok_code k)" "ts_end s' = ts_end s"
      "nx = Jump_tok_dispatch \<longleftrightarrow> ts_cur s' < ts_end s"
      using tok_handlers_follow [OF _ nws, of u] h q u 1(2) by (auto simp: follows_def)
    have d: "ts_data s' = ts_data s" using tok_handlers_frame [OF nws, of u] h u(1) by simp
    have y: "yields (k, t') (tabs u) (lex True (rest (tabs u)))"
      using handlers_yields [of "tabs u"] True nws u 1(2) q by simp
    then have lx: "lex True (rest (tabs u)) = (k, rest (tabs s'))"
      using f(1) by (simp add: yields_def prod_eq_iff)
    have "k \<noteq> JsonToken.End"
      using lx lex_not_end [of "cur_char u 0" True "rest (advance 1 (tabs u))"] nws
        rest_cons [of "tabs u"] True u 1(2) by simp
    with lx have codes: "lex_codes (rest (tabs u)) = tok_code k + lex_codes (rest (tabs s'))"
      by (simp add: lex_codes.simps [of "rest (tabs u)"])
    show ?thesis
    proof (cases "ts_cur s' < ts_end s")
      case go: True
      have "token_sum (tok_dispatch s') = token_sum s' + of_nat (lex_codes (rest (tabs s')))"
        using 1(1) [OF u_def True h [symmetric]] f d 1(2) go by simp
      moreover have "tok_dispatch s = tok_dispatch s'"
        using True h f(4) go by (subst tok_dispatch.simps) (simp flip: u_def)
      ultimately show ?thesis by (simp add: ru codes f)
    next
      case stop: False
      then have "rest (tabs s') = []" using f(3) d 1(2) by (intro rest_nil) simp
      moreover have "token_sum (tok_dispatch s) = token_sum s'"
        using True h f(4) stop
        by (subst tok_dispatch.simps) (cases nx, auto simp: tok_done_handler_def simp flip: u_def)
      ultimately show ?thesis by (simp add: ru codes f lex_codes_nil)
    qed
  next
    case False
    then have "rest (tabs u) = []" using u 1(2) by (intro rest_nil) simp
    with False show ?thesis
      by (subst tok_dispatch.simps) (simp add: ru lex_codes_nil u tok_done_handler_def flip: u_def)
  qed
qed

lemma tokenize_musttail_codes: "tokenize_musttail inp = of_nat (lex_codes inp)"
  using tok_dispatch_sum [of "\<lparr>ts_data = inp, ts_cur = 0, ts_end = length inp, token_sum = 0, ts_done = False\<rparr>"]
  by (simp add: tokenize_musttail_def tabs_def rest_def lex_codes_nil)

text \<open>
  C10. The batch tokenizer with tail calls returns, for every input, exactly the sum that the
  driver loop adds up with the direct threaded tokenizer, truncated and malformed strings included.
\<close>

theorem tokenize_musttail_equals_driver:
  "\<exists>t'. tokenize_all direct_next_token (Suc (length inp)) (mk_tokenizer inp) 0 =
    Some (t', tokenize_musttail inp)"
proof -
  have r: "rest (mk_tokenizer inp) = inp" by (simp add: rest_def mk_tokenizer_def)
  obtain ks where ks: "lex_all (lex True) (Suc (length inp)) inp = Some ks"
    using direct_tok.lex_all_ends by blast
  have "map_option snd (tokenize_all direct_next_token (Suc (length inp)) (mk_tokenizer inp) 0) =
      Some (of_nat (lex_codes inp))"
    unfolding direct_tok.tokenize_all_lex_all r ks by (simp add: lex_all_codes [OF ks])
  then show ?thesis
    unfolding tokenize_musttail_codes map_option_eq_Some by (metis prod.collapse)
qed

end
