(* ===== verification/Json_VM.thy ===== *)
theory Json_VM
  imports Json_Tokenizer
begin

text \<open>
  Part 3 of \<^verbatim>\<open>src/perf/threaded_code/json.cpp\<close> and of
  \<^verbatim>\<open>src/perf/threaded_code/json_musttail.cpp\<close>: the matching bytecode and its interpreters (switch,
  handler table, computed goto, and handlers that tail-call each other). A program can loop, so an
  interpreter takes fuel, one unit per executed instruction; \<open>None\<close> is that the fuel was not
  enough. An opcode beyond the handler table is an out-of-bounds read, the outcome \<open>Undefined\<close>.

  A \<^verbatim>\<open>JsonToken\<close> result is its 8-bit code, because \<^verbatim>\<open>EmitToken\<close> casts any operand to the
  enumeration. The code of \<^verbatim>\<open>JsonToken::End\<close> is 13 in \<^verbatim>\<open>json.cpp\<close> and 12 in
  \<^verbatim>\<open>json_musttail.cpp\<close>; it is the parameter \<open>e\<close> of the interpreters both files contain.
\<close>

section \<open>Instructions\<close>

abbreviation op_Nop :: u8 where "op_Nop \<equiv> 0"
abbreviation op_SkipWhitespace :: u8 where "op_SkipWhitespace \<equiv> 1"
abbreviation op_MatchChar :: u8 where "op_MatchChar \<equiv> 2"
abbreviation op_MatchRange :: u8 where "op_MatchRange \<equiv> 3"
abbreviation op_JumpIfMatch :: u8 where "op_JumpIfMatch \<equiv> 4"
abbreviation op_JumpIfNoMatch :: u8 where "op_JumpIfNoMatch \<equiv> 5"
abbreviation op_Jump :: u8 where "op_Jump \<equiv> 6"
abbreviation op_EmitToken :: u8 where "op_EmitToken \<equiv> 7"
abbreviation op_Halt :: u8 where "op_Halt \<equiv> 8"

record json_instr =
  op :: u8
  operand1 :: u8
  operand2 :: u8
  operand3 :: u8

abbreviation instr :: "u8 \<Rightarrow> u8 \<Rightarrow> u8 \<Rightarrow> u8 \<Rightarrow> json_instr" where
  "instr c a b d \<equiv> \<lparr>op = c, operand1 = a, operand2 = b, operand3 = d\<rparr>"

definition char_of_u8 :: "u8 \<Rightarrow> char" where
  "char_of_u8 w = char_of (unat w)"

text \<open>The codes of \<^verbatim>\<open>JsonToken::Invalid\<close>, \<^verbatim>\<open>Number\<close>, and of \<^verbatim>\<open>End\<close> in either file.\<close>

abbreviation code_Invalid :: u8 where "code_Invalid \<equiv> 0"
abbreviation code_Number :: u8 where "code_Number \<equiv> 6"
abbreviation code_End :: u8 where "code_End \<equiv> 13"
abbreviation mt_code_End :: u8 where "mt_code_End \<equiv> 12"

text \<open>The white-space loop every interpreter contains: the position it stops at.\<close>

function skip_ws_from :: "string \<Rightarrow> nat \<Rightarrow> nat" where
  "skip_ws_from inp pos =
    (if pos < length inp \<and> is_ws (inp ! pos) then skip_ws_from inp (pos + 1) else pos)"
  by auto
termination by (relation "measure (\<lambda>(inp, pos). length inp - pos)") auto

declare skip_ws_from.simps [simp del]

section \<open>Switch\<close>

record vm_regs =
  pc :: nat
  pos :: nat
  match :: bool

text \<open>One round of the loop: \<open>Inl\<close> the next state, \<open>Inr\<close> a returned token.\<close>

definition switch_vm_step :: "u8 \<Rightarrow> string \<Rightarrow> json_instr \<Rightarrow> vm_regs \<Rightarrow> vm_regs + u8" where
  "switch_vm_step e inp inst s =
  (if op inst = op_Nop then Inl (s\<lparr>pc := pc s + 1\<rparr>)
   else if op inst = op_SkipWhitespace then
     Inl (s\<lparr>pos := skip_ws_from inp (pos s), pc := pc s + 1\<rparr>)
   else if op inst = op_MatchChar then
     let m = (pos s < length inp \<and> inp ! pos s = char_of_u8 (operand1 inst))
     in Inl (s\<lparr>match := m, pos := (if m then pos s + 1 else pos s), pc := pc s + 1\<rparr>)
   else if op inst = op_MatchRange then
     let m = (pos s < length inp \<and> sc (inp ! pos s) \<ge> sc (char_of_u8 (operand1 inst)) \<and>
              sc (inp ! pos s) \<le> sc (char_of_u8 (operand2 inst)))
     in Inl (s\<lparr>match := m, pos := (if m then pos s + 1 else pos s), pc := pc s + 1\<rparr>)
   else if op inst = op_JumpIfMatch then
     Inl (s\<lparr>pc := (if match s then unat (operand1 inst) else pc s + 1)\<rparr>)
   else if op inst = op_JumpIfNoMatch then
     Inl (s\<lparr>pc := (if match s then pc s + 1 else unat (operand1 inst))\<rparr>)
   else if op inst = op_Jump then Inl (s\<lparr>pc := unat (operand1 inst)\<rparr>)
   else if op inst = op_EmitToken then Inr (operand1 inst)
   else if op inst = op_Halt then Inr e
   else Inr code_Invalid)"

fun switch_vm_loop :: "u8 \<Rightarrow> json_instr list \<Rightarrow> string \<Rightarrow> nat \<Rightarrow> vm_regs \<Rightarrow> u8 option" where
  "switch_vm_loop e prog inp fuel s =
  (if pc s < length prog then
     case fuel of
       0 \<Rightarrow> None
     | Suc n \<Rightarrow>
         (case switch_vm_step e inp (prog ! pc s) s of
            Inl s' \<Rightarrow> switch_vm_loop e prog inp n s'
          | Inr r \<Rightarrow> Some r)
   else Some e)"

declare switch_vm_loop.simps [simp del]

definition vm_regs_init :: vm_regs where
  "vm_regs_init = \<lparr>pc = 0, pos = 0, match = False\<rparr>"

definition SwitchVM_run :: "json_instr list \<Rightarrow> string \<Rightarrow> nat \<Rightarrow> u8 option" where
  "SwitchVM_run prog inp fuel = switch_vm_loop code_End prog inp fuel vm_regs_init"

definition mt_SwitchVM_run :: "json_instr list \<Rightarrow> string \<Rightarrow> nat \<Rightarrow> u8 option" where
  "mt_SwitchVM_run prog inp fuel = switch_vm_loop mt_code_End prog inp fuel vm_regs_init"

section \<open>Handler table\<close>

record dt_vm =
  dt_pc :: nat
  dt_pos :: nat
  dt_match :: bool
  dt_halted :: bool
  dt_result :: u8

type_synonym VMHandler = "string \<Rightarrow> dt_vm \<Rightarrow> json_instr \<Rightarrow> dt_vm"

definition dt_vm_nop :: VMHandler where
  "dt_vm_nop inp vm i = vm\<lparr>dt_pc := dt_pc vm + 1\<rparr>"

definition dt_vm_skip_ws :: VMHandler where
  "dt_vm_skip_ws inp vm i = vm\<lparr>dt_pos := skip_ws_from inp (dt_pos vm), dt_pc := dt_pc vm + 1\<rparr>"

definition dt_vm_match_char :: VMHandler where
  "dt_vm_match_char inp vm i =
  (let vm = vm\<lparr>dt_match := (dt_pos vm < length inp \<and> inp ! dt_pos vm = char_of_u8 (operand1 i))\<rparr>;
       vm = (if dt_match vm then vm\<lparr>dt_pos := dt_pos vm + 1\<rparr> else vm)
   in vm\<lparr>dt_pc := dt_pc vm + 1\<rparr>)"

definition dt_vm_match_range :: VMHandler where
  "dt_vm_match_range inp vm i =
  (let vm = vm\<lparr>dt_match := (dt_pos vm < length inp \<and>
                  sc (inp ! dt_pos vm) \<ge> sc (char_of_u8 (operand1 i)) \<and>
                  sc (inp ! dt_pos vm) \<le> sc (char_of_u8 (operand2 i)))\<rparr>;
       vm = (if dt_match vm then vm\<lparr>dt_pos := dt_pos vm + 1\<rparr> else vm)
   in vm\<lparr>dt_pc := dt_pc vm + 1\<rparr>)"

definition dt_vm_jmp_match :: VMHandler where
  "dt_vm_jmp_match inp vm i =
    vm\<lparr>dt_pc := (if dt_match vm then unat (operand1 i) else dt_pc vm + 1)\<rparr>"

definition dt_vm_jmp_no_match :: VMHandler where
  "dt_vm_jmp_no_match inp vm i =
    vm\<lparr>dt_pc := (if dt_match vm then dt_pc vm + 1 else unat (operand1 i))\<rparr>"

definition dt_vm_jmp :: VMHandler where
  "dt_vm_jmp inp vm i = vm\<lparr>dt_pc := unat (operand1 i)\<rparr>"

definition dt_vm_emit :: VMHandler where
  "dt_vm_emit inp vm i = vm\<lparr>dt_result := operand1 i, dt_halted := True\<rparr>"

definition dt_vm_halt :: VMHandler where
  "dt_vm_halt inp vm i = vm\<lparr>dt_halted := True\<rparr>"

lemmas dt_vm_defs [vm_defs] =
  dt_vm_nop_def dt_vm_skip_ws_def dt_vm_match_char_def dt_vm_match_range_def dt_vm_jmp_match_def
  dt_vm_jmp_no_match_def dt_vm_jmp_def dt_vm_emit_def dt_vm_halt_def

definition dt_vm_handlers :: "VMHandler list" where
  "dt_vm_handlers =
    [dt_vm_nop, dt_vm_skip_ws, dt_vm_match_char, dt_vm_match_range, dt_vm_jmp_match,
     dt_vm_jmp_no_match, dt_vm_jmp, dt_vm_emit, dt_vm_halt]"

fun dt_vm_loop :: "json_instr list \<Rightarrow> string \<Rightarrow> nat \<Rightarrow> dt_vm \<Rightarrow> u8 outcome option" where
  "dt_vm_loop prog inp fuel vm =
  (if dt_pc vm < length prog \<and> \<not> dt_halted vm then
     case fuel of
       0 \<Rightarrow> None
     | Suc n \<Rightarrow>
         let inst = prog ! dt_pc vm
         in if unat (op inst) < length dt_vm_handlers
            then dt_vm_loop prog inp n ((dt_vm_handlers ! unat (op inst)) inp vm inst)
            else Some Undefined
   else Some (Value (dt_result vm)))"

declare dt_vm_loop.simps [simp del]

definition DirectThreadedVM_run :: "json_instr list \<Rightarrow> string \<Rightarrow> nat \<Rightarrow> u8 outcome option" where
  "DirectThreadedVM_run prog inp fuel =
    dt_vm_loop prog inp fuel
      \<lparr>dt_pc = 0, dt_pos = 0, dt_match = False, dt_halted = False, dt_result = code_End\<rparr>"

section \<open>Computed goto\<close>

datatype vm_label =
    L_nop | L_skip_ws | L_match_char | L_match_range | L_jmp_match | L_jmp_no_match | L_jmp
  | L_emit | L_halt

definition vm_dispatch_labels :: "vm_label list" where
  "vm_dispatch_labels =
    [L_nop, L_skip_ws, L_match_char, L_match_range, L_jmp_match, L_jmp_no_match, L_jmp, L_emit, L_halt]"

text \<open>
  \<open>goto_vm e prog inp fuel s\<close> is the code from a check \<^verbatim>\<open>if (pc >= prog_.size())\<close> on; \<open>goto_label_code\<close>
  is the code at a label up to its next such check.
\<close>

fun goto_label_code :: "u8 \<Rightarrow> string \<Rightarrow> json_instr \<Rightarrow> vm_label \<Rightarrow> vm_regs \<Rightarrow> vm_regs + u8" where
  "goto_label_code e inp i L_nop s = Inl (s\<lparr>pc := pc s + 1\<rparr>)"
| "goto_label_code e inp i L_skip_ws s = Inl (s\<lparr>pos := skip_ws_from inp (pos s), pc := pc s + 1\<rparr>)"
| "goto_label_code e inp i L_match_char s =
    (let s = s\<lparr>match := (pos s < length inp \<and> inp ! pos s = char_of_u8 (operand1 i))\<rparr>;
         s = (if match s then s\<lparr>pos := pos s + 1\<rparr> else s)
     in Inl (s\<lparr>pc := pc s + 1\<rparr>))"
| "goto_label_code e inp i L_match_range s =
    (let s = s\<lparr>match := (pos s < length inp \<and> sc (inp ! pos s) \<ge> sc (char_of_u8 (operand1 i)) \<and>
                 sc (inp ! pos s) \<le> sc (char_of_u8 (operand2 i)))\<rparr>;
         s = (if match s then s\<lparr>pos := pos s + 1\<rparr> else s)
     in Inl (s\<lparr>pc := pc s + 1\<rparr>))"
| "goto_label_code e inp i L_jmp_match s =
    Inl (s\<lparr>pc := (if match s then unat (operand1 i) else pc s + 1)\<rparr>)"
| "goto_label_code e inp i L_jmp_no_match s =
    Inl (s\<lparr>pc := (if match s then pc s + 1 else unat (operand1 i))\<rparr>)"
| "goto_label_code e inp i L_jmp s = Inl (s\<lparr>pc := unat (operand1 i)\<rparr>)"
| "goto_label_code e inp i L_emit s = Inr (operand1 i)"
| "goto_label_code e inp i L_halt s = Inr e"

fun goto_vm :: "u8 \<Rightarrow> json_instr list \<Rightarrow> string \<Rightarrow> nat \<Rightarrow> vm_regs \<Rightarrow> u8 outcome option" where
  "goto_vm e prog inp fuel s =
  (if pc s \<ge> length prog then Some (Value e)
   else case fuel of
     0 \<Rightarrow> None
   | Suc n \<Rightarrow>
       let inst = prog ! pc s
       in if unat (op inst) < length vm_dispatch_labels then
            case goto_label_code e inp inst (vm_dispatch_labels ! unat (op inst)) s of
              Inl s' \<Rightarrow> goto_vm e prog inp n s'
            | Inr r \<Rightarrow> Some (Value r)
          else Some Undefined)"

declare goto_vm.simps [simp del]

definition ComputedGotoVM_run :: "json_instr list \<Rightarrow> string \<Rightarrow> nat \<Rightarrow> u8 outcome option" where
  "ComputedGotoVM_run prog inp fuel = goto_vm code_End prog inp fuel vm_regs_init"

definition mt_ComputedGotoVM_run :: "json_instr list \<Rightarrow> string \<Rightarrow> nat \<Rightarrow> u8 outcome option" where
  "mt_ComputedGotoVM_run prog inp fuel = goto_vm mt_code_End prog inp fuel vm_regs_init"

definition make_number_program :: "json_instr list" where
  "make_number_program =
    [instr op_SkipWhitespace 0 0 0,
     instr op_MatchChar 45 0 0,
     instr op_MatchRange 48 57 0,
     instr op_JumpIfNoMatch 8 0 0,
     instr op_MatchRange 48 57 0,
     instr op_JumpIfMatch 4 0 0,
     instr op_EmitToken code_Number 0 0,
     instr op_Halt 0 0 0,
     instr op_EmitToken code_Invalid 0 0]"

section \<open>Tail-calling handlers\<close>

text \<open>
  \<^verbatim>\<open>VMState\<close>: the program and the input with their sizes are the lists \<open>v_prog\<close> and \<open>v_input\<close>. A
  handler returns the state and the function it tail-calls, or that it returns.
\<close>

record VMState =
  v_prog :: "json_instr list"
  v_input :: string
  v_pc :: nat
  v_pos :: nat
  v_match :: bool
  v_result :: u8
  v_done :: bool

datatype vm_next = Jump_vm_dispatch | Jump_vm_done | Vm_return

type_synonym mt_VMHandler = "VMState \<Rightarrow> VMState \<times> vm_next"

definition vm_done :: "VMState \<Rightarrow> VMState" where
  "vm_done s = s\<lparr>v_done := True\<rparr>"

definition vm_next_of :: mt_VMHandler where
  "vm_next_of s = (s, if v_pc s < length (v_prog s) then Jump_vm_dispatch else Jump_vm_done)"

abbreviation v_inst :: "VMState \<Rightarrow> json_instr" where
  "v_inst s \<equiv> v_prog s ! v_pc s"

definition vm_nop :: mt_VMHandler where
  "vm_nop s = vm_next_of (s\<lparr>v_pc := v_pc s + 1\<rparr>)"

definition vm_skip_ws :: mt_VMHandler where
  "vm_skip_ws s = vm_next_of (s\<lparr>v_pos := skip_ws_from (v_input s) (v_pos s), v_pc := v_pc s + 1\<rparr>)"

definition vm_match_char :: mt_VMHandler where
  "vm_match_char s =
  (let s = s\<lparr>v_match := (v_pos s < length (v_input s) \<and>
                 v_input s ! v_pos s = char_of_u8 (operand1 (v_inst s)))\<rparr>;
       s = (if v_match s then s\<lparr>v_pos := v_pos s + 1\<rparr> else s)
   in vm_next_of (s\<lparr>v_pc := v_pc s + 1\<rparr>))"

definition vm_match_range :: mt_VMHandler where
  "vm_match_range s =
  (let s = s\<lparr>v_match := (v_pos s < length (v_input s) \<and>
                 sc (v_input s ! v_pos s) \<ge> sc (char_of_u8 (operand1 (v_inst s))) \<and>
                 sc (v_input s ! v_pos s) \<le> sc (char_of_u8 (operand2 (v_inst s))))\<rparr>;
       s = (if v_match s then s\<lparr>v_pos := v_pos s + 1\<rparr> else s)
   in vm_next_of (s\<lparr>v_pc := v_pc s + 1\<rparr>))"

definition vm_jmp_match :: mt_VMHandler where
  "vm_jmp_match s =
    vm_next_of (s\<lparr>v_pc := (if v_match s then unat (operand1 (v_inst s)) else v_pc s + 1)\<rparr>)"

definition vm_jmp_no_match :: mt_VMHandler where
  "vm_jmp_no_match s =
    vm_next_of (s\<lparr>v_pc := (if v_match s then v_pc s + 1 else unat (operand1 (v_inst s)))\<rparr>)"

definition vm_jmp :: mt_VMHandler where
  "vm_jmp s = vm_next_of (s\<lparr>v_pc := unat (operand1 (v_inst s))\<rparr>)"

definition vm_emit :: mt_VMHandler where
  "vm_emit s = (s\<lparr>v_result := operand1 (v_inst s), v_done := True\<rparr>, Vm_return)"

definition vm_halt :: mt_VMHandler where
  "vm_halt s = (s\<lparr>v_result := mt_code_End, v_done := True\<rparr>, Vm_return)"

lemmas mt_vm_defs [vm_defs] =
  vm_nop_def vm_skip_ws_def vm_match_char_def vm_match_range_def vm_jmp_match_def
  vm_jmp_no_match_def vm_jmp_def vm_emit_def vm_halt_def

definition vm_handlers :: "mt_VMHandler list" where
  "vm_handlers =
    [vm_nop, vm_skip_ws, vm_match_char, vm_match_range, vm_jmp_match, vm_jmp_no_match, vm_jmp,
     vm_emit, vm_halt]"

fun vm_dispatch :: "nat \<Rightarrow> VMState \<Rightarrow> VMState outcome option" where
  "vm_dispatch 0 s = None"
| "vm_dispatch (Suc n) s =
  (if unat (op (v_inst s)) < length vm_handlers then
     case (vm_handlers ! unat (op (v_inst s))) s of
       (s', Jump_vm_dispatch) \<Rightarrow> vm_dispatch n s'
     | (s', Jump_vm_done) \<Rightarrow> Some (Value (vm_done s'))
     | (s', Vm_return) \<Rightarrow> Some (Value s')
   else Some Undefined)"

definition run_musttail_vm :: "json_instr list \<Rightarrow> string \<Rightarrow> nat \<Rightarrow> u8 outcome option" where
  "run_musttail_vm prog inp fuel =
  (if prog = [] then Some (Value mt_code_End)
   else map_option (map_outcome v_result)
     (vm_dispatch fuel \<lparr>v_prog = prog, v_input = inp, v_pc = 0, v_pos = 0, v_match = False,
        v_result = code_Invalid, v_done = False\<rparr>))"

section \<open>The interpreters agree\<close>

text \<open>Programs whose opcodes all have a handler.\<close>

definition valid_ops :: "json_instr list \<Rightarrow> bool" where
  "valid_ops prog \<longleftrightarrow> list_all (\<lambda>i. op i < 9) prog"

lemma op_cases:
  fixes w :: u8
  assumes "w < 9"
  obtains "w = 0" | "w = 1" | "w = 2" | "w = 3" | "w = 4" | "w = 5" | "w = 6" | "w = 7" | "w = 8"
proof -
  from assms have "unat w < 9" by (simp add: word_less_nat_alt)
  then consider "unat w = 0" | "unat w = 1" | "unat w = 2" | "unat w = 3" | "unat w = 4"
    | "unat w = 5" | "unat w = 6" | "unat w = 7" | "unat w = 8"
    by linarith
  then show thesis
    by cases (use that in \<open>auto simp: word_unat_eq_iff\<close>)
qed

lemma valid_ops_nth: "valid_ops prog \<Longrightarrow> n < length prog \<Longrightarrow> op (prog ! n) < 9"
  by (simp add: valid_ops_def list_all_length)

text \<open>The code at the label of an opcode is the switch branch of that opcode.\<close>

lemma goto_label_code_switch:
  assumes "op i < 9"
  shows "goto_label_code e inp i (vm_dispatch_labels ! unat (op i)) s = switch_vm_step e inp i s"
  using assms
  by (elim op_cases) (simp_all add: vm_dispatch_labels_def switch_vm_step_def Let_def)

lemma goto_vm_switch:
  assumes "valid_ops prog"
  shows "goto_vm e prog inp fuel s = map_option Value (switch_vm_loop e prog inp fuel s)"
proof (induction fuel arbitrary: s)
  case 0
  then show ?case by (simp add: goto_vm.simps [of _ _ _ 0] switch_vm_loop.simps [of _ _ _ 0])
next
  case (Suc n)
  show ?case
  proof (cases "pc s < length prog")
    case True
    note v = valid_ops_nth [OF assms True]
    then have "unat (op (prog ! pc s)) < 9" by (simp add: word_less_nat_alt)
    with True Suc goto_label_code_switch [OF v] show ?thesis
      by (simp add: goto_vm.simps [of _ _ _ "Suc n"] switch_vm_loop.simps [of _ _ _ "Suc n"]
          vm_dispatch_labels_def split: sum.split)
  qed (simp add: goto_vm.simps switch_vm_loop.simps)
qed

definition dt_of :: "u8 \<Rightarrow> vm_regs \<Rightarrow> dt_vm" where
  "dt_of e s = \<lparr>dt_pc = pc s, dt_pos = pos s, dt_match = match s, dt_halted = False, dt_result = e\<rparr>"

lemma dt_handlers_switch:
  assumes "op i < 9"
  shows "(dt_vm_handlers ! unat (op i)) inp (dt_of e s) i =
    (case switch_vm_step e inp i s of
       Inl s' \<Rightarrow> dt_of e s'
     | Inr r \<Rightarrow> (dt_of e s)\<lparr>dt_result := r, dt_halted := True\<rparr>)"
  using assms
  by (elim op_cases) (simp_all add: dt_vm_handlers_def switch_vm_step_def Let_def dt_vm_defs dt_of_def)

lemma dt_vm_loop_halted: "dt_halted vm \<Longrightarrow> dt_vm_loop prog inp n vm = Some (Value (dt_result vm))"
  by (subst dt_vm_loop.simps) simp

lemma dt_vm_switch:
  assumes "valid_ops prog"
  shows "dt_vm_loop prog inp fuel (dt_of e s) = map_option Value (switch_vm_loop e prog inp fuel s)"
proof (induction fuel arbitrary: s)
  case 0
  then show ?case by (simp add: dt_vm_loop.simps [of _ _ 0] switch_vm_loop.simps [of _ _ _ 0] dt_of_def)
next
  case (Suc n)
  show ?case
  proof (cases "pc s < length prog")
    case True
    note v = valid_ops_nth [OF assms True]
    then have "unat (op (prog ! pc s)) < 9" by (simp add: word_less_nat_alt)
    then have "dt_vm_loop prog inp (Suc n) (dt_of e s) =
        dt_vm_loop prog inp n ((dt_vm_handlers ! unat (op (prog ! pc s))) inp (dt_of e s) (prog ! pc s))"
      using True by (subst dt_vm_loop.simps) (simp add: dt_of_def dt_vm_handlers_def Let_def)
    then show ?thesis
      using True Suc unfolding dt_handlers_switch [OF v]
      by (subst switch_vm_loop.simps) (simp add: dt_vm_loop_halted split: sum.split)
  qed (simp add: dt_vm_loop.simps switch_vm_loop.simps dt_of_def)
qed

text \<open>
  C11. On every program whose opcodes are in range and every input, the handler-table and the
  computed goto interpreter compute what the switch interpreter computes, instruction for
  instruction: with the same fuel they return the same token or none of them returns.
\<close>

theorem json_vms_agree:
  assumes "valid_ops prog"
  shows "DirectThreadedVM_run prog inp fuel = map_option Value (SwitchVM_run prog inp fuel) \<and>
    ComputedGotoVM_run prog inp fuel = map_option Value (SwitchVM_run prog inp fuel) \<and>
    mt_ComputedGotoVM_run prog inp fuel = map_option Value (mt_SwitchVM_run prog inp fuel)"
  using goto_vm_switch [OF assms] dt_vm_switch [OF assms, of inp fuel code_End vm_regs_init]
  by (simp add: DirectThreadedVM_run_def ComputedGotoVM_run_def SwitchVM_run_def
      mt_ComputedGotoVM_run_def mt_SwitchVM_run_def dt_of_def vm_regs_init_def)

theorem json_vms_agree_witness:
  "DirectThreadedVM_run make_number_program ''7'' 9 = map_option Value (SwitchVM_run make_number_program ''7'' 9) \<and>
   ComputedGotoVM_run make_number_program ''7'' 9 = map_option Value (SwitchVM_run make_number_program ''7'' 9) \<and>
   mt_ComputedGotoVM_run make_number_program ''7'' 9 =
     map_option Value (mt_SwitchVM_run make_number_program ''7'' 9)"
  by (rule json_vms_agree) (simp add: valid_ops_def make_number_program_def)

text \<open>
  The tail-calling interpreter starts with the result \<open>Invalid\<close>, the switch interpreter returns
  \<open>End\<close> when the program counter leaves the program; and on an opcode outside its enumeration the switch
  interpreter takes its default case and returns \<open>Invalid\<close>, while the tail-calling one reads its
  table of nine handlers out of bounds. They agree on programs of the nine opcodes that cannot run off
  their end: the program is not empty, and every instruction is a return, or its successors are
  inside the program.
\<close>

definition closed_prog :: "json_instr list \<Rightarrow> bool" where
  "closed_prog prog \<longleftrightarrow> prog \<noteq> [] \<and> list_all (\<lambda>k.
     let i = prog ! k in
       op i = op_EmitToken \<or> op i = op_Halt \<or>
       op i = op_Jump \<and> unat (operand1 i) < length prog \<or>
       (op i = op_JumpIfMatch \<or> op i = op_JumpIfNoMatch) \<and> unat (operand1 i) < length prog \<and>
         k + 1 < length prog \<or>
       op i < 4 \<and> k + 1 < length prog) [0..<length prog]"

lemma closed_prog_valid: "closed_prog prog \<Longrightarrow> valid_ops prog"
  by (fastforce simp: closed_prog_def valid_ops_def list_all_length Let_def intro: order.strict_trans)

lemma closed_prog_step:
  assumes "closed_prog prog" and "pc s < length prog"
    and "switch_vm_step e inp (prog ! pc s) s = Inl s'"
  shows "pc s' < length prog"
proof -
  let ?i = "prog ! pc s"
  have "op ?i = op_EmitToken \<or> op ?i = op_Halt \<or> op ?i = op_Jump \<and> unat (operand1 ?i) < length prog \<or>
      (op ?i = op_JumpIfMatch \<or> op ?i = op_JumpIfNoMatch) \<and> unat (operand1 ?i) < length prog \<and>
        pc s + 1 < length prog \<or> op ?i < 4 \<and> pc s + 1 < length prog"
    using assms(1,2) by (simp add: closed_prog_def list_all_length Let_def)
  moreover have "op ?i < 9"
    using assms(1,2) closed_prog_valid valid_ops_nth by blast
  ultimately show ?thesis
    using assms(3) by (elim op_cases) (auto simp: switch_vm_step_def Let_def)
qed

definition regs_of :: "VMState \<Rightarrow> vm_regs" where
  "regs_of s = \<lparr>pc = v_pc s, pos = v_pos s, match = v_match s\<rparr>"

definition with_regs :: "VMState \<Rightarrow> vm_regs \<Rightarrow> VMState" where
  "with_regs s r = s\<lparr>v_pc := pc r, v_pos := pos r, v_match := match r\<rparr>"

lemma with_regs_simps [simp]:
  "regs_of (with_regs s r) = r" "v_prog (with_regs s r) = v_prog s"
  "v_input (with_regs s r) = v_input s" "v_pc (with_regs s r) = pc r"
  "v_result (with_regs s r) = v_result s"
  by (simp_all add: regs_of_def with_regs_def)

lemma vm_handlers_switch:
  assumes "op (v_inst s) < 9"
  shows "(vm_handlers ! unat (op (v_inst s))) s =
    (case switch_vm_step mt_code_End (v_input s) (v_inst s) (regs_of s) of
       Inl r \<Rightarrow> vm_next_of (with_regs s r)
     | Inr t \<Rightarrow> (s\<lparr>v_result := t, v_done := True\<rparr>, Vm_return))"
  using assms
  by (elim op_cases; cases s)
    (simp_all add: vm_handlers_def switch_vm_step_def Let_def mt_vm_defs regs_of_def with_regs_def)

lemma vm_dispatch_switch:
  assumes "closed_prog (v_prog s)" and "v_pc s < length (v_prog s)"
  shows "map_option (map_outcome v_result) (vm_dispatch n s) =
    map_option Value (switch_vm_loop mt_code_End (v_prog s) (v_input s) n (regs_of s))"
  using assms
proof (induction n arbitrary: s)
  case 0
  then show ?case by (subst switch_vm_loop.simps) (simp add: regs_of_def)
next
  case (Suc n)
  note v = valid_ops_nth [OF closed_prog_valid [OF Suc.prems(1)] Suc.prems(2)]
  then have len: "unat (op (v_inst s)) < length vm_handlers"
    by (simp add: vm_handlers_def word_less_nat_alt)
  have p: "pc (regs_of s) = v_pc s" by (simp add: regs_of_def)
  show ?case
  proof (cases "switch_vm_step mt_code_End (v_input s) (v_inst s) (regs_of s)")
    case (Inl r)
    then have "pc r < length (v_prog s)"
      using closed_prog_step [OF Suc.prems(1), of "regs_of s"] Suc.prems(2) by (simp add: p)
    with Inl len Suc.prems Suc.IH [of "with_regs s r"] vm_handlers_switch [OF v] show ?thesis
      by (subst switch_vm_loop.simps) (simp add: p vm_next_of_def)
  next
    case (Inr t)
    with len Suc.prems vm_handlers_switch [OF v] show ?thesis
      by (subst switch_vm_loop.simps) (simp add: p)
  qed
qed

text \<open>
  C12. The tail-calling interpreter computes what the switch interpreter of its file computes, on
  every program whose opcodes are all in range (below nine) and that cannot run off its end: it is not
  empty, and each instruction is a return or has its successors, the next instruction and the jump
  target, inside the program.
\<close>

theorem musttail_vm_equals_switch:
  assumes "closed_prog prog"
  shows "run_musttail_vm prog inp fuel = map_option Value (mt_SwitchVM_run prog inp fuel)"
proof -
  have "prog \<noteq> []" using assms by (simp add: closed_prog_def)
  with assms vm_dispatch_switch [of "\<lparr>v_prog = prog, v_input = inp, v_pc = 0, v_pos = 0, v_match = False,
      v_result = code_Invalid, v_done = False\<rparr>" fuel]
  show ?thesis
    by (simp add: run_musttail_vm_def mt_SwitchVM_run_def regs_of_def vm_regs_init_def)
qed

theorem musttail_vm_equals_switch_witness:
  "run_musttail_vm make_number_program ''-1'' 9 = map_option Value (mt_SwitchVM_run make_number_program ''-1'' 9)"
  by (rule musttail_vm_equals_switch) (simp add: closed_prog_def make_number_program_def)

text \<open>Off its end the two differ: after a lone \<open>Nop\<close> one reports \<open>Invalid\<close>, the other \<open>End\<close>.\<close>

lemma musttail_vm_off_the_end:
  "run_musttail_vm [instr op_Nop 0 0 0] inp 1 = Some (Value code_Invalid) \<and>
   mt_SwitchVM_run [instr op_Nop 0 0 0] inp 1 = Some mt_code_End"
  by (simp add: run_musttail_vm_def mt_SwitchVM_run_def vm_handlers_def vm_nop_def vm_next_of_def
      vm_done_def switch_vm_loop.simps switch_vm_step_def vm_regs_init_def)

text \<open>
  On an opcode out of range the two differ: the switch interpreter returns \<open>Invalid\<close>, the tail-calling one reads
  \<^verbatim>\<open>vm_handlers\<close> out of bounds.
\<close>

lemma musttail_vm_bad_opcode:
  assumes "9 \<le> op i"
  shows "run_musttail_vm [i] inp 1 = Some Undefined \<and> mt_SwitchVM_run [i] inp 1 = Some code_Invalid"
proof -
  have ne: "op i \<noteq> k" if "k < 9" for k using assms that by auto
  have "9 \<le> unat (op i)" using assms by (simp add: word_le_nat_alt)
  then show ?thesis
    by (simp add: run_musttail_vm_def mt_SwitchVM_run_def vm_handlers_def switch_vm_loop.simps switch_vm_step_def
        vm_regs_init_def Let_def ne)
qed

section \<open>The number program\<close>

text \<open>What it recognises: white space, an optional minus sign and a digit at the front.\<close>

definition number_spec :: "string \<Rightarrow> bool" where
  "number_spec inp \<longleftrightarrow>
    (let s = dropWhile is_ws inp;
         s' = (case s of c # cs \<Rightarrow> if c = CHR ''-'' then cs else s | [] \<Rightarrow> [])
     in case s' of c # _ \<Rightarrow> c \<in> set ''0123456789'' | [] \<Rightarrow> False)"

lemma skip_ws_from_spec:
  "drop (skip_ws_from inp p) inp = dropWhile is_ws (drop p inp) \<and> p \<le> skip_ws_from inp p"
proof (induction inp p rule: skip_ws_from.induct)
  case (1 inp p)
  show ?case
  proof (cases "p < length inp")
    case True
    with 1 drop_nth_Cons [OF True] show ?thesis
      by (subst (1 2) skip_ws_from.simps) auto
  qed (simp add: skip_ws_from.simps [of inp p])
qed

lemma char_of_u8_number [simp]:
  "char_of_u8 45 = CHR ''-''" "char_of_u8 48 = CHR ''0''" "char_of_u8 57 = CHR ''9''"
  by (simp_all add: char_of_u8_def char_of_def bit_0)

abbreviation num_loop :: "u8 \<Rightarrow> string \<Rightarrow> nat \<Rightarrow> nat \<Rightarrow> nat \<Rightarrow> bool \<Rightarrow> u8 option" where
  "num_loop e inp n k p m \<equiv>
    switch_vm_loop e make_number_program inp n \<lparr>pc = k, pos = p, match = m\<rparr>"

definition digit_at :: "string \<Rightarrow> nat \<Rightarrow> bool" where
  "digit_at inp p \<longleftrightarrow> p < length inp \<and> inp ! p \<in> set ''0123456789''"

lemma digit_sc: "sc CHR ''0'' \<le> sc c \<and> sc c \<le> sc CHR ''9'' \<longleftrightarrow> c \<in> set ''0123456789''"
  unfolding digit_chars using sc_between [of "CHR ''0''" "CHR ''9''" c] by simp

lemma num_steps:
  "num_loop e inp (Suc n) 0 p m = num_loop e inp n (Suc 0) (skip_ws_from inp p) m"
  "num_loop e inp (Suc n) (Suc 0) p m =
    (let b = (p < length inp \<and> inp ! p = CHR ''-'') in num_loop e inp n 2 (if b then p + 1 else p) b)"
  "num_loop e inp (Suc n) 2 p m =
    num_loop e inp n 3 (if digit_at inp p then p + 1 else p) (digit_at inp p)"
  "num_loop e inp (Suc n) 3 p m = num_loop e inp n (if m then 4 else 8) p m"
  "num_loop e inp (Suc n) 4 p m =
    num_loop e inp n 5 (if digit_at inp p then p + 1 else p) (digit_at inp p)"
  "num_loop e inp (Suc n) 5 p m = num_loop e inp n (if m then 4 else 6) p m"
  "num_loop e inp (Suc n) 6 p m = Some code_Number"
  "num_loop e inp (Suc n) 8 p m = Some code_Invalid"
  unfolding digit_at_def digit_sc [symmetric]
  by (simp_all add: switch_vm_loop.simps [of _ _ _ "Suc n"] make_number_program_def
      switch_vm_step_def Let_def flip: numeral_2_eq_2)

lemma num_loop_digits: "2 * (length inp - p) + 3 \<le> n \<Longrightarrow> num_loop e inp n 4 p m = Some code_Number"
proof (induction "length inp - p" arbitrary: p n m rule: less_induct)
  case less
  obtain n' where n: "n = Suc (Suc (Suc n'))"
    using less.prems by (metis add_leD2 le_Suc_ex numeral_3_eq_3 add_Suc)
  show ?case
  proof (cases "digit_at inp p")
    case True
    then have p: "p < length inp" by (simp add: digit_at_def)
    with less.prems have "num_loop e inp (Suc n') 4 (p + 1) True = Some code_Number"
      by (intro less.hyps) (simp_all add: n)
    then show ?thesis using True by (simp add: n num_steps)
  qed (simp add: n num_steps)
qed

lemma num_loop_spec:
  assumes "2 * length inp + 8 \<le> n"
  shows "num_loop e inp n 0 0 False = Some (if number_spec inp then code_Number else code_Invalid)"
proof -
  obtain n' where n: "n = Suc (Suc (Suc (Suc (Suc n'))))"
    using assms by (metis add_leD2 le_Suc_ex add_Suc numeral_eq_Suc pred_numeral_simps BitM.simps
        add_Suc_right Suc_le_D)
  define p where "p = skip_ws_from inp 0"
  define b where "b = (p < length inp \<and> inp ! p = CHR ''-'')"
  define q where "q = (if b then p + 1 else p)"
  have dp: "drop p inp = dropWhile is_ws inp"
    using skip_ws_from_spec [of inp 0] by (simp add: p_def)
  have spec: "number_spec inp \<longleftrightarrow> digit_at inp q"
  proof (cases "p < length inp")
    case True
    note c = drop_nth_Cons [OF True]
    have "number_spec inp \<longleftrightarrow> (case drop q inp of c # _ \<Rightarrow> c \<in> set ''0123456789'' | [] \<Rightarrow> False)"
      unfolding number_spec_def dp [symmetric] Let_def c q_def b_def using True c by simp
    also have "\<dots> \<longleftrightarrow> digit_at inp q"
      using drop_nth_Cons [of q inp] by (cases "q < length inp") (simp_all add: digit_at_def)
    finally show ?thesis .
  next
    case False
    then have "dropWhile is_ws inp = []" "\<not> digit_at inp q"
      using dp by (simp_all add: digit_at_def q_def b_def)
    then show ?thesis by (simp add: number_spec_def del: dropWhile_eq_Nil_conv)
  qed
  have "num_loop e inp n 0 0 False = num_loop e inp (Suc (Suc n')) 3
      (if digit_at inp q then q + 1 else q) (digit_at inp q)"
    by (simp add: n num_steps Let_def flip: p_def b_def q_def)
  also have "\<dots> = Some (if number_spec inp then code_Number else code_Invalid)"
    using num_loop_digits [of inp "q + 1" "Suc n'" e True] assms
    by (cases "digit_at inp q") (simp_all add: spec num_steps n)
  finally show ?thesis .
qed

lemma number_program_shape: "closed_prog make_number_program" "valid_ops make_number_program"
  by (simp_all add: closed_prog_def valid_ops_def make_number_program_def)

text \<open>
  C13. The number program recognises numbers, and always ends: on every input each interpreter
  returns, after at most twice the input's length plus eight instructions, \<open>Number\<close> if after
  white space and an optional minus sign there is a digit, and \<open>Invalid\<close> otherwise.
\<close>

theorem number_program_correct:
  "SwitchVM_run make_number_program inp (2 * length inp + 8) =
     Some (if number_spec inp then code_Number else code_Invalid) \<and>
   DirectThreadedVM_run make_number_program inp (2 * length inp + 8) =
     Some (Value (if number_spec inp then code_Number else code_Invalid)) \<and>
   ComputedGotoVM_run make_number_program inp (2 * length inp + 8) =
     Some (Value (if number_spec inp then code_Number else code_Invalid)) \<and>
   run_musttail_vm make_number_program inp (2 * length inp + 8) =
     Some (Value (if number_spec inp then code_Number else code_Invalid))"
proof -
  let ?n = "2 * length inp + 8"
  let ?r = "if number_spec inp then code_Number else code_Invalid"
  have sw: "switch_vm_loop e make_number_program inp ?n vm_regs_init = Some ?r" for e
    using num_loop_spec [of inp ?n e] by (simp add: vm_regs_init_def)
  have "DirectThreadedVM_run make_number_program inp ?n = Some (Value ?r)"
    using dt_vm_switch [OF number_program_shape(2), of inp ?n code_End vm_regs_init] sw
    by (simp add: DirectThreadedVM_run_def dt_of_def vm_regs_init_def)
  moreover have "run_musttail_vm make_number_program inp ?n = Some (Value ?r)"
    using vm_dispatch_switch [of "\<lparr>v_prog = make_number_program, v_input = inp, v_pc = 0, v_pos = 0,
        v_match = False, v_result = code_Invalid, v_done = False\<rparr>" ?n] number_program_shape(1) sw
    by (simp add: run_musttail_vm_def regs_of_def closed_prog_def flip: vm_regs_init_def)
  ultimately show ?thesis
    using sw goto_vm_switch [OF number_program_shape(2)]
    by (simp add: SwitchVM_run_def ComputedGotoVM_run_def)
qed

end
