(* ===== verification/Register_VM.thy ===== *)
theory Register_VM
  imports Prelude
begin

text \<open>
  \<^verbatim>\<open>src/perf/threaded_code/basic.cpp\<close>: a register machine with six interpreters (switch, direct
  threaded, indirect threaded, token threaded, subroutine threaded, call threaded). Each
  interpreter is written out with its own state and its own dispatch. A program can loop, so the
  interpreters take fuel, one unit per executed instruction.

  Registers are 64-bit words read as signed numbers. A signed overflow, an index outside the register file or the
  dispatch table, and a jump before the start of the code are \<open>Undefined\<close>.
\<close>

section \<open>Opcodes, instructions, state\<close>

abbreviation OP_HALT :: u8 where "OP_HALT \<equiv> 0"
abbreviation OP_NOP :: u8 where "OP_NOP \<equiv> 1"
abbreviation OP_ADD :: u8 where "OP_ADD \<equiv> 2"
abbreviation OP_SUB :: u8 where "OP_SUB \<equiv> 3"
abbreviation OP_MUL :: u8 where "OP_MUL \<equiv> 4"
abbreviation OP_INC :: u8 where "OP_INC \<equiv> 5"
abbreviation OP_DEC :: u8 where "OP_DEC \<equiv> 6"
abbreviation OP_NEG :: u8 where "OP_NEG \<equiv> 7"
abbreviation OP_AND :: u8 where "OP_AND \<equiv> 8"
abbreviation OP_OR :: u8 where "OP_OR \<equiv> 9"
abbreviation OP_XOR :: u8 where "OP_XOR \<equiv> 10"
abbreviation OP_NOT :: u8 where "OP_NOT \<equiv> 11"
abbreviation OP_SHL :: u8 where "OP_SHL \<equiv> 12"
abbreviation OP_SHR :: u8 where "OP_SHR \<equiv> 13"
abbreviation OP_LOAD_IMM :: u8 where "OP_LOAD_IMM \<equiv> 14"
abbreviation OP_LOAD_REG :: u8 where "OP_LOAD_REG \<equiv> 15"
abbreviation OP_STORE :: u8 where "OP_STORE \<equiv> 16"
abbreviation OP_CMP_EQ :: u8 where "OP_CMP_EQ \<equiv> 17"
abbreviation OP_CMP_LT :: u8 where "OP_CMP_LT \<equiv> 18"
abbreviation OP_CMP_GT :: u8 where "OP_CMP_GT \<equiv> 19"
abbreviation OP_JMP :: u8 where "OP_JMP \<equiv> 20"
abbreviation OP_JZ :: u8 where "OP_JZ \<equiv> 21"
abbreviation OP_JNZ :: u8 where "OP_JNZ \<equiv> 22"
abbreviation OP_MAC :: u8 where "OP_MAC \<equiv> 23"
abbreviation OP_DOT :: u8 where "OP_DOT \<equiv> 24"
abbreviation OP_POLY :: u8 where "OP_POLY \<equiv> 25"
abbreviation OP_ABS :: u8 where "OP_ABS \<equiv> 26"
abbreviation OP_MIN :: u8 where "OP_MIN \<equiv> 27"
abbreviation OP_MAX :: u8 where "OP_MAX \<equiv> 28"
abbreviation OP_OP32 :: u8 where "OP_OP32 \<equiv> 29"
abbreviation NUM_OPCODES :: u8 where "NUM_OPCODES \<equiv> 61"

abbreviation NUM_REGS :: nat where "NUM_REGS \<equiv> 16"
abbreviation NUM_BASIC_OPS :: nat where "NUM_BASIC_OPS \<equiv> 32"

record basic_VMState =
  regs :: "i64 list"
  flags :: u64
  ip :: nat
  cycle_count :: u64

text \<open>The default member initialisers of a fresh state.\<close>

definition VMState_new :: basic_VMState where
  "VMState_new = \<lparr>regs = replicate NUM_REGS 0, flags = 0, ip = 0, cycle_count = 0\<rparr>"

definition VMState_reset :: "basic_VMState \<Rightarrow> basic_VMState" where
  "VMState_reset s =
    \<lparr>regs = map (\<lambda>i. of_nat (i + 1)) [0..<NUM_REGS], flags = 0, ip = 0, cycle_count = 0\<rparr>"

record Instruction =
  ins_op :: u8
  ins_r1 :: u8
  ins_r2 :: u8
  ins_r3 :: u8
  ins_imm :: i32

section \<open>Operations on 64-bit registers\<close>

text \<open>
  \<^verbatim>\<open>int64_t\<close> operands: a sum, difference, product, negation or absolute value the type does not hold is undefined,
  \<open>None\<close>; the bitwise operations and the shifts, by at most 63, are defined on every operand. \<open>ext_size\<close> is the form of
  the extension operation whose left operand has the unsigned type \<^verbatim>\<open>size_t\<close>, so that its sum wraps around.
\<close>

definition add64 :: "i64 \<Rightarrow> i64 \<Rightarrow> i64 option" where "add64 a b = checked (sint a + sint b)"
definition sub64 :: "i64 \<Rightarrow> i64 \<Rightarrow> i64 option" where "sub64 a b = checked (sint a - sint b)"
definition mul64 :: "i64 \<Rightarrow> i64 \<Rightarrow> i64 option" where "mul64 a b = checked (sint a * sint b)"
definition inc64 :: "i64 \<Rightarrow> i64 option" where "inc64 a = checked (sint a + 1)"
definition dec64 :: "i64 \<Rightarrow> i64 option" where "dec64 a = checked (sint a - 1)"
definition neg64 :: "i64 \<Rightarrow> i64 option" where "neg64 a = checked (- sint a)"
definition and64 :: "i64 \<Rightarrow> i64 \<Rightarrow> i64 option" where "and64 a b = Some (a AND b)"
definition or64 :: "i64 \<Rightarrow> i64 \<Rightarrow> i64 option" where "or64 a b = Some (a OR b)"
definition xor64 :: "i64 \<Rightarrow> i64 \<Rightarrow> i64 option" where "xor64 a b = Some (a XOR b)"
definition not64 :: "i64 \<Rightarrow> i64 option" where "not64 a = Some (NOT a)"
definition shl64 :: "i64 \<Rightarrow> i64 \<Rightarrow> i64 option" where "shl64 a b = Some (push_bit (unat (b AND 63)) a)"
definition shr64 :: "i64 \<Rightarrow> i64 \<Rightarrow> i64 option" where "shr64 a b = Some (drop_bit (unat (b AND 63)) a)"
definition id64 :: "i64 \<Rightarrow> i64 option" where "id64 a = Some a"
definition mac64 :: "i64 \<Rightarrow> i64 \<Rightarrow> i64 \<Rightarrow> i64 option" where "mac64 a b c = Option.bind (mul64 b c) (add64 a)"
definition poly64 :: "i64 \<Rightarrow> i64 \<Rightarrow> i64 \<Rightarrow> i64 option" where "poly64 a b c = Option.bind (mul64 a b) (\<lambda>p. add64 p c)"
definition abs64 :: "i64 \<Rightarrow> i64 option" where "abs64 a = (if sint a < 0 then neg64 a else Some a)"
definition min64 :: "i64 \<Rightarrow> i64 \<Rightarrow> i64 option" where "min64 a b = Some (if sint b < sint a then b else a)"
definition max64 :: "i64 \<Rightarrow> i64 \<Rightarrow> i64 option" where "max64 a b = Some (if sint a < sint b then b else a)"
definition eq64 :: "i64 \<Rightarrow> i64 \<Rightarrow> bool" where "eq64 a b \<longleftrightarrow> a = b"
definition lt64 :: "i64 \<Rightarrow> i64 \<Rightarrow> bool" where "lt64 a b \<longleftrightarrow> sint a < sint b"
definition gt64 :: "i64 \<Rightarrow> i64 \<Rightarrow> bool" where "gt64 a b \<longleftrightarrow> sint a > sint b"
definition ext64 :: "u64 \<Rightarrow> i64 \<Rightarrow> i64 \<Rightarrow> i64 option" where "ext64 k a b = add64 (a XOR k) b"
definition ext_size :: "u64 \<Rightarrow> i64 \<Rightarrow> i64 \<Rightarrow> i64 option" where "ext_size k a b = Some ((a XOR k) + b)"

text \<open>
  The statement patterns of the interpreters on the register file, with the index checks:
  \<^verbatim>\<open>regs[r1] = f(regs[r2], regs[r3])\<close>, \<^verbatim>\<open>regs[r1] = f(regs[r2])\<close>, \<^verbatim>\<open>regs[r1] = f(regs[r1])\<close>,
  \<^verbatim>\<open>regs[r1] = f(regs[r1], regs[r2], regs[r3])\<close>, \<^verbatim>\<open>regs[r1] = v\<close> and a comparison of
  \<^verbatim>\<open>regs[r2]\<close> and \<^verbatim>\<open>regs[r3]\<close>. \<open>put\<close> assigns a result, unless it is undefined.
\<close>

abbreviation rok :: "u8 \<Rightarrow> bool" where "rok r \<equiv> unat r < NUM_REGS"

definition put :: "u8 \<Rightarrow> i64 list \<Rightarrow> i64 option \<Rightarrow> i64 list outcome" where
  "put r rs v = (case v of Some v \<Rightarrow> Value (rs[unat r := v]) | None \<Rightarrow> Undefined)"

definition set3 :: "(i64 \<Rightarrow> i64 \<Rightarrow> i64 option) \<Rightarrow> u8 \<Rightarrow> u8 \<Rightarrow> u8 \<Rightarrow> i64 list \<Rightarrow> i64 list outcome" where
  "set3 f r1 r2 r3 rs =
    (if rok r1 \<and> rok r2 \<and> rok r3 then put r1 rs (f (rs ! unat r2) (rs ! unat r3)) else Undefined)"

definition set2 :: "(i64 \<Rightarrow> i64 option) \<Rightarrow> u8 \<Rightarrow> u8 \<Rightarrow> i64 list \<Rightarrow> i64 list outcome" where
  "set2 f r1 r2 rs = (if rok r1 \<and> rok r2 then put r1 rs (f (rs ! unat r2)) else Undefined)"

definition mod1 :: "(i64 \<Rightarrow> i64 option) \<Rightarrow> u8 \<Rightarrow> i64 list \<Rightarrow> i64 list outcome" where
  "mod1 f r1 rs = (if rok r1 then put r1 rs (f (rs ! unat r1)) else Undefined)"

definition acc3 :: "(i64 \<Rightarrow> i64 \<Rightarrow> i64 \<Rightarrow> i64 option) \<Rightarrow> u8 \<Rightarrow> u8 \<Rightarrow> u8 \<Rightarrow> i64 list \<Rightarrow> i64 list outcome" where
  "acc3 f r1 r2 r3 rs =
    (if rok r1 \<and> rok r2 \<and> rok r3
     then put r1 rs (f (rs ! unat r1) (rs ! unat r2) (rs ! unat r3)) else Undefined)"

definition set1 :: "i64 \<Rightarrow> u8 \<Rightarrow> i64 list \<Rightarrow> i64 list outcome" where
  "set1 v r1 rs = (if rok r1 then Value (rs[unat r1 := v]) else Undefined)"

definition cmp2 :: "(i64 \<Rightarrow> i64 \<Rightarrow> bool) \<Rightarrow> u8 \<Rightarrow> u8 \<Rightarrow> i64 list \<Rightarrow> u64 outcome" where
  "cmp2 f r2 r3 rs =
    (if rok r2 \<and> rok r3 then Value (if f (rs ! unat r2) (rs ! unat r3) then 1 else 0) else Undefined)"

text \<open>\<^verbatim>\<open>static_cast<size_t>(imm)\<close>: a negative immediate becomes a huge index.\<close>

definition size_of_imm :: "i32 \<Rightarrow> nat" where
  "size_of_imm w = unat (scast w :: u64)"

text \<open>\<^verbatim>\<open>static_cast<uint8_t>(op) - static_cast<uint8_t>(OpCode::OP32)\<close> as an operand.\<close>

definition op_idx :: "u8 \<Rightarrow> u64" where
  "op_idx p = ucast p - 29"

text \<open>What executing one instruction leads to.\<close>

datatype 's step = Go 's | Ret | Undef

section \<open>Switch interpreter\<close>

definition sw_regs :: "basic_VMState \<Rightarrow> i64 list outcome \<Rightarrow> basic_VMState step" where
  "sw_regs s r = (case r of Value rs \<Rightarrow> Go (s\<lparr>regs := rs, ip := ip s + 1\<rparr>) | Undefined \<Rightarrow> Undef)"

definition sw_flags :: "basic_VMState \<Rightarrow> u64 outcome \<Rightarrow> basic_VMState step" where
  "sw_flags s r = (case r of Value f \<Rightarrow> Go (s\<lparr>flags := f, ip := ip s + 1\<rparr>) | Undefined \<Rightarrow> Undef)"

definition switch_step :: "Instruction \<Rightarrow> basic_VMState \<Rightarrow> basic_VMState step" where
  "switch_step i s =
  (if ins_op i = OP_HALT then Ret
   else if ins_op i = OP_NOP then Go (s\<lparr>ip := ip s + 1\<rparr>)
   else if ins_op i = OP_ADD then sw_regs s (set3 add64 (ins_r1 i) (ins_r2 i) (ins_r3 i) (regs s))
   else if ins_op i = OP_SUB then sw_regs s (set3 sub64 (ins_r1 i) (ins_r2 i) (ins_r3 i) (regs s))
   else if ins_op i = OP_MUL then sw_regs s (set3 mul64 (ins_r1 i) (ins_r2 i) (ins_r3 i) (regs s))
   else if ins_op i = OP_INC then sw_regs s (mod1 inc64 (ins_r1 i) (regs s))
   else if ins_op i = OP_DEC then sw_regs s (mod1 dec64 (ins_r1 i) (regs s))
   else if ins_op i = OP_NEG then sw_regs s (set2 neg64 (ins_r1 i) (ins_r2 i) (regs s))
   else if ins_op i = OP_AND then sw_regs s (set3 and64 (ins_r1 i) (ins_r2 i) (ins_r3 i) (regs s))
   else if ins_op i = OP_OR then sw_regs s (set3 or64 (ins_r1 i) (ins_r2 i) (ins_r3 i) (regs s))
   else if ins_op i = OP_XOR then sw_regs s (set3 xor64 (ins_r1 i) (ins_r2 i) (ins_r3 i) (regs s))
   else if ins_op i = OP_NOT then sw_regs s (set2 not64 (ins_r1 i) (ins_r2 i) (regs s))
   else if ins_op i = OP_SHL then sw_regs s (set3 shl64 (ins_r1 i) (ins_r2 i) (ins_r3 i) (regs s))
   else if ins_op i = OP_SHR then sw_regs s (set3 shr64 (ins_r1 i) (ins_r2 i) (ins_r3 i) (regs s))
   else if ins_op i = OP_LOAD_IMM then sw_regs s (set1 (scast (ins_imm i)) (ins_r1 i) (regs s))
   else if ins_op i = OP_LOAD_REG then sw_regs s (set2 id64 (ins_r1 i) (ins_r2 i) (regs s))
   else if ins_op i = OP_STORE then sw_regs s (set2 id64 (ins_r1 i) (ins_r2 i) (regs s))
   else if ins_op i = OP_CMP_EQ then sw_flags s (cmp2 eq64 (ins_r2 i) (ins_r3 i) (regs s))
   else if ins_op i = OP_CMP_LT then sw_flags s (cmp2 lt64 (ins_r2 i) (ins_r3 i) (regs s))
   else if ins_op i = OP_CMP_GT then sw_flags s (cmp2 gt64 (ins_r2 i) (ins_r3 i) (regs s))
   else if ins_op i = OP_JMP then Go (s\<lparr>ip := size_of_imm (ins_imm i)\<rparr>)
   else if ins_op i = OP_JZ then 
     Go (s\<lparr>ip := (if flags s = 0 then size_of_imm (ins_imm i) else ip s + 1)\<rparr>)
   else if ins_op i = OP_JNZ then 
     Go (s\<lparr>ip := (if flags s \<noteq> 0 then size_of_imm (ins_imm i) else ip s + 1)\<rparr>)
   else if ins_op i = OP_MAC then sw_regs s (acc3 mac64 (ins_r1 i) (ins_r2 i) (ins_r3 i) (regs s))
   else if ins_op i = OP_DOT then sw_regs s (acc3 mac64 (ins_r1 i) (ins_r2 i) (ins_r3 i) (regs s))
   else if ins_op i = OP_POLY then sw_regs s (acc3 poly64 (ins_r1 i) (ins_r2 i) (ins_r3 i) (regs s))
   else if ins_op i = OP_ABS then sw_regs s (set2 abs64 (ins_r1 i) (ins_r2 i) (regs s))
   else if ins_op i = OP_MIN then sw_regs s (set3 min64 (ins_r1 i) (ins_r2 i) (ins_r3 i) (regs s))
   else if ins_op i = OP_MAX then sw_regs s (set3 max64 (ins_r1 i) (ins_r2 i) (ins_r3 i) (regs s))
   else if ins_op i \<ge> OP_OP32 \<and> ins_op i < NUM_OPCODES then
     sw_regs s (set3 (ext64 (op_idx (ins_op i))) (ins_r1 i) (ins_r2 i) (ins_r3 i) (regs s))
   else Go (s\<lparr>ip := ip s + 1\<rparr>))"

text \<open>The returned value and the final state.\<close>

fun switch_execute :: "Instruction list \<Rightarrow> nat \<Rightarrow> basic_VMState \<Rightarrow> (u64 \<times> basic_VMState) outcome option" where
  "switch_execute code fuel s =
  (if ip s < length code then
     case fuel of
       0 \<Rightarrow> None
     | Suc n \<Rightarrow>
         let i = code ! ip s; s = s\<lparr>cycle_count := cycle_count s + 1\<rparr>
         in (case switch_step i s of
               Go s' \<Rightarrow> switch_execute code n s'
             | Ret \<Rightarrow> Some (Value (regs s ! 0, s))
             | Undef \<Rightarrow> Some Undefined)
   else Some (Value (regs s ! 0, s)))"

declare switch_execute.simps [simp del]

section \<open>Code at labels\<close>

text \<open>
  The direct, indirect and token threaded interpreters jump to labels. The statements at a label
  are the same in the three; they differ in how the operands are read from the instruction, so the
  operands are arguments here: \<open>r1\<close>, \<open>r2\<close>, \<open>r3\<close>, \<open>imm\<close> and the operation \<open>k\<close> of \<^verbatim>\<open>L_EXT\<close>. The local
  variables are the instruction pointer, as an offset from the first instruction, and the flags;
  \<open>regs\<close> and \<open>cycle_count\<close> are those of the state.
\<close>

datatype op_label =
    L_HALT | L_NOP | L_ADD | L_SUB | L_MUL | L_INC | L_DEC | L_NEG
  | L_AND | L_OR | L_XOR | L_NOT | L_SHL | L_SHR | L_LOAD_IMM | L_LOAD_REG
  | L_STORE | L_CMP_EQ | L_CMP_LT | L_CMP_GT | L_JMP | L_JZ | L_JNZ | L_MAC
  | L_DOT | L_POLY | L_ABS | L_MIN | L_MAX | L_EXT

record threaded =
  t_regs :: "i64 list"
  t_flags :: u64
  t_ip :: int
  t_cycles :: u64

definition th_regs :: "threaded \<Rightarrow> i64 list outcome \<Rightarrow> threaded step" where
  "th_regs t r = (case r of Value rs \<Rightarrow> Go (t\<lparr>t_regs := rs, t_ip := t_ip t + 1\<rparr>) | Undefined \<Rightarrow> Undef)"

definition th_flags :: "threaded \<Rightarrow> u64 outcome \<Rightarrow> threaded step" where
  "th_flags t r = (case r of Value f \<Rightarrow> Go (t\<lparr>t_flags := f, t_ip := t_ip t + 1\<rparr>) | Undefined \<Rightarrow> Undef)"

fun label_code ::
    "op_label \<Rightarrow> u8 \<Rightarrow> u8 \<Rightarrow> u8 \<Rightarrow> i32 \<Rightarrow> (i64 \<Rightarrow> i64 \<Rightarrow> i64 option) \<Rightarrow> threaded \<Rightarrow> threaded step" where
  "label_code L_HALT r1 r2 r3 imm k t = Ret"
| "label_code L_NOP r1 r2 r3 imm k t = Go (t\<lparr>t_ip := t_ip t + 1\<rparr>)"
| "label_code L_ADD r1 r2 r3 imm k t = th_regs t (set3 add64 r1 r2 r3 (t_regs t))"
| "label_code L_SUB r1 r2 r3 imm k t = th_regs t (set3 sub64 r1 r2 r3 (t_regs t))"
| "label_code L_MUL r1 r2 r3 imm k t = th_regs t (set3 mul64 r1 r2 r3 (t_regs t))"
| "label_code L_INC r1 r2 r3 imm k t = th_regs t (mod1 inc64 r1 (t_regs t))"
| "label_code L_DEC r1 r2 r3 imm k t = th_regs t (mod1 dec64 r1 (t_regs t))"
| "label_code L_NEG r1 r2 r3 imm k t = th_regs t (set2 neg64 r1 r2 (t_regs t))"
| "label_code L_AND r1 r2 r3 imm k t = th_regs t (set3 and64 r1 r2 r3 (t_regs t))"
| "label_code L_OR r1 r2 r3 imm k t = th_regs t (set3 or64 r1 r2 r3 (t_regs t))"
| "label_code L_XOR r1 r2 r3 imm k t = th_regs t (set3 xor64 r1 r2 r3 (t_regs t))"
| "label_code L_NOT r1 r2 r3 imm k t = th_regs t (set2 not64 r1 r2 (t_regs t))"
| "label_code L_SHL r1 r2 r3 imm k t = th_regs t (set3 shl64 r1 r2 r3 (t_regs t))"
| "label_code L_SHR r1 r2 r3 imm k t = th_regs t (set3 shr64 r1 r2 r3 (t_regs t))"
| "label_code L_LOAD_IMM r1 r2 r3 imm k t = th_regs t (set1 (scast imm) r1 (t_regs t))"
| "label_code L_LOAD_REG r1 r2 r3 imm k t = th_regs t (set2 id64 r1 r2 (t_regs t))"
| "label_code L_STORE r1 r2 r3 imm k t = th_regs t (set2 id64 r1 r2 (t_regs t))"
| "label_code L_CMP_EQ r1 r2 r3 imm k t = th_flags t (cmp2 eq64 r2 r3 (t_regs t))"
| "label_code L_CMP_LT r1 r2 r3 imm k t = th_flags t (cmp2 lt64 r2 r3 (t_regs t))"
| "label_code L_CMP_GT r1 r2 r3 imm k t = th_flags t (cmp2 gt64 r2 r3 (t_regs t))"
| "label_code L_JMP r1 r2 r3 imm k t = Go (t\<lparr>t_ip := sint imm\<rparr>)"
| "label_code L_JZ r1 r2 r3 imm k t = 
    Go (t\<lparr>t_ip := (if t_flags t = 0 then sint imm else t_ip t + 1)\<rparr>)"
| "label_code L_JNZ r1 r2 r3 imm k t = 
    Go (t\<lparr>t_ip := (if t_flags t \<noteq> 0 then sint imm else t_ip t + 1)\<rparr>)"
| "label_code L_MAC r1 r2 r3 imm k t = th_regs t (acc3 mac64 r1 r2 r3 (t_regs t))"
| "label_code L_DOT r1 r2 r3 imm k t = th_regs t (acc3 mac64 r1 r2 r3 (t_regs t))"
| "label_code L_POLY r1 r2 r3 imm k t = th_regs t (acc3 poly64 r1 r2 r3 (t_regs t))"
| "label_code L_ABS r1 r2 r3 imm k t = th_regs t (set2 abs64 r1 r2 (t_regs t))"
| "label_code L_MIN r1 r2 r3 imm k t = th_regs t (set3 min64 r1 r2 r3 (t_regs t))"
| "label_code L_MAX r1 r2 r3 imm k t = th_regs t (set3 max64 r1 r2 r3 (t_regs t))"
| "label_code L_EXT r1 r2 r3 imm k t = th_regs t (set3 k r1 r2 r3 (t_regs t))"

section \<open>Direct threaded interpreter\<close>

definition dtc_dispatch_table :: "op_label list" where
  "dtc_dispatch_table =
    [L_HALT, L_NOP,
     L_ADD, L_SUB, L_MUL,
     L_INC, L_DEC, L_NEG,
     L_AND, L_OR, L_XOR, L_NOT, L_SHL, L_SHR,
     L_LOAD_IMM, L_LOAD_REG, L_STORE,
     L_CMP_EQ, L_CMP_LT, L_CMP_GT,
     L_JMP, L_JZ, L_JNZ,
     L_MAC, L_DOT, L_POLY, L_ABS, L_MIN, L_MAX,
     L_EXT, L_EXT, L_EXT, L_EXT, L_EXT, L_EXT, L_EXT, L_EXT,
     L_EXT, L_EXT, L_EXT, L_EXT, L_EXT, L_EXT, L_EXT, L_EXT,
     L_EXT, L_EXT, L_EXT, L_EXT, L_EXT, L_EXT, L_EXT, L_EXT,
     L_EXT, L_EXT, L_EXT, L_EXT, L_EXT, L_EXT, L_EXT, L_EXT]"

definition dtc_step :: "Instruction \<Rightarrow> threaded \<Rightarrow> threaded step" where
  "dtc_step i t =
  (if unat (ins_op i) < length dtc_dispatch_table then
     label_code (dtc_dispatch_table ! unat (ins_op i)) (ins_r1 i) (ins_r2 i) (ins_r3 i) (ins_imm i)
       (ext64 (op_idx (ins_op i))) t
   else Undef)"

text \<open>
  \<open>threaded_loop\<close> is the macro \<^verbatim>\<open>DISPATCH()\<close> with the jumps between labels: the bounds check against
  the end, the cycle count, and the code at the label of the instruction.
\<close>

fun threaded_loop :: "('i \<Rightarrow> threaded \<Rightarrow> threaded step) \<Rightarrow> 'i list \<Rightarrow> nat \<Rightarrow> threaded \<Rightarrow>
    (u64 \<times> threaded) outcome option" where
  "threaded_loop step code fuel t =
  (if t_ip t \<ge> int (length code) then Some (Value (t_regs t ! 0, t))
   else if t_ip t < 0 then Some Undefined
   else case fuel of
     0 \<Rightarrow> None
   | Suc n \<Rightarrow>
       let i = code ! nat (t_ip t); t = t\<lparr>t_cycles := t_cycles t + 1\<rparr>
       in (case step i t of
             Go t' \<Rightarrow> threaded_loop step code n t'
           | Ret \<Rightarrow> Some (Value (t_regs t ! 0, t))
           | Undef \<Rightarrow> Some Undefined))"

declare threaded_loop.simps [simp del]

definition threaded_start :: "basic_VMState \<Rightarrow> threaded" where
  "threaded_start s = \<lparr>t_regs = regs s, t_flags = 0, t_ip = 0, t_cycles = cycle_count s\<rparr>"

text \<open>Only \<open>regs\<close> and \<open>cycle_count\<close> of the state are written back.\<close>

definition threaded_finish :: "basic_VMState \<Rightarrow> u64 \<times> threaded \<Rightarrow> u64 \<times> basic_VMState" where
  "threaded_finish s r = (case r of (v, t) \<Rightarrow> (v, s\<lparr>regs := t_regs t, cycle_count := t_cycles t\<rparr>))"

definition dtc_execute :: "Instruction list \<Rightarrow> nat \<Rightarrow> basic_VMState \<Rightarrow> (u64 \<times> basic_VMState) outcome option" where
  "dtc_execute code fuel s =
    map_option (map_outcome (threaded_finish s)) (threaded_loop dtc_step code fuel (threaded_start s))"

section \<open>Indirect threaded interpreter\<close>

record ITCInstruction =
  itc_handler :: op_label
  itc_r1 :: u8
  itc_r2 :: u8
  itc_r3 :: u8
  itc_op_idx :: u8
  itc_imm :: i32

definition itc_handlers :: "op_label list" where
  "itc_handlers =
    [L_HALT, L_NOP,
     L_ADD, L_SUB, L_MUL,
     L_INC, L_DEC, L_NEG,
     L_AND, L_OR, L_XOR, L_NOT, L_SHL, L_SHR,
     L_LOAD_IMM, L_LOAD_REG, L_STORE,
     L_CMP_EQ, L_CMP_LT, L_CMP_GT,
     L_JMP, L_JZ, L_JNZ,
     L_MAC, L_DOT, L_POLY, L_ABS, L_MIN, L_MAX]"

text \<open>Compiling one instruction; \<open>Undefined\<close> is the read past the end of the label array.\<close>

definition itc_compile_instr :: "Instruction \<Rightarrow> ITCInstruction outcome" where
  "itc_compile_instr i =
  (let idx = unat (ins_op i);
       k = (if ins_op i \<ge> OP_OP32 then ins_op i - OP_OP32 else 0);
       mk = (\<lambda>h. \<lparr>itc_handler = h, itc_r1 = ins_r1 i, itc_r2 = ins_r2 i, itc_r3 = ins_r3 i,
                    itc_op_idx = k, itc_imm = ins_imm i\<rparr>)
   in if idx < NUM_BASIC_OPS then
        (if idx < length itc_handlers then Value (mk (itc_handlers ! idx)) else Undefined)
      else Value (mk L_EXT))"

fun itc_compile :: "Instruction list \<Rightarrow> ITCInstruction list outcome" where
  "itc_compile [] = Value []"
| "itc_compile (i # code) =
    (case itc_compile_instr i of
       Undefined \<Rightarrow> Undefined
     | Value c \<Rightarrow> map_outcome ((#) c) (itc_compile code))"

definition itc_step :: "ITCInstruction \<Rightarrow> threaded \<Rightarrow> threaded step" where
  "itc_step c t =
    label_code (itc_handler c) (itc_r1 c) (itc_r2 c) (itc_r3 c) (itc_imm c)
      (ext64 (ucast (itc_op_idx c))) t"

definition itc_compile_and_execute ::
    "Instruction list \<Rightarrow> nat \<Rightarrow> basic_VMState \<Rightarrow> (u64 \<times> basic_VMState) outcome option" where
  "itc_compile_and_execute code fuel s =
  (case itc_compile code of
     Undefined \<Rightarrow> Some Undefined
   | Value itc_code \<Rightarrow>
       map_option (map_outcome (threaded_finish s)) (threaded_loop itc_step itc_code fuel (threaded_start s)))"

section \<open>Token threaded interpreter\<close>

record CompactInstruction =
  ci_op :: u8
  ci_r1_r2 :: u8
  ci_r3 :: u8
  ci_padding :: u8
  ci_imm :: i32

definition ttc_compile_instr :: "Instruction \<Rightarrow> CompactInstruction" where
  "ttc_compile_instr i =
    \<lparr>ci_op = ins_op i,
     ci_r1_r2 = (push_bit 4 (ins_r1 i AND 0x0F) OR (ins_r2 i AND 0x0F)),
     ci_r3 = (ins_r3 i AND 0x0F),
     ci_padding = 0,
     ci_imm = ins_imm i\<rparr>"

definition ttc_compile :: "Instruction list \<Rightarrow> CompactInstruction list" where
  "ttc_compile code = map ttc_compile_instr code"

definition ttc_R1 :: "CompactInstruction \<Rightarrow> u8" where "ttc_R1 c = drop_bit 4 (ci_r1_r2 c)"
definition ttc_R2 :: "CompactInstruction \<Rightarrow> u8" where "ttc_R2 c = (ci_r1_r2 c AND 0x0F)"
definition ttc_R3 :: "CompactInstruction \<Rightarrow> u8" where "ttc_R3 c = ci_r3 c"

definition ttc_dispatch_table :: "op_label list" where
  "ttc_dispatch_table =
    [L_HALT, L_NOP,
     L_ADD, L_SUB, L_MUL,
     L_INC, L_DEC, L_NEG,
     L_AND, L_OR, L_XOR, L_NOT, L_SHL, L_SHR,
     L_LOAD_IMM, L_LOAD_REG, L_STORE,
     L_CMP_EQ, L_CMP_LT, L_CMP_GT,
     L_JMP, L_JZ, L_JNZ,
     L_MAC, L_DOT, L_POLY, L_ABS, L_MIN, L_MAX,
     L_EXT, L_EXT, L_EXT, L_EXT, L_EXT, L_EXT, L_EXT, L_EXT,
     L_EXT, L_EXT, L_EXT, L_EXT, L_EXT, L_EXT, L_EXT, L_EXT,
     L_EXT, L_EXT, L_EXT, L_EXT, L_EXT, L_EXT, L_EXT, L_EXT,
     L_EXT, L_EXT, L_EXT, L_EXT, L_EXT, L_EXT, L_EXT, L_EXT]"

text \<open>\<^verbatim>\<open>ip->op - NUM_BASIC_OPS\<close> is computed in \<^verbatim>\<open>size_t\<close>, and so is what it is combined with.\<close>

definition ttc_step :: "CompactInstruction \<Rightarrow> threaded \<Rightarrow> threaded step" where
  "ttc_step c t =
  (if unat (ci_op c) < length ttc_dispatch_table then
     label_code (ttc_dispatch_table ! unat (ci_op c)) (ttc_R1 c) (ttc_R2 c) (ttc_R3 c) (ci_imm c)
       (ext_size (ucast (ci_op c) - of_nat NUM_BASIC_OPS)) t
   else Undef)"

definition ttc_execute ::
    "CompactInstruction list \<Rightarrow> nat \<Rightarrow> basic_VMState \<Rightarrow> (u64 \<times> basic_VMState) outcome option" where
  "ttc_execute code fuel s =
    map_option (map_outcome (threaded_finish s)) (threaded_loop ttc_step code fuel (threaded_start s))"

section \<open>Subroutine threaded interpreter\<close>

text \<open>
  A handler returns whether to go on; here \<open>Go\<close> is true, \<open>Ret\<close> is false. The parameters \<^verbatim>\<open>base\<close> and
  \<^verbatim>\<open>size\<close> are not used by any handler.
\<close>

type_synonym HandlerFn = "basic_VMState \<Rightarrow> Instruction \<Rightarrow> basic_VMState step"

definition stc_handle_halt :: HandlerFn where
  "stc_handle_halt s i = Ret"

definition stc_handle_nop :: HandlerFn where
  "stc_handle_nop s i = Go (s\<lparr>ip := ip s + 1\<rparr>)"

definition stc_handle_add :: HandlerFn where
  "stc_handle_add s i = sw_regs s (set3 add64 (ins_r1 i) (ins_r2 i) (ins_r3 i) (regs s))"

definition stc_handle_sub :: HandlerFn where
  "stc_handle_sub s i = sw_regs s (set3 sub64 (ins_r1 i) (ins_r2 i) (ins_r3 i) (regs s))"

definition stc_handle_mul :: HandlerFn where
  "stc_handle_mul s i = sw_regs s (set3 mul64 (ins_r1 i) (ins_r2 i) (ins_r3 i) (regs s))"

definition stc_handle_inc :: HandlerFn where
  "stc_handle_inc s i = sw_regs s (mod1 inc64 (ins_r1 i) (regs s))"

definition stc_handle_dec :: HandlerFn where
  "stc_handle_dec s i = sw_regs s (mod1 dec64 (ins_r1 i) (regs s))"

definition stc_handle_neg :: HandlerFn where
  "stc_handle_neg s i = sw_regs s (set2 neg64 (ins_r1 i) (ins_r2 i) (regs s))"

definition stc_handle_and_op :: HandlerFn where
  "stc_handle_and_op s i = sw_regs s (set3 and64 (ins_r1 i) (ins_r2 i) (ins_r3 i) (regs s))"

definition stc_handle_or_op :: HandlerFn where
  "stc_handle_or_op s i = sw_regs s (set3 or64 (ins_r1 i) (ins_r2 i) (ins_r3 i) (regs s))"

definition stc_handle_xor_op :: HandlerFn where
  "stc_handle_xor_op s i = sw_regs s (set3 xor64 (ins_r1 i) (ins_r2 i) (ins_r3 i) (regs s))"

definition stc_handle_not_op :: HandlerFn where
  "stc_handle_not_op s i = sw_regs s (set2 not64 (ins_r1 i) (ins_r2 i) (regs s))"

definition stc_handle_shl :: HandlerFn where
  "stc_handle_shl s i = sw_regs s (set3 shl64 (ins_r1 i) (ins_r2 i) (ins_r3 i) (regs s))"

definition stc_handle_shr :: HandlerFn where
  "stc_handle_shr s i = sw_regs s (set3 shr64 (ins_r1 i) (ins_r2 i) (ins_r3 i) (regs s))"

definition stc_handle_load_imm :: HandlerFn where
  "stc_handle_load_imm s i = sw_regs s (set1 (scast (ins_imm i)) (ins_r1 i) (regs s))"

definition stc_handle_load_reg :: HandlerFn where
  "stc_handle_load_reg s i = sw_regs s (set2 id64 (ins_r1 i) (ins_r2 i) (regs s))"

definition stc_handle_store :: HandlerFn where
  "stc_handle_store s i = sw_regs s (set2 id64 (ins_r1 i) (ins_r2 i) (regs s))"

definition stc_handle_cmp_eq :: HandlerFn where
  "stc_handle_cmp_eq s i = sw_flags s (cmp2 eq64 (ins_r2 i) (ins_r3 i) (regs s))"

definition stc_handle_cmp_lt :: HandlerFn where
  "stc_handle_cmp_lt s i = sw_flags s (cmp2 lt64 (ins_r2 i) (ins_r3 i) (regs s))"

definition stc_handle_cmp_gt :: HandlerFn where
  "stc_handle_cmp_gt s i = sw_flags s (cmp2 gt64 (ins_r2 i) (ins_r3 i) (regs s))"

definition stc_handle_jmp :: HandlerFn where
  "stc_handle_jmp s i = Go (s\<lparr>ip := size_of_imm (ins_imm i)\<rparr>)"

definition stc_handle_jz :: HandlerFn where
  "stc_handle_jz s i = Go (s\<lparr>ip := (if flags s = 0 then size_of_imm (ins_imm i) else ip s + 1)\<rparr>)"

definition stc_handle_jnz :: HandlerFn where
  "stc_handle_jnz s i = Go (s\<lparr>ip := (if flags s \<noteq> 0 then size_of_imm (ins_imm i) else ip s + 1)\<rparr>)"

definition stc_handle_mac :: HandlerFn where
  "stc_handle_mac s i = sw_regs s (acc3 mac64 (ins_r1 i) (ins_r2 i) (ins_r3 i) (regs s))"

definition stc_handle_dot :: HandlerFn where
  "stc_handle_dot s i = sw_regs s (acc3 mac64 (ins_r1 i) (ins_r2 i) (ins_r3 i) (regs s))"

definition stc_handle_poly :: HandlerFn where
  "stc_handle_poly s i = sw_regs s (acc3 poly64 (ins_r1 i) (ins_r2 i) (ins_r3 i) (regs s))"

definition stc_handle_abs_op :: HandlerFn where
  "stc_handle_abs_op s i = sw_regs s (set2 abs64 (ins_r1 i) (ins_r2 i) (regs s))"

definition stc_handle_min_op :: HandlerFn where
  "stc_handle_min_op s i = sw_regs s (set3 min64 (ins_r1 i) (ins_r2 i) (ins_r3 i) (regs s))"

definition stc_handle_max_op :: HandlerFn where
  "stc_handle_max_op s i = sw_regs s (set3 max64 (ins_r1 i) (ins_r2 i) (ins_r3 i) (regs s))"

definition stc_handle_ext :: HandlerFn where
  "stc_handle_ext s i =
    sw_regs s (set3 (ext64 (op_idx (ins_op i))) (ins_r1 i) (ins_r2 i) (ins_r3 i) (regs s))"

lemmas stc_defs [vm_defs] =
  stc_handle_halt_def
  stc_handle_nop_def
  stc_handle_add_def
  stc_handle_sub_def
  stc_handle_mul_def
  stc_handle_inc_def
  stc_handle_dec_def
  stc_handle_neg_def
  stc_handle_and_op_def
  stc_handle_or_op_def
  stc_handle_xor_op_def
  stc_handle_not_op_def
  stc_handle_shl_def
  stc_handle_shr_def
  stc_handle_load_imm_def
  stc_handle_load_reg_def
  stc_handle_store_def
  stc_handle_cmp_eq_def
  stc_handle_cmp_lt_def
  stc_handle_cmp_gt_def
  stc_handle_jmp_def
  stc_handle_jz_def
  stc_handle_jnz_def
  stc_handle_mac_def
  stc_handle_dot_def
  stc_handle_poly_def
  stc_handle_abs_op_def
  stc_handle_min_op_def
  stc_handle_max_op_def
  stc_handle_ext_def

definition stc_handlers :: "HandlerFn list" where
  "stc_handlers =
    [stc_handle_halt, stc_handle_nop, stc_handle_add, stc_handle_sub,
     stc_handle_mul, stc_handle_inc, stc_handle_dec, stc_handle_neg,
     stc_handle_and_op, stc_handle_or_op, stc_handle_xor_op, stc_handle_not_op,
     stc_handle_shl, stc_handle_shr, stc_handle_load_imm, stc_handle_load_reg,
     stc_handle_store, stc_handle_cmp_eq, stc_handle_cmp_lt, stc_handle_cmp_gt,
     stc_handle_jmp, stc_handle_jz, stc_handle_jnz, stc_handle_mac,
     stc_handle_dot, stc_handle_poly, stc_handle_abs_op, stc_handle_min_op,
     stc_handle_max_op,
     stc_handle_ext, stc_handle_ext, stc_handle_ext, stc_handle_ext, stc_handle_ext, stc_handle_ext, stc_handle_ext, stc_handle_ext,
     stc_handle_ext, stc_handle_ext, stc_handle_ext, stc_handle_ext, stc_handle_ext, stc_handle_ext, stc_handle_ext, stc_handle_ext,
     stc_handle_ext, stc_handle_ext, stc_handle_ext, stc_handle_ext, stc_handle_ext, stc_handle_ext, stc_handle_ext, stc_handle_ext,
     stc_handle_ext, stc_handle_ext, stc_handle_ext, stc_handle_ext, stc_handle_ext, stc_handle_ext, stc_handle_ext, stc_handle_ext]"

fun stc_execute :: "Instruction list \<Rightarrow> nat \<Rightarrow> basic_VMState \<Rightarrow> (u64 \<times> basic_VMState) outcome option" where
  "stc_execute code fuel s =
  (if ip s < length code then
     case fuel of
       0 \<Rightarrow> None
     | Suc n \<Rightarrow>
         let s = s\<lparr>cycle_count := cycle_count s + 1\<rparr>;
             i = code ! ip s;
             idx = unat (ins_op i);
             idx = (if idx \<ge> length stc_handlers then NUM_BASIC_OPS else idx)
         in (case (stc_handlers ! idx) s i of
               Go s' \<Rightarrow> stc_execute code n s'
             | Ret \<Rightarrow> Some (Value (regs s ! 0, s))
             | Undef \<Rightarrow> Some Undefined)
   else Some (Value (regs s ! 0, s)))"

declare stc_execute.simps [simp del]

section \<open>Call threaded interpreter\<close>

text \<open>
  The context holds the instruction pointer as an offset from the first instruction and the flags
  of the caller; \<open>c_size\<close> is the number of instructions. A handler takes the instruction \<^verbatim>\<open>*ctx.ip\<close>
  as an argument.
\<close>

record ct_context =
  c_regs :: "i64 list"
  c_flags :: u64
  c_ip :: int
  c_size :: nat
  c_cycles :: u64

definition ct_regs :: "ct_context \<Rightarrow> i64 list outcome \<Rightarrow> ct_context outcome" where
  "ct_regs c r = (case r of Value rs \<Rightarrow> Value (c\<lparr>c_regs := rs, c_ip := c_ip c + 1\<rparr>) | Undefined \<Rightarrow> Undefined)"

definition ct_flags :: "ct_context \<Rightarrow> u64 outcome \<Rightarrow> ct_context outcome" where
  "ct_flags c r = (case r of Value f \<Rightarrow> Value (c\<lparr>c_flags := f, c_ip := c_ip c + 1\<rparr>) | Undefined \<Rightarrow> Undefined)"

type_synonym ct_handler = "Instruction \<Rightarrow> ct_context \<Rightarrow> ct_context outcome"

definition ct_h_halt :: ct_handler where
  "ct_h_halt i c = Value (c\<lparr>c_ip := int (c_size c)\<rparr>)"

definition ct_h_nop :: ct_handler where
  "ct_h_nop i c = Value (c\<lparr>c_ip := c_ip c + 1\<rparr>)"

definition ct_h_add :: ct_handler where
  "ct_h_add i c = ct_regs c (set3 add64 (ins_r1 i) (ins_r2 i) (ins_r3 i) (c_regs c))"

definition ct_h_sub :: ct_handler where
  "ct_h_sub i c = ct_regs c (set3 sub64 (ins_r1 i) (ins_r2 i) (ins_r3 i) (c_regs c))"

definition ct_h_mul :: ct_handler where
  "ct_h_mul i c = ct_regs c (set3 mul64 (ins_r1 i) (ins_r2 i) (ins_r3 i) (c_regs c))"

definition ct_h_inc :: ct_handler where
  "ct_h_inc i c = ct_regs c (mod1 inc64 (ins_r1 i) (c_regs c))"

definition ct_h_dec :: ct_handler where
  "ct_h_dec i c = ct_regs c (mod1 dec64 (ins_r1 i) (c_regs c))"

definition ct_h_neg :: ct_handler where
  "ct_h_neg i c = ct_regs c (set2 neg64 (ins_r1 i) (ins_r2 i) (c_regs c))"

definition ct_h_and_op :: ct_handler where
  "ct_h_and_op i c = ct_regs c (set3 and64 (ins_r1 i) (ins_r2 i) (ins_r3 i) (c_regs c))"

definition ct_h_or_op :: ct_handler where
  "ct_h_or_op i c = ct_regs c (set3 or64 (ins_r1 i) (ins_r2 i) (ins_r3 i) (c_regs c))"

definition ct_h_xor_op :: ct_handler where
  "ct_h_xor_op i c = ct_regs c (set3 xor64 (ins_r1 i) (ins_r2 i) (ins_r3 i) (c_regs c))"

definition ct_h_not_op :: ct_handler where
  "ct_h_not_op i c = ct_regs c (set2 not64 (ins_r1 i) (ins_r2 i) (c_regs c))"

definition ct_h_shl :: ct_handler where
  "ct_h_shl i c = ct_regs c (set3 shl64 (ins_r1 i) (ins_r2 i) (ins_r3 i) (c_regs c))"

definition ct_h_shr :: ct_handler where
  "ct_h_shr i c = ct_regs c (set3 shr64 (ins_r1 i) (ins_r2 i) (ins_r3 i) (c_regs c))"

definition ct_h_load_imm :: ct_handler where
  "ct_h_load_imm i c = ct_regs c (set1 (scast (ins_imm i)) (ins_r1 i) (c_regs c))"

definition ct_h_load_reg :: ct_handler where
  "ct_h_load_reg i c = ct_regs c (set2 id64 (ins_r1 i) (ins_r2 i) (c_regs c))"

definition ct_h_store :: ct_handler where
  "ct_h_store i c = ct_regs c (set2 id64 (ins_r1 i) (ins_r2 i) (c_regs c))"

definition ct_h_cmp_eq :: ct_handler where
  "ct_h_cmp_eq i c = ct_flags c (cmp2 eq64 (ins_r2 i) (ins_r3 i) (c_regs c))"

definition ct_h_cmp_lt :: ct_handler where
  "ct_h_cmp_lt i c = ct_flags c (cmp2 lt64 (ins_r2 i) (ins_r3 i) (c_regs c))"

definition ct_h_cmp_gt :: ct_handler where
  "ct_h_cmp_gt i c = ct_flags c (cmp2 gt64 (ins_r2 i) (ins_r3 i) (c_regs c))"

definition ct_h_jmp :: ct_handler where
  "ct_h_jmp i c = Value (c\<lparr>c_ip := sint (ins_imm i)\<rparr>)"

definition ct_h_jz :: ct_handler where
  "ct_h_jz i c = Value (c\<lparr>c_ip := (if c_flags c = 0 then sint (ins_imm i) else c_ip c + 1)\<rparr>)"

definition ct_h_jnz :: ct_handler where
  "ct_h_jnz i c = Value (c\<lparr>c_ip := (if c_flags c \<noteq> 0 then sint (ins_imm i) else c_ip c + 1)\<rparr>)"

definition ct_h_mac :: ct_handler where
  "ct_h_mac i c = ct_regs c (acc3 mac64 (ins_r1 i) (ins_r2 i) (ins_r3 i) (c_regs c))"

definition ct_h_dot :: ct_handler where
  "ct_h_dot i c = ct_regs c (acc3 mac64 (ins_r1 i) (ins_r2 i) (ins_r3 i) (c_regs c))"

definition ct_h_poly :: ct_handler where
  "ct_h_poly i c = ct_regs c (acc3 poly64 (ins_r1 i) (ins_r2 i) (ins_r3 i) (c_regs c))"

definition ct_h_abs_op :: ct_handler where
  "ct_h_abs_op i c = ct_regs c (set2 abs64 (ins_r1 i) (ins_r2 i) (c_regs c))"

definition ct_h_min_op :: ct_handler where
  "ct_h_min_op i c = ct_regs c (set3 min64 (ins_r1 i) (ins_r2 i) (ins_r3 i) (c_regs c))"

definition ct_h_max_op :: ct_handler where
  "ct_h_max_op i c = ct_regs c (set3 max64 (ins_r1 i) (ins_r2 i) (ins_r3 i) (c_regs c))"

definition ct_h_ext :: ct_handler where
  "ct_h_ext i c =
    ct_regs c (set3 (ext64 (op_idx (ins_op i))) (ins_r1 i) (ins_r2 i) (ins_r3 i) (c_regs c))"

lemmas ct_defs [vm_defs] =
  ct_h_halt_def
  ct_h_nop_def
  ct_h_add_def
  ct_h_sub_def
  ct_h_mul_def
  ct_h_inc_def
  ct_h_dec_def
  ct_h_neg_def
  ct_h_and_op_def
  ct_h_or_op_def
  ct_h_xor_op_def
  ct_h_not_op_def
  ct_h_shl_def
  ct_h_shr_def
  ct_h_load_imm_def
  ct_h_load_reg_def
  ct_h_store_def
  ct_h_cmp_eq_def
  ct_h_cmp_lt_def
  ct_h_cmp_gt_def
  ct_h_jmp_def
  ct_h_jz_def
  ct_h_jnz_def
  ct_h_mac_def
  ct_h_dot_def
  ct_h_poly_def
  ct_h_abs_op_def
  ct_h_min_op_def
  ct_h_max_op_def
  ct_h_ext_def

definition ct_handlers :: "ct_handler list" where
  "ct_handlers =
    [ct_h_halt, ct_h_nop, ct_h_add, ct_h_sub, ct_h_mul, ct_h_inc,
     ct_h_dec, ct_h_neg, ct_h_and_op, ct_h_or_op, ct_h_xor_op, ct_h_not_op,
     ct_h_shl, ct_h_shr, ct_h_load_imm, ct_h_load_reg, ct_h_store, ct_h_cmp_eq,
     ct_h_cmp_lt, ct_h_cmp_gt, ct_h_jmp, ct_h_jz, ct_h_jnz, ct_h_mac,
     ct_h_dot, ct_h_poly, ct_h_abs_op, ct_h_min_op, ct_h_max_op,
     ct_h_ext, ct_h_ext, ct_h_ext, ct_h_ext, ct_h_ext, ct_h_ext, ct_h_ext, ct_h_ext,
     ct_h_ext, ct_h_ext, ct_h_ext, ct_h_ext, ct_h_ext, ct_h_ext, ct_h_ext, ct_h_ext,
     ct_h_ext, ct_h_ext, ct_h_ext, ct_h_ext, ct_h_ext, ct_h_ext, ct_h_ext, ct_h_ext,
     ct_h_ext, ct_h_ext, ct_h_ext, ct_h_ext, ct_h_ext, ct_h_ext, ct_h_ext, ct_h_ext]"

fun ct_loop :: "Instruction list \<Rightarrow> nat \<Rightarrow> ct_context \<Rightarrow> (u64 \<times> ct_context) outcome option" where
  "ct_loop code fuel c =
  (if c_ip c < int (c_size c) then
     if c_ip c < 0 then Some Undefined
     else case fuel of
       0 \<Rightarrow> None
     | Suc n \<Rightarrow>
         let c = c\<lparr>c_cycles := c_cycles c + 1\<rparr>;
             i = code ! nat (c_ip c);
             idx = unat (ins_op i);
             idx = (if idx \<ge> length ct_handlers then NUM_BASIC_OPS else idx)
         in (case (ct_handlers ! idx) i c of
               Value c' \<Rightarrow> ct_loop code n c'
             | Undefined \<Rightarrow> Some Undefined)
   else Some (Value (c_regs c ! 0, c)))"

declare ct_loop.simps [simp del]

definition ct_execute :: "Instruction list \<Rightarrow> nat \<Rightarrow> basic_VMState \<Rightarrow> (u64 \<times> basic_VMState) outcome option" where
  "ct_execute code fuel s =
    map_option (map_outcome (\<lambda>(v, c). (v, s\<lparr>regs := c_regs c, cycle_count := c_cycles c\<rparr>)))
      (ct_loop code fuel
        \<lparr>c_regs = regs s, c_flags = 0, c_ip = 0, c_size = length code, c_cycles = cycle_count s\<rparr>)"

end
