(* ===== verification/Register_VM_Equiv.thy ===== *)
theory Register_VM_Equiv
  imports Register_VM
begin

text \<open>
  The interpreters of \<^verbatim>\<open>src/perf/threaded_code/basic.cpp\<close> against the switch interpreter. A step of a
  label-based interpreter simulates a step of the switch (locale \<open>threaded_implementation\<close>); an
  interpreter whose runs return the switch interpreter's value, registers and cycle count is a
  \<open>faithful_interpreter\<close>, and clients of any interpreter rely on that interface.
\<close>

section \<open>Opcodes\<close>

lemma u8_mem_upt:
  assumes "(w :: u8) < 29"
  shows "w = 0 \<or> w = 1 \<or> w \<in> of_nat ` set [2..<29]"
proof -
  have w: "w = of_nat (unat w)" by simp
  from assms have "unat w < 29" by (simp add: word_less_nat_alt)
  then consider "unat w = 0" | "unat w = 1" | "unat w \<in> set [2..<29]"
    unfolding set_upt atLeastLessThan_iff by linarith
  then show ?thesis
  proof cases
    case 3
    have "w \<in> of_nat ` set [2..<29]"
      by (subst w) (rule imageI, rule 3)
    then show ?thesis by (intro disjI2)
  qed (simp_all add: word_unat_eq_iff)
qed

lemma basic_op_cases:
  "(w :: u8) < 29 \<Longrightarrow> w = 0 \<or> w = 1 \<or> w = 2 \<or> w = 3 \<or> w = 4 \<or> w = 5 \<or> w = 6 \<or> w = 7 \<or> w = 8 \<or>
    w = 9 \<or> w = 10 \<or> w = 11 \<or> w = 12 \<or> w = 13 \<or> w = 14 \<or> w = 15 \<or> w = 16 \<or> w = 17 \<or> w = 18 \<or>
    w = 19 \<or> w = 20 \<or> w = 21 \<or> w = 22 \<or> w = 23 \<or> w = 24 \<or> w = 25 \<or> w = 26 \<or> w = 27 \<or> w = 28"
  using u8_mem_upt [of w] by simp

lemma size_of_imm_nonneg:
  assumes "0 \<le> sint w"
  shows "int (size_of_imm w) = sint w"
proof -
  have "sint w < 2 ^ 31" using sint_lt [of w] by simp
  then have "take_bit 64 (sint w) = sint w"
    using assms by (intro take_bit_int_eq_self) simp_all
  moreover have "uint (scast w :: u64) = take_bit 64 (sint w)"
    unfolding scast_eq uint_word_of_int_eq by simp
  moreover have "int (size_of_imm w) = uint (scast w :: u64)"
    unfolding size_of_imm_def by (rule uint_nat [symmetric])
  ultimately show ?thesis by simp
qed

definition is_jump :: "u8 \<Rightarrow> bool" where
  "is_jump w \<longleftrightarrow> w = OP_JMP \<or> w = OP_JZ \<or> w = OP_JNZ"

definition regs_in_range :: "Instruction \<Rightarrow> bool" where
  "regs_in_range i \<longleftrightarrow> rok (ins_r1 i) \<and> rok (ins_r2 i) \<and> rok (ins_r3 i)"

text \<open>
  Where each interpreter agrees with the switch. The pointer-based ones need jump targets that are
  not negative; the indirect threaded one reads its label array out of bounds for \<open>OP32\<close> to
  \<open>OP34\<close>; the token threaded one keeps four bits of a register number and computes another
  extension operand.
\<close>

definition ptr_ok :: "Instruction \<Rightarrow> bool" where
  "ptr_ok i \<longleftrightarrow> ins_op i < NUM_OPCODES \<and> (is_jump (ins_op i) \<longrightarrow> 0 \<le> sint (ins_imm i))"

definition itc_ok :: "Instruction \<Rightarrow> bool" where
  "itc_ok i \<longleftrightarrow> ptr_ok i \<and> (ins_op i < OP_OP32 \<or> 32 \<le> ins_op i)"

definition ttc_ok :: "Instruction \<Rightarrow> bool" where
  "ttc_ok i \<longleftrightarrow> ptr_ok i \<and> ins_op i < OP_OP32 \<and> regs_in_range i"

definition op_ok :: "Instruction \<Rightarrow> bool" where
  "op_ok i \<longleftrightarrow> ins_op i < NUM_OPCODES"

section \<open>Label-based interpreters\<close>

definition threaded_of :: "basic_VMState \<Rightarrow> threaded" where
  "threaded_of s = \<lparr>t_regs = regs s, t_flags = flags s, t_ip = int (ip s), t_cycles = cycle_count s\<rparr>"

lemma threaded_of_simps [simp]:
  "t_regs (threaded_of s) = regs s" "t_flags (threaded_of s) = flags s"
  "t_ip (threaded_of s) = int (ip s)" "t_cycles (threaded_of s) = cycle_count s"
  by (simp_all add: threaded_of_def)

lemma th_sw [simp]:
  "th_regs (threaded_of s) r = map_step threaded_of (sw_regs s r)"
  "th_flags (threaded_of s) f = map_step threaded_of (sw_flags s f)"
  by (simp_all add: th_regs_def sw_regs_def th_flags_def sw_flags_def threaded_of_def split: outcome.split)

text \<open>The label of an opcode, and that the code at the label does what the switch case does.\<close>

definition basic_labels :: "op_label list" where
  "basic_labels =
    [L_HALT, L_NOP, L_ADD, L_SUB, L_MUL, L_INC, L_DEC, L_NEG, L_AND, L_OR, L_XOR, L_NOT, L_SHL,
     L_SHR, L_LOAD_IMM, L_LOAD_REG, L_STORE, L_CMP_EQ, L_CMP_LT, L_CMP_GT, L_JMP, L_JZ, L_JNZ,
     L_MAC, L_DOT, L_POLY, L_ABS, L_MIN, L_MAX]"

lemma label_code_switch:
  assumes "ins_op i < 29" and "is_jump (ins_op i) \<Longrightarrow> 0 \<le> sint (ins_imm i)"
  shows "label_code (basic_labels ! unat (ins_op i)) (ins_r1 i) (ins_r2 i) (ins_r3 i) (ins_imm i) k
      (threaded_of s) = map_step threaded_of (switch_step i s)"
  using basic_op_cases [OF assms(1)] assms(2)
  by (elim disjE; simp add: basic_labels_def switch_step_def is_jump_def size_of_imm_nonneg;
      simp add: threaded_of_def size_of_imm_nonneg)

lemma switch_step_ext:
  assumes "29 \<le> ins_op i" and "ins_op i < 61"
  shows "switch_step i s =
    sw_regs s (set3 (ext64 (op_idx (ins_op i))) (ins_r1 i) (ins_r2 i) (ins_r3 i) (regs s))"
proof -
  have ne: "ins_op i \<noteq> k" if "k < 29" for k
    using assms(1) that by auto
  show ?thesis
    using assms by (simp add: switch_step_def ne)
qed

lemma unat_op_less: "w < (61 :: u8) \<Longrightarrow> unat w < 61"
  by (simp add: word_less_nat_alt)

lemma dtc_table: "dtc_dispatch_table = basic_labels @ replicate 32 L_EXT"
  by (simp add: dtc_dispatch_table_def basic_labels_def numeral_eq_Suc)

lemma ttc_table: "ttc_dispatch_table = basic_labels @ replicate 32 L_EXT"
  by (simp add: ttc_dispatch_table_def basic_labels_def numeral_eq_Suc)

lemma length_basic_labels [simp]: "length basic_labels = 29"
  by (simp add: basic_labels_def)

text \<open>
  The interface of a label-based interpreter: what compiling an admissible instruction gives is
  executed like the switch executes the instruction.
\<close>

locale threaded_implementation =
  fixes step :: "'i \<Rightarrow> threaded \<Rightarrow> threaded step" and comp :: "Instruction \<Rightarrow> 'i"
    and ok :: "Instruction \<Rightarrow> bool"
  assumes step_switch: "ok i \<Longrightarrow> step (comp i) (threaded_of s) = map_step threaded_of (switch_step i s)"
begin

lemma loop_switch:
  assumes "list_all ok code"
  shows "threaded_loop step (map comp code) fuel (threaded_of s) =
    map_option (map_outcome (\<lambda>(v, s). (v, threaded_of s))) (switch_execute code fuel s)"
proof (induction fuel arbitrary: s)
  case 0
  then show ?case
    by (subst threaded_loop.simps, subst switch_execute.simps) simp
next
  case (Suc n)
  show ?case
  proof (cases "ip s < length code")
    case True
    let ?s = "s\<lparr>cycle_count := cycle_count s + 1\<rparr>"
    have t: "(threaded_of s)\<lparr>t_cycles := cycle_count s + 1\<rparr> = threaded_of ?s"
      by (simp add: threaded_of_def)
    have "ok (code ! ip s)" using assms True by (simp add: list_all_length)
    from step_switch [OF this] True Suc show ?thesis
      by (subst threaded_loop.simps, subst switch_execute.simps)
        (simp add: t Let_def split: step.split)
  next
    case False
    then show ?thesis
      by (subst threaded_loop.simps, subst switch_execute.simps) simp
  qed
qed

text \<open>Seen from outside: value, registers and cycle count.\<close>

lemma execute_switch:
  assumes "list_all ok code" and "ip s = 0" and "flags s = 0"
  shows "map_option (map_outcome (\<lambda>(v, s'). (v, regs s', cycle_count s')))
      (map_option (map_outcome (threaded_finish s)) (threaded_loop step (map comp code) fuel (threaded_start s))) =
    map_option (map_outcome (\<lambda>(v, s'). (v, regs s', cycle_count s'))) (switch_execute code fuel s)"
proof -
  have "threaded_start s = threaded_of s"
    using assms(2,3) by (simp add: threaded_start_def threaded_of_def)
  then show ?thesis
    unfolding option.map_comp comp_def outcome.map_comp
    by (simp add: loop_switch [OF assms(1)] option.map_comp outcome.map_comp comp_def
        threaded_finish_def case_prod_unfold cong: map_option_cong)
qed

end

subsection \<open>Direct threaded\<close>

lemma dtc_step_switch:
  assumes "ptr_ok i"
  shows "dtc_step i (threaded_of s) = map_step threaded_of (switch_step i s)"
proof (cases "ins_op i < 29")
  case True
  then have "unat (ins_op i) < 29" by (simp add: word_less_nat_alt)
  with True assms label_code_switch [of i "ext64 (op_idx (ins_op i))" s] show ?thesis
    by (simp add: dtc_step_def dtc_table nth_append ptr_ok_def)
next
  case False
  then have "29 \<le> ins_op i" by simp
  moreover from this have "29 \<le> unat (ins_op i)" by (simp add: word_le_nat_alt)
  moreover have "unat (ins_op i) < 61" "ins_op i < 61"
    using assms by (simp_all add: ptr_ok_def unat_op_less)
  ultimately show ?thesis
    by (simp add: dtc_step_def dtc_table nth_append switch_step_ext)
qed

interpretation dtc: threaded_implementation dtc_step id ptr_ok
  by unfold_locales (simp add: dtc_step_switch)

subsection \<open>Indirect threaded\<close>

definition itc_instr :: "Instruction \<Rightarrow> ITCInstruction" where
  "itc_instr i =
    \<lparr>itc_handler = (if ins_op i < 29 then basic_labels ! unat (ins_op i) else L_EXT),
     itc_r1 = ins_r1 i, itc_r2 = ins_r2 i, itc_r3 = ins_r3 i,
     itc_op_idx = (if ins_op i \<ge> 29 then ins_op i - 29 else 0), itc_imm = ins_imm i\<rparr>"

lemma itc_compile_instr_ok:
  assumes "itc_ok i"
  shows "itc_compile_instr i = Value (itc_instr i)"
proof -
  have t: "itc_handlers = basic_labels" by (simp add: itc_handlers_def basic_labels_def)
  from assms consider "ins_op i < 29" | "32 \<le> ins_op i" by (auto simp: itc_ok_def)
  then show ?thesis
  proof cases
    case 1
    then show ?thesis
      by (simp add: itc_compile_instr_def t itc_instr_def word_less_nat_alt Let_def)
  next
    case 2
    then have "29 \<le> ins_op i" by (rule order.trans [rotated]) simp
    moreover from this have "\<not> ins_op i < 29" by simp
    moreover have "\<not> unat (ins_op i) < 32" using 2 by (simp add: word_le_nat_alt)
    ultimately show ?thesis
      by (simp add: itc_compile_instr_def itc_instr_def Let_def)
  qed
qed

lemma itc_compile_ok: "list_all itc_ok code \<Longrightarrow> itc_compile code = Value (map itc_instr code)"
  by (induction code) (simp_all add: itc_compile_instr_ok)

lemma ucast_op_idx:
  assumes "29 \<le> (w :: u8)"
  shows "(ucast (w - 29) :: u64) = op_idx w"
proof -
  have le: "29 \<le> unat w" using assms by (simp add: word_le_nat_alt)
  have "unat (w - 29) = unat w - 29"
    using assms by (simp add: unat_sub)
  have cast: "(ucast v :: u64) = of_nat (unat v)" for v :: u8
    by (simp add: word_unat_eq_iff)
  have "(ucast (w - 29) :: u64) = of_nat (unat w - 29)"
    unfolding cast \<open>unat (w - 29) = unat w - 29\<close> ..
  also have "\<dots> = of_nat (unat w) - 29"
    using le by simp
  also have "\<dots> = op_idx w"
    unfolding op_idx_def cast ..
  finally show ?thesis .
qed

lemma itc_step_switch:
  assumes "itc_ok i"
  shows "itc_step (itc_instr i) (threaded_of s) = map_step threaded_of (switch_step i s)"
proof (cases "ins_op i < 29")
  case True
  with assms label_code_switch [of i _ s] show ?thesis
    by (simp add: itc_step_def itc_instr_def itc_ok_def ptr_ok_def)
next
  case False
  then have "29 \<le> ins_op i" by simp
  moreover have "ins_op i < 61" using assms by (simp add: itc_ok_def ptr_ok_def)
  ultimately show ?thesis
    using False by (simp add: itc_step_def itc_instr_def switch_step_ext ucast_op_idx)
qed

interpretation itc: threaded_implementation itc_step itc_instr itc_ok
  by unfold_locales (rule itc_step_switch)

subsection \<open>Token threaded\<close>

lemma low_nibble: "(r AND 0x0F :: u8) = take_bit 4 r"
  by (simp add: take_bit_eq_mask mask_eq_exp_minus_1)

lemma take_bit_reg: "rok r \<Longrightarrow> take_bit 4 r = r"
  by (simp add: word_unat_eq_iff unsigned_take_bit_eq take_bit_nat_eq_self)

text \<open>Packing two register numbers into a byte and unpacking them.\<close>

lemma pack_unpack:
  assumes "regs_in_range i"
  shows "ttc_R1 (ttc_compile_instr i) = ins_r1 i" "ttc_R2 (ttc_compile_instr i) = ins_r2 i"
    "ttc_R3 (ttc_compile_instr i) = ins_r3 i"
proof -
  have r: "take_bit 4 (ins_r1 i) = ins_r1 i" "take_bit 4 (ins_r2 i) = ins_r2 i"
    "take_bit 4 (ins_r3 i) = ins_r3 i"
    using assms by (simp_all add: regs_in_range_def take_bit_reg)
  have b: "drop_bit 4 (push_bit 4 (take_bit 4 a) OR take_bit 4 c) = take_bit 4 a"
    "take_bit 4 (push_bit 4 (take_bit 4 a) OR take_bit 4 c) = take_bit 4 c" for a c :: u8
    by (rule bit_word_eqI; auto simp: bit_simps)+
  show "ttc_R1 (ttc_compile_instr i) = ins_r1 i" "ttc_R2 (ttc_compile_instr i) = ins_r2 i"
    "ttc_R3 (ttc_compile_instr i) = ins_r3 i"
    using b [of "ins_r1 i" "ins_r2 i"] r
    by (simp_all add: ttc_R1_def ttc_R2_def ttc_R3_def ttc_compile_instr_def low_nibble)
qed

lemma ttc_step_switch:
  assumes "ttc_ok i"
  shows "ttc_step (ttc_compile_instr i) (threaded_of s) = map_step threaded_of (switch_step i s)"
proof -
  have l: "ins_op i < 29" and rng: "regs_in_range i" and j: "is_jump (ins_op i) \<Longrightarrow> 0 \<le> sint (ins_imm i)"
    using assms by (simp_all add: ttc_ok_def ptr_ok_def)
  have "unat (ins_op i) < 29" using l by (simp add: word_less_nat_alt)
  then show ?thesis
    using label_code_switch [OF l j] pack_unpack [OF rng]
    by (simp add: ttc_step_def ttc_table nth_append) (simp add: ttc_compile_instr_def nth_append)
qed

interpretation ttc: threaded_implementation ttc_step ttc_compile_instr ttc_ok
  by unfold_locales (rule ttc_step_switch)

section \<open>Handler-based interpreters\<close>

lemma stc_table: "stc_handlers = take 29 stc_handlers @ replicate 32 stc_handle_ext"
  by (simp add: stc_handlers_def numeral_eq_Suc)

lemma length_stc_handlers [simp]: "length stc_handlers = 61"
  by (simp add: stc_handlers_def)

lemma stc_handler_switch:
  assumes "op_ok i"
  shows "(stc_handlers ! unat (ins_op i)) s i = switch_step i s"
proof (cases "ins_op i < 29")
  case True
  show ?thesis
    using basic_op_cases [OF True]
    by (elim disjE; simp add: stc_handlers_def switch_step_def stc_defs)
next
  case False
  then have e: "29 \<le> ins_op i" by simp
  then have n: "29 \<le> unat (ins_op i)" by (simp add: word_le_nat_alt)
  have "unat (ins_op i) < 61" "ins_op i < 61"
    using assms by (simp_all add: op_ok_def unat_op_less)
  with e n show ?thesis
    by (subst stc_table) (simp add: nth_append switch_step_ext stc_handle_ext_def)
qed

lemma stc_execute_switch:
  assumes "list_all op_ok code"
  shows "stc_execute code fuel s = switch_execute code fuel s"
proof (induction fuel arbitrary: s)
  case 0
  then show ?case by (subst stc_execute.simps, subst switch_execute.simps) simp
next
  case (Suc n)
  show ?case
  proof (cases "ip s < length code")
    case True
    then have ok: "op_ok (code ! ip s)" using assms by (simp add: list_all_length)
    then have "\<not> unat (ins_op (code ! ip s)) \<ge> 61"
      by (simp add: op_ok_def unat_op_less not_le)
    with True Suc ok show ?thesis
      by (subst stc_execute.simps, subst switch_execute.simps)
        (simp add: Let_def stc_handler_switch split: step.split)
  next
    case False
    then show ?thesis by (subst stc_execute.simps, subst switch_execute.simps) simp
  qed
qed

definition ct_of :: "nat \<Rightarrow> basic_VMState \<Rightarrow> ct_context" where
  "ct_of n s = \<lparr>c_regs = regs s, c_flags = flags s, c_ip = int (ip s), c_size = n, c_cycles = cycle_count s\<rparr>"

lemma ct_of_simps [simp]:
  "c_regs (ct_of n s) = regs s" "c_flags (ct_of n s) = flags s" "c_ip (ct_of n s) = int (ip s)"
  "c_size (ct_of n s) = n" "c_cycles (ct_of n s) = cycle_count s"
  by (simp_all add: ct_of_def)

text \<open>A halt is a jump behind the last instruction.\<close>

definition ct_step_of :: "nat \<Rightarrow> basic_VMState \<Rightarrow> basic_VMState step \<Rightarrow> ct_context outcome" where
  "ct_step_of n s r =
    (case r of
       Go s' \<Rightarrow> Value (ct_of n s')
     | Ret \<Rightarrow> Value ((ct_of n s)\<lparr>c_ip := int n\<rparr>)
     | Undef \<Rightarrow> Undefined)"

lemma ct_sw [simp]:
  "ct_regs (ct_of n s) r = ct_step_of n s (sw_regs s r)"
  "ct_flags (ct_of n s) f = ct_step_of n s (sw_flags s f)"
  by (simp_all add: ct_regs_def sw_regs_def ct_flags_def sw_flags_def ct_step_of_def ct_of_def
      split: outcome.split)

lemma ct_table: "ct_handlers = take 29 ct_handlers @ replicate 32 ct_h_ext"
  by (simp add: ct_handlers_def numeral_eq_Suc)

lemma length_ct_handlers [simp]: "length ct_handlers = 61"
  by (simp add: ct_handlers_def)

lemma ct_handler_switch:
  assumes "ptr_ok i"
  shows "(ct_handlers ! unat (ins_op i)) i (ct_of n s) = ct_step_of n s (switch_step i s)"
proof (cases "ins_op i < 29")
  case True
  have j: "is_jump (ins_op i) \<Longrightarrow> 0 \<le> sint (ins_imm i)" using assms by (simp add: ptr_ok_def)
  show ?thesis
    using basic_op_cases [OF True] j
    by (elim disjE; simp add: ct_handlers_def switch_step_def ct_defs is_jump_def;
        simp add: ct_step_of_def ct_of_def size_of_imm_nonneg)
next
  case False
  then have e: "29 \<le> ins_op i" by simp
  then have n: "29 \<le> unat (ins_op i)" by (simp add: word_le_nat_alt)
  have "unat (ins_op i) < 61" "ins_op i < 61"
    using assms by (simp_all add: ptr_ok_def unat_op_less)
  with e n show ?thesis
    by (subst ct_table) (simp add: nth_append switch_step_ext ct_h_ext_def)
qed

lemma ct_loop_halted:
  "c_ip c = int (c_size c) \<Longrightarrow> ct_loop code fuel c = Some (Value (c_regs c ! 0, c))"
  by (subst ct_loop.simps) simp

abbreviation observe :: "u64 \<times> basic_VMState \<Rightarrow> u64 \<times> i64 list \<times> u64" where
  "observe \<equiv> \<lambda>(v, s). (v, regs s, cycle_count s)"

lemma ct_loop_switch:
  assumes "list_all ptr_ok code"
  shows "map_option (map_outcome (\<lambda>(v, c). (v, c_regs c, c_cycles c)))
      (ct_loop code fuel (ct_of (length code) s)) =
    map_option (map_outcome observe) (switch_execute code fuel s)"
proof (induction fuel arbitrary: s)
  case 0
  then show ?case by (subst ct_loop.simps, subst switch_execute.simps) simp
next
  case (Suc n)
  show ?case
  proof (cases "ip s < length code")
    case True
    let ?s = "s\<lparr>cycle_count := cycle_count s + 1\<rparr>"
    have c: "(ct_of (length code) s)\<lparr>c_cycles := cycle_count s + 1\<rparr> = ct_of (length code) ?s"
      by (simp add: ct_of_def)
    have ok: "ptr_ok (code ! ip s)" using assms True by (simp add: list_all_length)
    then have "\<not> unat (ins_op (code ! ip s)) \<ge> 61"
      by (simp add: ptr_ok_def unat_op_less not_le)
    with True Suc ct_handler_switch [OF ok, of "length code" ?s] show ?thesis
      by (subst ct_loop.simps, subst switch_execute.simps)
        (simp add: c Let_def ct_step_of_def ct_loop_halted split: step.split)
  next
    case False
    then show ?thesis by (subst ct_loop.simps, subst switch_execute.simps) simp
  qed
qed

section \<open>Faithful interpreters\<close>

text \<open>
  What a client of an interpreter sees: the returned value, the registers and the cycle count. An
  interpreter is faithful on the instructions \<open>ok\<close> if it shows what the switch interpreter shows.
\<close>

locale faithful_interpreter =
  fixes exec :: "Instruction list \<Rightarrow> nat \<Rightarrow> basic_VMState \<Rightarrow> (u64 \<times> basic_VMState) outcome option"
    and ok :: "Instruction \<Rightarrow> bool"
  assumes faithful: "list_all ok code \<Longrightarrow> ip s = 0 \<Longrightarrow> flags s = 0 \<Longrightarrow>
    map_option (map_outcome observe) (exec code fuel s) =
    map_option (map_outcome observe) (switch_execute code fuel s)"
begin

lemma exec_result:
  assumes "list_all ok code" "ip s = 0" "flags s = 0"
    and "switch_execute code fuel s = Some (Value (v, s'))"
  shows "\<exists>s''. exec code fuel s = Some (Value (v, s'')) \<and> regs s'' = regs s' \<and>
    cycle_count s'' = cycle_count s'"
proof -
  have "map_option (map_outcome observe) (exec code fuel s) = Some (Value (v, regs s', cycle_count s'))"
    using faithful [OF assms(1-3), of fuel] assms(4) by simp
  then obtain r where r: "exec code fuel s = Some r"
    "map_outcome observe r = Value (v, regs s', cycle_count s')"
    by auto
  from r(2) obtain x where "r = Value x" "observe x = (v, regs s', cycle_count s')"
    by (cases r) auto
  with r(1) show ?thesis by (cases x) auto
qed

end

interpretation dtc_interp: faithful_interpreter dtc_execute ptr_ok
  by unfold_locales (use dtc.execute_switch in \<open>simp add: dtc_execute_def\<close>)

interpretation itc_interp: faithful_interpreter itc_compile_and_execute itc_ok
  by unfold_locales (use itc.execute_switch in \<open>simp add: itc_compile_and_execute_def itc_compile_ok\<close>)

interpretation ttc_interp: faithful_interpreter "\<lambda>code. ttc_execute (ttc_compile code)" ttc_ok
  by unfold_locales (use ttc.execute_switch in \<open>simp add: ttc_execute_def ttc_compile_def\<close>)

interpretation stc_interp: faithful_interpreter stc_execute op_ok
  by unfold_locales (simp add: stc_execute_switch)

lemma ct_execute_observe:
  assumes "list_all ptr_ok code" "ip s = 0" "flags s = 0"
  shows "map_option (map_outcome observe) (ct_execute code fuel s) =
    map_option (map_outcome observe) (switch_execute code fuel s)"
proof -
  have "\<lparr>c_regs = regs s, c_flags = 0, c_ip = 0, c_size = length code, c_cycles = cycle_count s\<rparr> =
      ct_of (length code) s"
    using assms(2,3) by (simp add: ct_of_def)
  then show ?thesis
    using ct_loop_switch [OF assms(1), of fuel s]
    by (simp add: ct_execute_def option.map_comp outcome.map_comp comp_def case_prod_unfold
        cong: map_option_cong)
qed

interpretation ct_interp: faithful_interpreter ct_execute ptr_ok
  by unfold_locales (rule ct_execute_observe)

text \<open>
  C14. The six interpreters of the register machine agree. On a program of the 29 basic
  operations with registers in range and no negative jump target, started with instruction
  pointer and flags zero, each returns with the same fuel the same value, the same registers and
  the same cycle count as the switch interpreter, or like it does not return, or like it runs into
  a signed overflow, which is undefined.
\<close>

theorem register_vms_agree:
  assumes "list_all ttc_ok code" and "ip s = 0" and "flags s = 0"
    and "exec \<in> {dtc_execute, itc_compile_and_execute, (\<lambda>code. ttc_execute (ttc_compile code)),
      stc_execute, ct_execute}"
  shows "map_option (map_outcome (\<lambda>(v, s). (v, regs s, cycle_count s))) (exec code fuel s) =
    map_option (map_outcome (\<lambda>(v, s). (v, regs s, cycle_count s))) (switch_execute code fuel s)"
proof -
  have ok: "list_all ptr_ok code" "list_all itc_ok code" "list_all op_ok code"
    using assms(1) by (auto simp: list_all_iff ttc_ok_def itc_ok_def ptr_ok_def op_ok_def)
  from assms(4) show ?thesis
    using dtc_interp.faithful [OF ok(1) assms(2,3)] itc_interp.faithful [OF ok(2) assms(2,3)]
      ttc_interp.faithful [OF assms(1-3)] stc_interp.faithful [OF ok(3) assms(2,3)]
      ct_interp.faithful [OF ok(1) assms(2,3)]
    by auto
qed

theorem register_vms_agree_witness:
  "map_option (map_outcome (\<lambda>(v, s). (v, regs s, cycle_count s)))
     (ttc_execute (ttc_compile [\<lparr>ins_op = OP_ADD, ins_r1 = 0, ins_r2 = 1, ins_r3 = 2, ins_imm = 0\<rparr>]) 3
       (VMState_reset VMState_new)) =
   map_option (map_outcome (\<lambda>(v, s). (v, regs s, cycle_count s)))
     (switch_execute [\<lparr>ins_op = OP_ADD, ins_r1 = 0, ins_r2 = 1, ins_r3 = 2, ins_imm = 0\<rparr>] 3
       (VMState_reset VMState_new))"
  using register_vms_agree
    [of "[\<lparr>ins_op = OP_ADD, ins_r1 = 0, ins_r2 = 1, ins_r3 = 2, ins_imm = 0\<rparr>]" "VMState_reset VMState_new"
      "\<lambda>code. ttc_execute (ttc_compile code)" 3]
  by (simp add: ttc_ok_def ptr_ok_def is_jump_def regs_in_range_def VMState_reset_def)

section \<open>Extension opcodes\<close>

text \<open>
  On the extension opcodes \<open>OP32\<close> to \<open>OP34\<close> the interpreters differ. There are 29 basic
  operations, but \<open>NUM_BASIC_OPS\<close> is 32: the indirect threaded compiler reads its array of 29
  labels at 29, 30 or 31, and the token threaded interpreter subtracts 32 from the opcode where
  the others subtract 29.
\<close>

abbreviation op32_program :: "Instruction list" where
  "op32_program \<equiv> [\<lparr>ins_op = OP_OP32, ins_r1 = 0, ins_r2 = 1, ins_r3 = 2, ins_imm = 0\<rparr>]"

lemma itc_op32_undefined: "itc_compile_and_execute op32_program fuel s = Some Undefined"
  by (simp add: itc_compile_and_execute_def itc_compile_instr_def itc_handlers_def)

lemma ttc_op32_differs:
  "map_option (map_outcome fst) (switch_execute op32_program 1 (VMState_reset VMState_new)) = Some (Value 5) \<and>
   map_option (map_outcome fst) (ttc_execute (ttc_compile op32_program) 1 (VMState_reset VMState_new)) = Some (Value 2)"
  by (simp add: switch_execute.simps switch_step_def ttc_execute_def ttc_compile_def ttc_compile_instr_def
      threaded_loop.simps ttc_step_def ttc_table nth_append ttc_R1_def ttc_R2_def ttc_R3_def
      threaded_start_def threaded_finish_def sw_regs_def th_regs_def set3_def put_def ext64_def ext_size_def add64_def checked_def fits_signed_def op_idx_def
      VMState_reset_def upt_rec)

end
