(* ===== verification/Program_Generator.thy ===== *)
theory Program_Generator
  imports Register_VM_Equiv
begin

text \<open>
  The class \<^verbatim>\<open>CodeGenerator\<close> of \<^verbatim>\<open>src/perf/threaded_code/basic.cpp\<close>, which makes the benchmark
  programs. The random engine with its distributions is a parameter: \<open>draw lo hi g\<close> is a draw of
  \<^verbatim>\<open>uniform_int_distribution(lo, hi)\<close> and \<open>coin g\<close> is the test \<^verbatim>\<open>prob(rng_) < 0.8\<close>, both with the
  next state of the engine. What is used of it is that a draw lies between its bounds
  (\<open>draw_in_range\<close>). Initialiser lists are evaluated from left to right.

  The lemmas show that whatever the engine draws, every generated program is one on which all six
  interpreters agree, that programs without loops end, and what the loop program computes.
\<close>

type_synonym 'g draw = "int \<Rightarrow> int \<Rightarrow> 'g \<Rightarrow> int \<times> 'g"

definition draw_in_range :: "'g draw \<Rightarrow> bool" where
  "draw_in_range draw \<longleftrightarrow>
    (\<forall>lo hi g. lo \<le> hi \<longrightarrow> lo \<le> fst (draw lo hi g) \<and> fst (draw lo hi g) \<le> hi)"

section \<open>The generator\<close>

datatype Pattern =
  Sequential | Random | Hotspot | Arithmetic | DataMovement | Mixed | Loop | BranchHeavy

definition randReg :: "'g draw \<Rightarrow> 'g \<Rightarrow> u8 \<times> 'g" where
  "randReg draw g = (case draw 0 (int NUM_REGS - 1) g of (v, g) \<Rightarrow> (word_of_int v, g))"

definition randImm :: "'g draw \<Rightarrow> 'g \<Rightarrow> i32 \<times> 'g" where
  "randImm draw g = (case draw (- 1000) 1000 g of (v, g) \<Rightarrow> (word_of_int v, g))"

abbreviation ins :: "u8 \<Rightarrow> u8 \<Rightarrow> u8 \<Rightarrow> u8 \<Rightarrow> i32 \<Rightarrow> Instruction" where
  "ins c a b d k \<equiv> \<lparr>ins_op = c, ins_r1 = a, ins_r2 = b, ins_r3 = d, ins_imm = k\<rparr>"

text \<open>\<^verbatim>\<open>{op, randReg(), randReg(), randReg(), randImm()}\<close>\<close>

definition rand_instr :: "'g draw \<Rightarrow> u8 \<Rightarrow> 'g \<Rightarrow> Instruction \<times> 'g" where
  "rand_instr draw c g =
  (let (a, g) = randReg draw g; (b, g) = randReg draw g; (d, g) = randReg draw g;
       (k, g) = randImm draw g
   in (ins c a b d k, g))"

definition safe_ops :: "u8 list" where
  "safe_ops =
    [OP_NOP, OP_ADD, OP_SUB, OP_MUL, OP_INC, OP_DEC, OP_NEG, OP_AND, OP_OR, OP_XOR, OP_NOT, OP_SHL,
     OP_SHR, OP_LOAD_IMM, OP_LOAD_REG, OP_STORE, OP_CMP_EQ, OP_CMP_LT, OP_CMP_GT, OP_MAC, OP_DOT,
     OP_POLY, OP_ABS, OP_MIN]"

text \<open>The loop \<^verbatim>\<open>for (i = 0; i < length; ++i)\<close> over the code made so far and the engine.\<close>

definition for_gen ::
    "(nat \<Rightarrow> Instruction list \<Rightarrow> 'g \<Rightarrow> Instruction list \<times> 'g) \<Rightarrow> nat \<Rightarrow> 'g \<Rightarrow> Instruction list \<times> 'g" where
  "for_gen body n g = fold (\<lambda>i (code, g). body i code g) [0..<n] ([], g)"

definition generateSequential :: "'g draw \<Rightarrow> nat \<Rightarrow> 'g \<Rightarrow> Instruction list \<times> 'g" where
  "generateSequential draw n g =
    for_gen (\<lambda>i code g.
      let (x, g) = rand_instr draw (safe_ops ! (i mod length safe_ops)) g in (code @ [x], g)) n g"

text \<open>\<^verbatim>\<open>ops[op_dist(rng_)]\<close> with \<^verbatim>\<open>op_dist(0, ops.size() - 1)\<close>\<close>

definition pick :: "'g draw \<Rightarrow> u8 list \<Rightarrow> 'g \<Rightarrow> u8 \<times> 'g" where
  "pick draw ops g = (case draw 0 (int (length ops) - 1) g of (v, g) \<Rightarrow> (ops ! nat v, g))"

definition generateRandom :: "'g draw \<Rightarrow> nat \<Rightarrow> 'g \<Rightarrow> Instruction list \<times> 'g" where
  "generateRandom draw n g =
    for_gen (\<lambda>i code g.
      let (c, g) = pick draw safe_ops g; (x, g) = rand_instr draw c g in (code @ [x], g)) n g"

definition hot_ops :: "u8 list" where
  "hot_ops = [OP_ADD, OP_SUB, OP_MUL, OP_INC]"

definition cold_ops :: "u8 list" where
  "cold_ops = [OP_AND, OP_OR, OP_XOR, OP_SHL, OP_DEC, OP_NEG, OP_NOT, OP_MAC]"

definition generateHotspot :: "'g draw \<Rightarrow> ('g \<Rightarrow> bool \<times> 'g) \<Rightarrow> nat \<Rightarrow> 'g \<Rightarrow> Instruction list \<times> 'g" where
  "generateHotspot draw coin n g =
    for_gen (\<lambda>i code g.
      let (hot, g) = coin g;
          (c, g) = (if hot then pick draw hot_ops g else pick draw cold_ops g);
          (x, g) = rand_instr draw c g
      in (code @ [x], g)) n g"

definition arith_ops :: "u8 list" where
  "arith_ops = [OP_ADD, OP_SUB, OP_MUL, OP_INC, OP_DEC, OP_NEG, OP_MAC, OP_POLY]"

definition generateArithmetic :: "'g draw \<Rightarrow> nat \<Rightarrow> 'g \<Rightarrow> Instruction list \<times> 'g" where
  "generateArithmetic draw n g =
    for_gen (\<lambda>i code g.
      let (c, g) = pick draw arith_ops g; (x, g) = rand_instr draw c g in (code @ [x], g)) n g"

definition data_ops :: "u8 list" where
  "data_ops = [OP_LOAD_IMM, OP_LOAD_REG, OP_STORE, OP_NOP, OP_INC]"

definition generateDataMovement :: "'g draw \<Rightarrow> nat \<Rightarrow> 'g \<Rightarrow> Instruction list \<times> 'g" where
  "generateDataMovement draw n g =
    for_gen (\<lambda>i code g.
      let (c, g) = pick draw data_ops g; (x, g) = rand_instr draw c g in (code @ [x], g)) n g"

definition generateMixed :: "'g draw \<Rightarrow> nat \<Rightarrow> 'g \<Rightarrow> Instruction list \<times> 'g" where
  "generateMixed draw n g = generateRandom draw n g"

text \<open>\<^verbatim>\<open>static_cast<int32_t>(length / 10)\<close>, at least 10.\<close>

definition loop_iterations :: "nat \<Rightarrow> i32" where
  "loop_iterations n =
    (let k = (of_nat (n div 10) :: i32) in if sint k < 10 then 10 else k)"

definition generateLoop :: "nat \<Rightarrow> Instruction list" where
  "generateLoop n =
  (let code =
        [ins OP_LOAD_IMM 0 0 0 (loop_iterations n), ins OP_LOAD_IMM 1 0 0 0, ins OP_LOAD_IMM 2 0 0 0];
       loop_start = length code;
       code = code @ replicate 5 (ins OP_INC 2 0 0 0)
   in code @ [ins OP_DEC 0 0 0 0, ins OP_CMP_GT 0 0 1 0, ins OP_JNZ 0 0 0 (of_nat loop_start)])"

definition generateBranchHeavy :: "'g draw \<Rightarrow> nat \<Rightarrow> 'g \<Rightarrow> Instruction list \<times> 'g" where
  "generateBranchHeavy draw n g =
    for_gen (\<lambda>i code g.
      let base = length code;
          (v, g) = draw (- 100) 100 g
      in (code @ [ins OP_LOAD_IMM 0 0 0 (word_of_int v), ins OP_CMP_LT 0 0 1 0,
                  ins OP_JZ 0 0 0 (of_nat (base + 4)), ins OP_INC 2 0 0 0], g)) n g"

definition generate ::
    "'g draw \<Rightarrow> ('g \<Rightarrow> bool \<times> 'g) \<Rightarrow> nat \<Rightarrow> Pattern \<Rightarrow> 'g \<Rightarrow> Instruction list \<times> 'g" where
  "generate draw coin n pattern g =
  (let (code, g) = (case pattern of
          Sequential \<Rightarrow> generateSequential draw n g
        | Random \<Rightarrow> generateRandom draw n g
        | Hotspot \<Rightarrow> generateHotspot draw coin n g
        | Arithmetic \<Rightarrow> generateArithmetic draw n g
        | DataMovement \<Rightarrow> generateDataMovement draw n g
        | Mixed \<Rightarrow> generateMixed draw n g
        | Loop \<Rightarrow> (generateLoop n, g)
        | BranchHeavy \<Rightarrow> generateBranchHeavy draw n g)
   in (code @ [ins OP_HALT 0 0 0 0], g))"

section \<open>Generated programs are admissible and run forward\<close>

text \<open>
  \<open>forward k code\<close>: the program, whose first instruction has index \<open>k\<close>, is admissible for every
  interpreter and each jump goes to a later instruction.
\<close>

fun forward :: "nat \<Rightarrow> Instruction list \<Rightarrow> bool" where
  "forward k [] \<longleftrightarrow> True"
| "forward k (i # code) \<longleftrightarrow>
    ttc_ok i \<and> (is_jump (ins_op i) \<longrightarrow> k < size_of_imm (ins_imm i)) \<and> forward (Suc k) code"

lemma forward_append: "forward k (xs @ ys) \<longleftrightarrow> forward k xs \<and> forward (k + length xs) ys"
  by (induction xs arbitrary: k) auto

lemma forward_nth:
  "forward k code \<Longrightarrow> n < length code \<Longrightarrow>
    ttc_ok (code ! n) \<and> (is_jump (ins_op (code ! n)) \<longrightarrow> k + n < size_of_imm (ins_imm (code ! n)))"
proof (induction code arbitrary: k n)
  case (Cons i code)
  then show ?case by (cases n) fastforce+
qed simp

lemma forward_ok: "forward k code \<Longrightarrow> list_all ttc_ok code"
  by (induction code arbitrary: k) auto

lemma fold_gen_invariant:
  assumes "\<And>i code g. i < n \<Longrightarrow> I i code \<Longrightarrow> I (Suc i) (fst (body i code g))" and "I 0 []"
  shows "I n (fst (for_gen body n g))"
proof -
  have "I m (fst (fold (\<lambda>i (code, g). body i code g) [0..<m] ([], g)))" if "m \<le> n" for m
    using that
  proof (induction m)
    case (Suc m)
    then show ?case using assms(1) by (simp add: case_prod_unfold)
  qed (simp add: assms(2))
  then show ?thesis by (simp add: for_gen_def)
qed

lemma randReg_range:
  assumes "draw_in_range draw"
  shows "unat (fst (randReg draw g)) < 16"
proof -
  obtain v g' where v: "draw 0 15 g = (v, g')" by fastforce
  then have "0 \<le> v" "v \<le> 15"
    using assms by (metis draw_in_range_def fst_conv zero_le_numeral)+
  then show ?thesis
    by (simp add: randReg_def v unat_eq_nat_uint uint_word_of_int)
qed

lemma pick_mem:
  assumes "draw_in_range draw" and "ops \<noteq> []"
  shows "fst (pick draw ops g) \<in> set ops"
proof -
  obtain v g' where v: "draw 0 (int (length ops) - 1) g = (v, g')" by fastforce
  have "0 \<le> int (length ops) - 1" using assms(2) by (cases ops) simp_all
  then have "0 \<le> v" "v \<le> int (length ops) - 1"
    using assms(1) v by (metis draw_in_range_def fst_conv)+
  then show ?thesis by (simp add: pick_def v nat_less_iff)
qed

definition plain_op :: "u8 \<Rightarrow> bool" where
  "plain_op c \<longleftrightarrow> c < OP_OP32 \<and> \<not> is_jump c"

lemma op_lists_plain:
  "list_all plain_op safe_ops" "list_all plain_op hot_ops" "list_all plain_op cold_ops"
  "list_all plain_op arith_ops" "list_all plain_op data_ops"
  by (simp_all add: plain_op_def is_jump_def safe_ops_def hot_ops_def cold_ops_def arith_ops_def
      data_ops_def)

lemma rand_instr_forward:
  assumes "draw_in_range draw" and "plain_op c"
  shows "forward k [fst (rand_instr draw c g)]"
proof -
  have "c < 61" using assms(2) by (auto simp: plain_op_def intro: order.strict_trans)
  with assms randReg_range [OF assms(1)] show ?thesis
    by (simp add: rand_instr_def Let_def case_prod_unfold ttc_ok_def ptr_ok_def plain_op_def
        regs_in_range_def)
qed

lemma plain_body_forward:
  assumes "draw_in_range draw" and "plain_op (fst (sel g))"
  shows "forward 0 code \<Longrightarrow>
    forward 0 (fst (let (c, g) = sel g; (x, g) = rand_instr draw c g in (code @ [x], g)))"
  using rand_instr_forward [OF assms]
  by (simp add: Let_def case_prod_unfold forward_append)

lemma pick_plain: "draw_in_range draw \<Longrightarrow> list_all plain_op ops \<Longrightarrow> ops \<noteq> [] \<Longrightarrow> plain_op (fst (pick draw ops g))"
  using pick_mem [of draw ops g] by (simp add: list_all_iff)

lemma for_gen_plain:
  assumes "draw_in_range draw" and "\<And>i g. plain_op (fst (sel i g))"
  shows "forward 0 (fst (for_gen (\<lambda>i code g.
    let (c, g) = sel i g; (x, g) = rand_instr draw c g in (code @ [x], g)) n g)) \<and>
    length (fst (for_gen (\<lambda>i code g.
    let (c, g) = sel i g; (x, g) = rand_instr draw c g in (code @ [x], g)) n g)) = n"
proof (rule fold_gen_invariant [where I = "\<lambda>i code. forward 0 code \<and> length code = i"])
  fix i code and g
  assume "forward 0 code \<and> length code = i"
  then show "forward 0 (fst (let (c, g) = sel i g; (x, g) = rand_instr draw c g in (code @ [x], g))) \<and>
    length (fst (let (c, g) = sel i g; (x, g) = rand_instr draw c g in (code @ [x], g))) = Suc i"
    using plain_body_forward [OF assms(1), of "sel i" g code] assms(2)
    by (simp add: Let_def case_prod_unfold)
qed simp

lemma size_of_imm_of_nat: "m < 2 ^ 31 \<Longrightarrow> size_of_imm (of_nat m) = m \<and> 0 \<le> sint (of_nat m :: i32)"
proof -
  assume "m < 2 ^ 31"
  then have s: "sint (of_nat m :: i32) = int m"
    by (simp add: signed_of_nat signed_take_bit_int_eq_self)
  with size_of_imm_nonneg [of "of_nat m"] show ?thesis by simp
qed

lemma branch_heavy_forward:
  assumes "4 * n < 2 ^ 31"
  shows "forward 0 (fst (generateBranchHeavy draw n g)) \<and> length (fst (generateBranchHeavy draw n g)) = 4 * n"
  unfolding generateBranchHeavy_def
proof (rule fold_gen_invariant [where I = "\<lambda>i code. forward 0 code \<and> length code = 4 * i"])
  fix i code and g
  assume "i < n" and inv: "forward 0 code \<and> length code = 4 * i"
  then have "4 * i + 4 < 2 ^ 31" using assms by simp
  note jmp = size_of_imm_of_nat [OF this]
  show "forward 0 (fst (let base = length code; (v, g) = draw (- 100) 100 g
      in (code @ [ins OP_LOAD_IMM 0 0 0 (word_of_int v), ins OP_CMP_LT 0 0 1 0,
                  ins OP_JZ 0 0 0 (of_nat (base + 4)), ins OP_INC 2 0 0 0], g))) \<and>
    length (fst (let base = length code; (v, g) = draw (- 100) 100 g
      in (code @ [ins OP_LOAD_IMM 0 0 0 (word_of_int v), ins OP_CMP_LT 0 0 1 0,
                  ins OP_JZ 0 0 0 (of_nat (base + 4)), ins OP_INC 2 0 0 0], g))) = 4 * Suc i"
    using inv jmp
    by (simp add: Let_def case_prod_unfold forward_append ttc_ok_def ptr_ok_def is_jump_def
        regs_in_range_def del: of_nat_add)
qed simp

lemma safe_ops_nth: "plain_op (safe_ops ! (i mod length safe_ops))"
proof -
  have "0 < length safe_ops" by (simp add: safe_ops_def)
  then show ?thesis
    using op_lists_plain(1) by (simp add: list_all_length)
qed

lemma generate_forward:
  assumes "draw_in_range draw" and "pattern \<noteq> Loop" and "4 * n < 2 ^ 31"
  shows "forward 0 (fst (generate draw coin n pattern g)) \<and>
    length (fst (generate draw coin n pattern g)) \<le> 4 * n + 1"
proof -
  note plain = for_gen_plain [OF assms(1)]
  note defs = generateSequential_def generateRandom_def generateHotspot_def generateArithmetic_def
    generateDataMovement_def generateMixed_def
  have nonempty: "safe_ops \<noteq> []" "hot_ops \<noteq> []" "cold_ops \<noteq> []" "arith_ops \<noteq> []" "data_ops \<noteq> []"
    by (simp_all add: safe_ops_def hot_ops_def cold_ops_def arith_ops_def data_ops_def)
  note pp = pick_plain [OF assms(1)] op_lists_plain nonempty
  have seq: "forward 0 (fst (generateSequential draw n g)) \<and> length (fst (generateSequential draw n g)) = n"
    using plain [of "\<lambda>i g. (safe_ops ! (i mod length safe_ops), g)" n g]
    by (simp add: generateSequential_def safe_ops_nth)
  have rnd: "forward 0 (fst (generateRandom draw n g)) \<and> length (fst (generateRandom draw n g)) = n"
    using plain [of "\<lambda>i. pick draw safe_ops" n g] by (simp add: generateRandom_def pp)
  have hot: "forward 0 (fst (generateHotspot draw coin n g)) \<and> length (fst (generateHotspot draw coin n g)) = n"
    using plain [of "\<lambda>i g. case coin g of (h, g) \<Rightarrow> if h then pick draw hot_ops g else pick draw cold_ops g" n g]
    by (simp add: generateHotspot_def pp case_prod_unfold Let_def)
  have ari: "forward 0 (fst (generateArithmetic draw n g)) \<and> length (fst (generateArithmetic draw n g)) = n"
    using plain [of "\<lambda>i. pick draw arith_ops" n g] by (simp add: generateArithmetic_def pp)
  have dat: "forward 0 (fst (generateDataMovement draw n g)) \<and> length (fst (generateDataMovement draw n g)) = n"
    using plain [of "\<lambda>i. pick draw data_ops" n g] by (simp add: generateDataMovement_def pp)
  have halt: "forward k [ins OP_HALT 0 0 0 0]" for k
    by (simp add: ttc_ok_def ptr_ok_def is_jump_def regs_in_range_def)
  show ?thesis
    using seq rnd hot ari dat branch_heavy_forward [OF assms(3), of draw g] halt assms(2)
    by (cases pattern) (simp_all add: generate_def case_prod_unfold forward_append generateMixed_def Let_def del: forward.simps)
qed

section \<open>Signed overflow\<close>

text \<open>
  \<open>overflows i rs\<close>: a value that the instruction computes from the registers is no \<^verbatim>\<open>int64_t\<close>. The values are the
  mathematical ones.
\<close>

definition overflows :: "Instruction \<Rightarrow> i64 list \<Rightarrow> bool" where
  "overflows i rs =
  (let a = sint (rs ! unat (ins_r1 i)); b = sint (rs ! unat (ins_r2 i)); c = sint (rs ! unat (ins_r3 i));
       fits = fits_signed 64
   in if ins_op i = OP_ADD then \<not> fits (b + c)
      else if ins_op i = OP_SUB then \<not> fits (b - c)
      else if ins_op i = OP_MUL then \<not> fits (b * c)
      else if ins_op i = OP_INC then \<not> fits (a + 1)
      else if ins_op i = OP_DEC then \<not> fits (a - 1)
      else if ins_op i = OP_NEG then \<not> fits (- b)
      else if ins_op i = OP_ABS then \<not> fits \<bar>b\<bar>
      else if ins_op i = OP_MAC \<or> ins_op i = OP_DOT then \<not> fits (b * c) \<or> \<not> fits (a + b * c)
      else if ins_op i = OP_POLY then \<not> fits (a * b) \<or> \<not> fits (a * b + c)
      else False)"

lemma arith_None:
  "add64 a b = None \<longleftrightarrow> \<not> fits_signed 64 (sint a + sint b)"
  "sub64 a b = None \<longleftrightarrow> \<not> fits_signed 64 (sint a - sint b)"
  "mul64 a b = None \<longleftrightarrow> \<not> fits_signed 64 (sint a * sint b)"
  "inc64 a = None \<longleftrightarrow> \<not> fits_signed 64 (sint a + 1)"
  "dec64 a = None \<longleftrightarrow> \<not> fits_signed 64 (sint a - 1)"
  "neg64 a = None \<longleftrightarrow> \<not> fits_signed 64 (- sint a)"
  by (simp_all add: add64_def sub64_def mul64_def inc64_def dec64_def neg64_def checked_None)

lemma arith_None_combined:
  "abs64 a = None \<longleftrightarrow> \<not> fits_signed 64 \<bar>sint a\<bar>"
  "mac64 a b c = None \<longleftrightarrow> \<not> fits_signed 64 (sint b * sint c) \<or> \<not> fits_signed 64 (sint a + sint b * sint c)"
  "poly64 a b c = None \<longleftrightarrow> \<not> fits_signed 64 (sint a * sint b) \<or> \<not> fits_signed 64 (sint a * sint b + sint c)"
proof -
  have f: "fits_signed 64 (sint a)" using fits_signed_sint [of a] by simp
  then show "abs64 a = None \<longleftrightarrow> \<not> fits_signed 64 \<bar>sint a\<bar>" by (simp add: abs64_def arith_None)
  have m: "mul64 x y = Some p \<Longrightarrow> sint p = sint x * sint y" for x y p by (simp add: mul64_def checked_Some)
  show "mac64 a b c = None \<longleftrightarrow> \<not> fits_signed 64 (sint b * sint c) \<or> \<not> fits_signed 64 (sint a + sint b * sint c)"
    using arith_None(3) [of b c] m [of b c] by (cases "mul64 b c") (simp_all add: mac64_def arith_None(1))
  show "poly64 a b c = None \<longleftrightarrow> \<not> fits_signed 64 (sint a * sint b) \<or> \<not> fits_signed 64 (sint a * sint b + sint c)"
    using arith_None(3) [of a b] m [of a b] by (cases "mul64 a b") (simp_all add: poly64_def arith_None(1))
qed

lemma sw_put:
  "sw_regs s (put r rs v) = Undef \<longleftrightarrow> v = None"
  "(\<exists>s'. sw_regs s (put r rs v) = Go s' \<and> ip s < ip s') \<longleftrightarrow> v \<noteq> None"
  "sw_regs s (put r rs v) \<noteq> Ret"
  by (auto simp: sw_regs_def put_def split: option.splits)

section \<open>Forward programs end\<close>

text \<open>The states the switch interpreter passes through, each before the instruction at its \<open>ip\<close>.\<close>

inductive vm_reaches :: "Instruction list \<Rightarrow> basic_VMState \<Rightarrow> basic_VMState \<Rightarrow> bool" for code where
  here: "vm_reaches code s s"
| further: "ip s < length code \<Longrightarrow> switch_step (code ! ip s) (s\<lparr>cycle_count := cycle_count s + 1\<rparr>) = Go u \<Longrightarrow>
    vm_reaches code u t \<Longrightarrow> vm_reaches code s t"

inductive_simps vm_reaches_first: "vm_reaches code s t"

definition overflow_reached :: "Instruction list \<Rightarrow> basic_VMState \<Rightarrow> bool" where
  "overflow_reached code s \<longleftrightarrow>
    (\<exists>t. vm_reaches code s t \<and> ip t < length code \<and> overflows (code ! ip t) (regs t))"

lemma overflow_reached_step:
  "overflow_reached code s \<longleftrightarrow> ip s < length code \<and>
    (overflows (code ! ip s) (regs s) \<or>
     (\<exists>u. switch_step (code ! ip s) (s\<lparr>cycle_count := cycle_count s + 1\<rparr>) = Go u \<and> overflow_reached code u))"
  unfolding overflow_reached_def by (subst vm_reaches_first) blast

lemma switch_step_forward:
  assumes "ttc_ok i" and "is_jump (ins_op i) \<longrightarrow> ip s < size_of_imm (ins_imm i)"
  shows "switch_step i s = Undef \<longleftrightarrow> overflows i (regs s)"
    and "(\<exists>s'. switch_step i s = Go s' \<and> ip s < ip s') \<or> switch_step i s = Ret \<or> switch_step i s = Undef"
proof -
  have l: "ins_op i < 29" and r: "rok (ins_r1 i)" "rok (ins_r2 i)" "rok (ins_r3 i)"
    using assms(1) by (simp_all add: ttc_ok_def regs_in_range_def)
  from basic_op_cases [OF l] r show "switch_step i s = Undef \<longleftrightarrow> overflows i (regs s)"
    by (elim disjE; simp add: switch_step_def sw_put set3_def set2_def mod1_def acc3_def overflows_def Let_def
        arith_None arith_None_combined;
        simp add: sw_regs_def sw_flags_def cmp2_def set1_def and64_def or64_def xor64_def not64_def
        shl64_def shr64_def id64_def min64_def max64_def)
  have put: "(\<exists>s'. sw_regs s (put a rs v) = Go s' \<and> ip s < ip s') \<or> sw_regs s (put a rs v) = Ret \<or>
      sw_regs s (put a rs v) = Undef" for a rs v
    using sw_put by (cases v) blast+
  from basic_op_cases [OF l] r assms(2)
  show "(\<exists>s'. switch_step i s = Go s' \<and> ip s < ip s') \<or> switch_step i s = Ret \<or> switch_step i s = Undef"
    by (elim disjE; simp add: switch_step_def put set3_def set2_def mod1_def acc3_def is_jump_def;
        simp add: sw_regs_def sw_flags_def cmp2_def set1_def)
qed

lemma switch_forward_ends:
  "forward 0 code \<Longrightarrow> length code - ip s \<le> fuel \<Longrightarrow>
    \<exists>r. switch_execute code fuel s = Some r \<and> (r = Undefined \<longleftrightarrow> overflow_reached code s)"
proof (induction fuel arbitrary: s)
  case 0
  then show ?case by (subst switch_execute.simps, subst overflow_reached_step) simp
next
  case (Suc n)
  show ?case
  proof (cases "ip s < length code")
    case True
    let ?s = "s\<lparr>cycle_count := cycle_count s + 1\<rparr>"
    note fw = forward_nth [OF Suc.prems(1) True]
    have undef: "switch_step (code ! ip s) ?s = Undef \<longleftrightarrow> overflows (code ! ip s) (regs s)"
      using switch_step_forward(1) [of "code ! ip s" ?s] fw by simp
    have "(\<exists>s'. switch_step (code ! ip s) ?s = Go s' \<and> ip s < ip s') \<or> switch_step (code ! ip s) ?s = Ret \<or>
        switch_step (code ! ip s) ?s = Undef"
      using switch_step_forward(2) [of "code ! ip s" ?s] fw by simp
    then consider s' where "switch_step (code ! ip s) ?s = Go s'" "ip s < ip s'"
      | "switch_step (code ! ip s) ?s = Ret" | "switch_step (code ! ip s) ?s = Undef" by blast
    then show ?thesis
    proof cases
      case 1
      with True Suc.IH [of s'] Suc.prems undef show ?thesis
        by (subst switch_execute.simps, subst overflow_reached_step) (simp add: Let_def)
    qed (use True undef in \<open>subst switch_execute.simps, subst overflow_reached_step, simp add: Let_def\<close>)+
  next
    case False
    then show ?thesis by (subst switch_execute.simps, subst overflow_reached_step) simp
  qed
qed

abbreviation all_interpreters ::
    "(Instruction list \<Rightarrow> nat \<Rightarrow> basic_VMState \<Rightarrow> (u64 \<times> basic_VMState) outcome option) set" where
  "all_interpreters \<equiv> {switch_execute, dtc_execute, itc_compile_and_execute,
     (\<lambda>code. ttc_execute (ttc_compile code)), stc_execute, ct_execute}"

lemma all_interpreters_result:
  assumes "exec \<in> all_interpreters" and "list_all ttc_ok code" "ip s = 0" "flags s = 0"
    and "switch_execute code fuel s = Some (Value (v, s'))"
  shows "\<exists>s''. exec code fuel s = Some (Value (v, s'')) \<and> regs s'' = regs s' \<and> cycle_count s'' = cycle_count s'"
proof -
  have ok: "list_all ptr_ok code" "list_all itc_ok code" "list_all op_ok code"
    using assms(2) by (auto simp: list_all_iff ttc_ok_def itc_ok_def ptr_ok_def op_ok_def)
  note r = assms(3-5)
  from assms(1) show ?thesis
    unfolding insert_iff empty_iff
    using assms(5) dtc_interp.exec_result [OF ok(1) r] itc_interp.exec_result [OF ok(2) r]
      ttc_interp.exec_result [OF assms(2) r] stc_interp.exec_result [OF ok(3) r]
      ct_interp.exec_result [OF ok(1) r]
    by (elim disjE) blast+
qed

lemma all_interpreters_observe:
  assumes "exec \<in> all_interpreters" and "list_all ttc_ok code" "ip s = 0" "flags s = 0"
  shows "map_option (map_outcome observe) (exec code fuel s) = map_option (map_outcome observe) (switch_execute code fuel s)"
proof -
  have ok: "list_all ptr_ok code" "list_all itc_ok code" "list_all op_ok code"
    using assms(2) by (auto simp: list_all_iff ttc_ok_def itc_ok_def ptr_ok_def op_ok_def)
  note r = assms(3,4)
  from assms(1) show ?thesis
    using dtc_interp.faithful [OF ok(1) r] itc_interp.faithful [OF ok(2) r] ttc_interp.faithful [OF assms(2) r]
      stc_interp.faithful [OF ok(3) r] ct_interp.faithful [OF ok(1) r]
    by auto
qed

section \<open>Programs that cannot overflow\<close>

text \<open>
  The patterns \<open>DataMovement\<close> and \<open>BranchHeavy\<close> use only these instructions. Their registers hold at most 1000 plus
  the number of instructions before the current one, in absolute value.
\<close>

definition tame :: "Instruction \<Rightarrow> bool" where
  "tame i \<longleftrightarrow>
    ins_op i \<in> {OP_HALT, OP_NOP, OP_INC, OP_LOAD_REG, OP_STORE, OP_CMP_LT, OP_JZ} \<or>
    ins_op i = OP_LOAD_IMM \<and> \<bar>sint (ins_imm i)\<bar> \<le> 1000"

definition regs_bounded :: "basic_VMState \<Rightarrow> bool" where
  "regs_bounded s \<longleftrightarrow> length (regs s) = 16 \<and> (\<forall>v \<in> set (regs s). \<bar>sint v\<bar> \<le> 1000 + int (ip s))"

lemma regs_bounded_nth: "regs_bounded s \<Longrightarrow> rok r \<Longrightarrow> \<bar>sint (regs s ! unat r)\<bar> \<le> 1000 + int (ip s)"
  by (simp add: regs_bounded_def)

lemma regs_bounded_mono:
  "regs_bounded s \<Longrightarrow> ip s \<le> ip s' \<Longrightarrow> regs s' = regs s \<Longrightarrow> regs_bounded s'"
  by (force simp: regs_bounded_def)

lemma regs_bounded_put:
  assumes "regs_bounded s" "\<bar>sint v\<bar> \<le> 1001 + int (ip s)"
  shows "regs_bounded (s\<lparr>regs := (regs s)[k := v], ip := Suc (ip s)\<rparr>)"
proof -
  have "\<bar>sint w\<bar> \<le> 1001 + int (ip s)" if "w \<in> set ((regs s)[k := v])" for w
    using that set_update_subset_insert [of "regs s" k v] assms by (fastforce simp: regs_bounded_def)
  then show ?thesis using assms(1) by (simp add: regs_bounded_def add.commute)
qed

lemma sint_scast_imm: "sint (scast (w :: i32) :: i64) = sint w"
proof -
  have "- (2 ^ 31) \<le> sint w" "sint w < 2 ^ 31" using fits_signed_sint [of w] by (simp_all add: fits_signed_def)
  then have "fits_signed LENGTH(64) (sint w)" unfolding fits_signed_def by simp
  then show ?thesis unfolding scast_eq by (rule sint_word_of_int_fits)
qed

lemma tame_step:
  assumes "tame i" "ttc_ok i" "is_jump (ins_op i) \<longrightarrow> ip s < size_of_imm (ins_imm i)" "regs_bounded s" "switch_step i s = Go s'"
  shows "regs_bounded s'"
proof -
  have r: "rok (ins_r1 i)" "rok (ins_r2 i)" "rok (ins_r3 i)" using assms(2) by (simp_all add: ttc_ok_def regs_in_range_def)
  note b = regs_bounded_nth [OF assms(4) r(1)] regs_bounded_nth [OF assms(4) r(2)]
  have inc: "\<bar>sint v\<bar> \<le> 1001 + int (ip s)" if "inc64 (regs s ! unat (ins_r1 i)) = Some v" for v
    using that b(1) by (simp add: inc64_def checked_Some)
  have mv: "\<bar>sint (regs s ! unat (ins_r2 i))\<bar> \<le> 1001 + int (ip s)" using b(2) by simp
  from assms(1) consider "ins_op i = OP_HALT" | "ins_op i = OP_NOP" | "ins_op i = OP_INC"
    | "ins_op i = OP_LOAD_REG \<or> ins_op i = OP_STORE" | "ins_op i = OP_CMP_LT" | "ins_op i = OP_JZ"
    | "ins_op i = OP_LOAD_IMM" "\<bar>sint (ins_imm i)\<bar> \<le> 1000"
    unfolding tame_def by blast
  then show ?thesis
  proof cases
    case 3
    with assms(5) r obtain v where "inc64 (regs s ! unat (ins_r1 i)) = Some v"
      "s' = s\<lparr>regs := (regs s)[unat (ins_r1 i) := v], ip := Suc (ip s)\<rparr>"
      by (auto simp: switch_step_def mod1_def put_def sw_regs_def split: option.splits)
    then show ?thesis using regs_bounded_put [OF assms(4) inc] by simp
  next
    case 4
    with assms(5) r have "s' = s\<lparr>regs := (regs s)[unat (ins_r1 i) := regs s ! unat (ins_r2 i)], ip := Suc (ip s)\<rparr>"
      by (auto simp: switch_step_def set2_def id64_def put_def sw_regs_def)
    then show ?thesis using regs_bounded_put [OF assms(4) mv] by simp
  next
    case 7
    with assms(5) r have "s' = s\<lparr>regs := (regs s)[unat (ins_r1 i) := scast (ins_imm i)], ip := Suc (ip s)\<rparr>"
      by (auto simp: switch_step_def set1_def sw_regs_def)
    then show ?thesis using regs_bounded_put [OF assms(4)] 7 by (simp add: sint_scast_imm)
  qed (use assms(3,5) r in \<open>auto simp: switch_step_def sw_flags_def cmp2_def is_jump_def intro!: regs_bounded_mono [OF assms(4)]\<close>)
qed

lemma tame_reaches:
  assumes "vm_reaches code s t" "forward 0 code" "list_all tame code" "regs_bounded s"
  shows "regs_bounded t"
  using assms
proof (induction rule: vm_reaches.induct)
  case (further s u t)
  let ?s = "s\<lparr>cycle_count := cycle_count s + 1\<rparr>"
  have "regs_bounded ?s" using further.prems(3) by (simp add: regs_bounded_def)
  then have "regs_bounded u"
    using tame_step [of "code ! ip s" ?s u] forward_nth [OF further.prems(1) further.hyps(1)] further.prems(2) further.hyps
    by (simp add: list_all_length)
  then show ?case using further by blast
qed simp

lemma tame_no_overflow:
  assumes "forward 0 code" "list_all tame code" "regs_bounded s" "length code \<le> 2 ^ 31"
  shows "\<not> overflow_reached code s"
proof
  assume "overflow_reached code s"
  then obtain t where t: "vm_reaches code s t" "ip t < length code" "overflows (code ! ip t) (regs t)"
    by (auto simp: overflow_reached_def)
  have tm: "tame (code ! ip t)" using assms(2) t(2) by (simp add: list_all_length)
  have ok: "rok (ins_r1 (code ! ip t))"
    using forward_nth [OF assms(1) t(2)] by (simp add: ttc_ok_def regs_in_range_def)
  have "\<bar>sint (regs t ! unat (ins_r1 (code ! ip t)))\<bar> \<le> 1000 + int (ip t)"
    using regs_bounded_nth [OF tame_reaches [OF t(1) assms(1-3)] ok] .
  moreover have "int (ip t) < 2 ^ 31" using less_le_trans [OF t(2) assms(4)] by simp
  ultimately have "fits_signed 64 (sint (regs t ! unat (ins_r1 (code ! ip t))) + 1)"
    by (simp add: fits_signed_def abs_le_iff)
  then show False using t(3) tm by (auto simp: tame_def overflows_def Let_def)
qed

lemma draw_imm_bounded:
  assumes "draw_in_range draw" "0 \<le> b" "b \<le> 1000"
  shows "\<bar>sint (word_of_int (fst (draw (- b) b g)) :: i32)\<bar> \<le> 1000"
proof -
  have "- b \<le> b" using assms(2) by simp
  then have v: "- b \<le> fst (draw (- b) b g)" "fst (draw (- b) b g) \<le> b"
    using assms(1) unfolding draw_in_range_def by blast+
  then have "fits_signed 32 (fst (draw (- b) b g))" using assms(3) by (simp add: fits_signed_def)
  then show ?thesis using sint_word_of_int_fits [where 'a = 32] v assms(3) by simp
qed

lemma tame_code:
  assumes "draw_in_range draw" "pattern \<in> {DataMovement, BranchHeavy}"
  shows "list_all tame (fst (generate draw coin n pattern g))"
proof -
  have instr: "tame (fst (rand_instr draw c g))" if "c \<in> set data_ops" for c g
    using that draw_imm_bounded [OF assms(1), of 1000]
    by (auto simp: rand_instr_def randImm_def case_prod_unfold Let_def tame_def data_ops_def)
  have pk: "fst (pick draw data_ops g) \<in> set data_ops" for g
    by (rule pick_mem [OF assms(1)]) (simp add: data_ops_def)
  have "list_all tame (fst (generateDataMovement draw n g))"
    unfolding generateDataMovement_def
    by (rule fold_gen_invariant [where I = "\<lambda>i. list_all tame"])
      (use instr [OF pk] in \<open>simp_all add: case_prod_unfold Let_def\<close>)
  moreover have "list_all tame (fst (generateBranchHeavy draw n g))"
    unfolding generateBranchHeavy_def
    by (rule fold_gen_invariant [where I = "\<lambda>i. list_all tame"])
      (use draw_imm_bounded [OF assms(1), of 100] in \<open>simp_all add: case_prod_unfold Let_def tame_def\<close>)
  moreover have "tame (ins OP_HALT 0 0 0 0)" by (simp add: tame_def)
  ultimately show ?thesis using assms(2) by (auto simp: generate_def case_prod_unfold Let_def)
qed

lemma reset_bounded: "regs_bounded (VMState_reset s)"
proof -
  have "sint (of_nat (Suc k) :: i64) = int (Suc k)" if "k < 16" for k
    using that by (simp add: signed_of_nat signed_take_bit_int_eq_self del: of_nat_Suc)
  then show ?thesis by (auto simp: regs_bounded_def VMState_reset_def simp del: of_nat_Suc)
qed

text \<open>
  C15. Every benchmark program without a loop ends in every interpreter, and all six show the same: whatever the random
  engine draws, for each pattern other than \<open>Loop\<close> and each length \<open>n\<close> with \<open>4 * n < 2 ^ 31\<close> (so that jump targets
  fit the 32-bit immediate), each of the six interpreters, started on a reset state, ends within \<open>4 * n + 1\<close>
  instructions with the same outcome. The outcome is undefined exactly if the program reaches an instruction that
  overflows \<^verbatim>\<open>int64_t\<close>; otherwise it is a value, with the same registers and cycle count in all six. The programs of
  the patterns \<open>DataMovement\<close> and \<open>BranchHeavy\<close> never overflow.
\<close>

theorem generated_programs_end:
  assumes "draw_in_range draw" and "pattern \<noteq> Loop" and "4 * n < 2 ^ 31"
  shows "\<exists>r. (\<forall>exec \<in> {switch_execute, dtc_execute, itc_compile_and_execute,
        (\<lambda>code. ttc_execute (ttc_compile code)), stc_execute, ct_execute}.
      map_option (map_outcome (\<lambda>(v, s'). (v, regs s', cycle_count s')))
        (exec (fst (generate draw coin n pattern g)) (4 * n + 1) (VMState_reset s)) = Some r) \<and>
    (r = Undefined \<longleftrightarrow> overflow_reached (fst (generate draw coin n pattern g)) (VMState_reset s)) \<and>
    (pattern \<in> {DataMovement, BranchHeavy} \<longrightarrow> r \<noteq> Undefined)"
proof -
  let ?code = "fst (generate draw coin n pattern g)" and ?s = "VMState_reset s"
  have f: "forward 0 ?code" "length ?code \<le> 4 * n + 1"
    using generate_forward [OF assms] by auto
  have "length ?code - ip ?s \<le> 4 * n + 1" using f(2) by linarith
  from switch_forward_ends [OF f(1) this]
  obtain r where r: "switch_execute ?code (4 * n + 1) ?s = Some r" "r = Undefined \<longleftrightarrow> overflow_reached ?code ?s" by blast
  have z: "ip ?s = 0" "flags ?s = 0" by (simp_all add: VMState_reset_def)
  have all: "map_option (map_outcome observe) (exec ?code (4 * n + 1) ?s) = Some (map_outcome observe r)"
    if "exec \<in> all_interpreters" for exec
    using all_interpreters_observe [OF that forward_ok [OF f(1)] z, of "4 * n + 1"] r(1) by simp
  have "length ?code \<le> 2 ^ 31" using f(2) assms(3) by linarith
  then have "\<not> overflow_reached ?code ?s" if "pattern \<in> {DataMovement, BranchHeavy}"
    using tame_no_overflow [OF f(1) tame_code [OF assms(1) that] reset_bounded] by blast
  moreover have "map_outcome observe r = Undefined \<longleftrightarrow> r = Undefined" by (cases r) simp_all
  ultimately show ?thesis using all r(2) by (intro exI [of _ "map_outcome observe r"]) blast
qed

theorem generated_programs_end_witness:
  "\<exists>r. (\<forall>exec \<in> {switch_execute, dtc_execute, itc_compile_and_execute,
        (\<lambda>code. ttc_execute (ttc_compile code)), stc_execute, ct_execute}.
      map_option (map_outcome (\<lambda>(v, s'). (v, regs s', cycle_count s')))
        (exec (fst (generate (\<lambda>lo hi g. (lo, g)) (\<lambda>g. (True, g)) 2 BranchHeavy ())) (4 * 2 + 1)
          (VMState_reset VMState_new)) = Some r) \<and> r \<noteq> Undefined"
  using generated_programs_end [of "\<lambda>lo hi g. (lo, g)" BranchHeavy 2 "\<lambda>g. (True, g)" "()" VMState_new]
  by (auto simp: draw_in_range_def)

text \<open>
  The other patterns can overflow: a draw that always takes the lower bound makes \<open>Arithmetic\<close> double register 0 over
  and over.
\<close>

lemma arithmetic_overflows:
  "switch_execute (fst (generate (\<lambda>lo hi g. (lo, g)) (\<lambda>g. (True, g)) 70 Arithmetic ())) 281 (VMState_reset VMState_new) =
    Some Undefined"
  by code_simp

section \<open>The loop program\<close>

text \<open>
  One round of the loop, from its first instruction at index 3 back to it or to the halt: \<open>r0\<close> is
  counted down, \<open>r2\<close> grows by five.
\<close>

definition loop_code :: "nat \<Rightarrow> Instruction list" where
  "loop_code n = generateLoop n @ [ins OP_HALT 0 0 0 0]"

lemma loop_code_list:
  "loop_code n =
    [ins OP_LOAD_IMM 0 0 0 (loop_iterations n), ins OP_LOAD_IMM 1 0 0 0, ins OP_LOAD_IMM 2 0 0 0,
     ins OP_INC 2 0 0 0, ins OP_INC 2 0 0 0, ins OP_INC 2 0 0 0, ins OP_INC 2 0 0 0, ins OP_INC 2 0 0 0,
     ins OP_DEC 0 0 0 0, ins OP_CMP_GT 0 0 1 0, ins OP_JNZ 0 0 0 3, ins OP_HALT 0 0 0 0]"
  by (simp add: loop_code_def generateLoop_def Let_def numeral_eq_Suc)

abbreviation vst :: "i64 list \<Rightarrow> u64 \<Rightarrow> nat \<Rightarrow> u64 \<Rightarrow> basic_VMState" where
  "vst rs f k c \<equiv> \<lparr>regs = rs, flags = f, ip = k, cycle_count = c\<rparr>"

lemma exec_Suc:
  "ip s < length code \<Longrightarrow> switch_execute code (Suc m) s =
    (let s = s\<lparr>cycle_count := cycle_count s + 1\<rparr> in
     case switch_step (code ! ip s) s of
       Go s' \<Rightarrow> switch_execute code m s'
     | Ret \<Rightarrow> Some (Value (regs s ! 0, s))
     | Undef \<Rightarrow> Some Undefined)"
  by (subst switch_execute.simps) simp

lemma loop_code_nth:
  "length (loop_code n) = 12"
  "loop_code n ! 0 = ins OP_LOAD_IMM 0 0 0 (loop_iterations n)"
  "loop_code n ! Suc 0 = ins OP_LOAD_IMM 1 0 0 0" "loop_code n ! 2 = ins OP_LOAD_IMM 2 0 0 0"
  "loop_code n ! 3 = ins OP_INC 2 0 0 0" "loop_code n ! 4 = ins OP_INC 2 0 0 0"
  "loop_code n ! 5 = ins OP_INC 2 0 0 0" "loop_code n ! 6 = ins OP_INC 2 0 0 0"
  "loop_code n ! 7 = ins OP_INC 2 0 0 0" "loop_code n ! 8 = ins OP_DEC 0 0 0 0"
  "loop_code n ! 9 = ins OP_CMP_GT 0 0 1 0" "loop_code n ! 10 = ins OP_JNZ 0 0 0 3"
  "loop_code n ! 11 = ins OP_HALT 0 0 0 0"
  unfolding loop_code_list by simp_all

lemma sint_of_nat_small:
  assumes "k < 2 ^ 62"
  shows "sint (of_nat k :: i64) = int k"
  using assms by (simp add: signed_of_nat signed_take_bit_int_eq_self)

lemma inc_dec_small:
  "k < 2 ^ 61 \<Longrightarrow> inc64 (of_nat k) = Some (of_nat (Suc k))"
  "k < 2 ^ 61 \<Longrightarrow> dec64 (of_nat (Suc k)) = Some (of_nat k)"
  using sint_of_nat_small [of k] sint_of_nat_small [of "Suc k"]
  by (simp_all add: inc64_def dec64_def checked_Some del: of_nat_Suc)

lemma loop_steps:
  "switch_execute (loop_code n) (Suc m) (vst rs f 0 c) =
     switch_execute (loop_code n) m (vst (rs[0 := scast (loop_iterations n)]) f (Suc 0) (c + 1))"
  "switch_execute (loop_code n) (Suc m) (vst rs f (Suc 0) c) =
     switch_execute (loop_code n) m (vst (rs[Suc 0 := 0]) f 2 (c + 1))"
  "switch_execute (loop_code n) (Suc m) (vst rs f 2 c) =
     switch_execute (loop_code n) m (vst (rs[2 := 0]) f 3 (c + 1))"
  "k \<in> {3, 4, 5, 6, 7} \<Longrightarrow> inc64 (rs ! 2) = Some v \<Longrightarrow> switch_execute (loop_code n) (Suc m) (vst rs f k c) =
     switch_execute (loop_code n) m (vst (rs[2 := v]) f (Suc k) (c + 1))"
  "dec64 (rs ! 0) = Some v \<Longrightarrow> switch_execute (loop_code n) (Suc m) (vst rs f 8 c) =
     switch_execute (loop_code n) m (vst (rs[0 := v]) f 9 (c + 1))"
  "switch_execute (loop_code n) (Suc m) (vst rs f 9 c) =
     switch_execute (loop_code n) m (vst rs (if sint (rs ! 0) > sint (rs ! 1) then 1 else 0) 10 (c + 1))"
  "switch_execute (loop_code n) (Suc m) (vst rs f 10 c) =
     switch_execute (loop_code n) m (vst rs f (if f \<noteq> 0 then 3 else 11) (c + 1))"
  "switch_execute (loop_code n) (Suc m) (vst rs f 11 c) = Some (Value (rs ! 0, vst rs f 11 (c + 1)))"
  by (auto simp: exec_Suc loop_code_nth switch_step_def sw_regs_def sw_flags_def put_def
      set1_def mod1_def cmp2_def gt64_def size_of_imm_def numeral_2_eq_2 [symmetric])

lemma loop_incs:
  assumes "length rs = 16" "rs ! 2 = of_nat j" "j < 2 ^ 60"
  shows "switch_execute (loop_code n) (5 + m) (vst rs f 3 c) =
    switch_execute (loop_code n) m (vst (rs[2 := of_nat (j + 5)]) f 8 (c + 5))"
proof -
  have st: "switch_execute (loop_code n) (Suc m) (vst (rs[2 := of_nat (j + a)]) f (3 + a) c) =
      switch_execute (loop_code n) m (vst (rs[2 := of_nat (j + Suc a)]) f (3 + Suc a) (c + 1))" if "a < 5" for a m c
  proof -
    have "inc64 (rs[2 := of_nat (j + a)] ! 2) = Some (of_nat (j + Suc a))"
      using inc_dec_small(1) [of "j + a"] assms that by (simp del: of_nat_add of_nat_Suc)
    moreover have "3 + a \<in> {3, 4, 5, 6, 7}" using that by auto
    ultimately show ?thesis using loop_steps(4) [of "3 + a"] by (simp del: of_nat_add of_nat_Suc)
  qed
  have "switch_execute (loop_code n) (b + m) (vst (rs[2 := of_nat (j + 0)]) f 3 c) =
      switch_execute (loop_code n) m (vst (rs[2 := of_nat (j + b)]) f (3 + b) (c + of_nat b))" if "b \<le> 5" for b m
    using that
  proof (induction b arbitrary: m)
    case (Suc b)
    have "Suc b + m = b + Suc m" by simp
    then have "switch_execute (loop_code n) (Suc b + m) (vst (rs[2 := of_nat (j + 0)]) f 3 c) =
        switch_execute (loop_code n) m (vst (rs[2 := of_nat (j + Suc b)]) f (3 + Suc b) (c + of_nat b + 1))"
      using Suc.IH [of "Suc m"] Suc.prems st [of b m "c + of_nat b"] by simp
    moreover have "c + of_nat b + 1 = c + of_nat (Suc b)" by simp
    ultimately show ?case by (simp only:)
  qed simp
  from this [of 5 m] have "switch_execute (loop_code n) (5 + m) (vst (rs[2 := of_nat j]) f 3 c) =
      switch_execute (loop_code n) m (vst (rs[2 := of_nat (j + 5)]) f 8 (c + 5))" by simp
  then show ?thesis using list_update_id [of rs 2] assms(2) by simp
qed

lemma loop_round:
  assumes "length rs = 16" "rs ! 2 = of_nat j" "j < 2 ^ 60" "rs ! 0 = of_nat (Suc k)" "k < 2 ^ 31"
  shows "switch_execute (loop_code n) (8 + m) (vst rs f 3 c) =
    switch_execute (loop_code n) m
      (vst (rs[2 := of_nat (j + 5), 0 := of_nat k])
        (if int k > sint (rs ! 1) then 1 else 0) (if int k > sint (rs ! 1) then 3 else 11) (c + 8))"
proof -
  have e: "8 + m = 5 + Suc (Suc (Suc m))" by simp
  have "dec64 (rs[2 := of_nat (j + 5)] ! 0) = Some (of_nat k)"
    using inc_dec_small(2) [of k] assms by (simp del: of_nat_add of_nat_Suc)
  moreover have "sint (of_nat k :: i64) = int k" using sint_of_nat_small assms(5) by simp
  ultimately show ?thesis
    unfolding e loop_incs [OF assms(1-3)] using assms(1)
    by (simp add: loop_steps add.commute del: of_nat_add of_nat_Suc)
qed

lemma loop_runs:
  assumes "length rs = 16" "rs ! 1 = 0" "rs ! 0 = of_nat k" "rs ! 2 = of_nat j" "0 < k" "k < 2 ^ 31" "j + 5 * k < 2 ^ 60"
  shows "\<exists>f. switch_execute (loop_code n) (8 * k + 1) (vst rs f0 3 c) =
    Some (Value (0, vst (rs[2 := of_nat (j + 5 * k), 0 := 0]) f 11 (c + 8 * of_nat k + 1)))"
  using assms
proof (induction k arbitrary: rs f0 c j)
  case (Suc k)
  let ?rs = "rs[2 := of_nat (j + 5), 0 := of_nat k]"
  have k: "?rs ! 0 = of_nat k" "?rs ! 1 = 0" "length ?rs = 16" "?rs ! 2 = of_nat (j + 5)"
    using Suc.prems by (simp_all del: of_nat_add)
  have b: "j < 2 ^ 60" "k < 2 ^ 31" "j + 5 + 5 * k < 2 ^ 60" using Suc.prems by auto
  have e: "8 * Suc k + 1 = 8 + (8 * k + 1)" by simp
  note round = loop_round [OF Suc.prems(1,4) b(1) Suc.prems(3) b(2)]
  show ?case
  proof (cases "k = 0")
    case True
    then show ?thesis
      unfolding e round using Suc.prems k by (simp add: loop_steps add.commute del: of_nat_add)
  next
    case False
    then have "int k > sint (rs ! 1)" using Suc.prems(2) by simp
    then have "switch_execute (loop_code n) (8 * Suc k + 1) (vst rs f0 3 c) =
        switch_execute (loop_code n) (8 * k + 1) (vst ?rs 1 3 (c + 8))"
      unfolding e round by simp
    moreover obtain f where "switch_execute (loop_code n) (8 * k + 1) (vst ?rs 1 3 (c + 8)) =
        Some (Value (0, vst (?rs[2 := of_nat (j + 5 + 5 * k), 0 := 0]) f 11 (c + 8 + 8 * of_nat k + 1)))"
      using Suc.IH [OF k(3,2,1,4) _ b(2,3)] False by blast
    moreover have "?rs[2 := of_nat (j + 5 + 5 * k), 0 := 0] = rs[2 := of_nat (j + 5 * Suc k), 0 := 0]"
      by (simp add: list_update_swap algebra_simps)
    ultimately show ?thesis by (auto simp: algebra_simps)
  qed
qed simp

definition iterations :: "nat \<Rightarrow> nat" where
  "iterations n = max 10 (n div 10)"

lemma loop_iterations_eq:
  assumes "n div 10 < 2 ^ 31"
  shows "(scast (loop_iterations n) :: i64) = of_nat (iterations n)" and "iterations n < 2 ^ 31"
proof -
  have "sint (of_nat (n div 10) :: i32) = int (n div 10)"
    using assms by (simp add: signed_of_nat signed_take_bit_int_eq_self)
  then have "sint (loop_iterations n) = int (iterations n)"
    by (simp add: loop_iterations_def iterations_def Let_def)
  then show "(scast (loop_iterations n) :: i64) = of_nat (iterations n)"
    by (simp add: scast_eq)
qed (use assms in \<open>simp add: iterations_def\<close>)

lemma loop_code_ok: "list_all ttc_ok (loop_code n)"
  unfolding loop_code_list
  by (simp add: ttc_ok_def ptr_ok_def is_jump_def regs_in_range_def)

text \<open>
  C16. The loop program ends and computes five times its iteration count: started on a reset state
  each of the six interpreters executes \<open>8 * k + 4\<close> instructions for \<open>k\<close> iterations (a tenth of the
  requested length, at least ten), returns zero, and leaves zero in register 0 and \<open>5 * k\<close> in
  register 2.
\<close>

theorem loop_program_result:
  assumes "n div 10 < 2 ^ 31"
    and "exec \<in> {switch_execute, dtc_execute, itc_compile_and_execute,
      (\<lambda>code. ttc_execute (ttc_compile code)), stc_execute, ct_execute}"
  shows "\<exists>s'. exec (fst (generate draw coin n Loop g)) (8 * iterations n + 4) (VMState_reset s) =
      Some (Value (0, s')) \<and> regs s' ! 0 = 0 \<and> regs s' ! 2 = 5 * of_nat (iterations n) \<and>
      cycle_count s' = 8 * of_nat (iterations n) + 4"
proof -
  let ?k = "iterations n" and ?s = "VMState_reset s"
  define rs :: "i64 list" where "rs = (regs ?s)[0 := of_nat ?k, Suc 0 := 0, 2 := 0]"
  note it = loop_iterations_eq [OF assms(1)]
  have len: "length (regs ?s) = 16" by (simp add: VMState_reset_def)
  have gen: "fst (generate draw coin n Loop g) = loop_code n" by (simp add: generate_def loop_code_def)
  have e: "8 * ?k + 4 = Suc (Suc (Suc (8 * ?k + 1)))" by simp
  have v: "?s = vst (regs ?s) 0 0 0" by (simp add: VMState_reset_def)
  have "switch_execute (loop_code n) (8 * ?k + 4) ?s = switch_execute (loop_code n) (8 * ?k + 1) (vst rs 0 3 3)"
    by (subst v, subst e) (simp only: loop_steps(1-3) rs_def it(1), simp)
  moreover have rs: "length rs = 16" "rs ! 1 = 0" "rs ! 0 = of_nat ?k" "rs ! 2 = of_nat 0"
    using len by (simp_all add: rs_def)
  have k: "0 < ?k" "0 + 5 * ?k < 2 ^ 60" using it(2) by (simp_all add: iterations_def)
  ultimately obtain f where r: "switch_execute (loop_code n) (8 * ?k + 4) ?s =
      Some (Value (0, vst (rs[2 := of_nat (0 + 5 * ?k), 0 := 0]) f 11 (3 + 8 * of_nat ?k + 1)))"
    using loop_runs [OF rs k(1) it(2) k(2), of n 0 3] by auto
  have z: "ip ?s = 0" "flags ?s = 0" by (simp_all add: VMState_reset_def)
  from all_interpreters_result [OF assms(2) loop_code_ok z r] rs(1) show ?thesis
    unfolding gen by (auto simp: algebra_simps)
qed

theorem loop_program_result_witness:
  "\<exists>s'. ttc_execute (ttc_compile (fst (generate (\<lambda>lo hi g. (lo, g)) (\<lambda>g. (True, g)) 200 Loop ())))
      (8 * iterations 200 + 4) (VMState_reset VMState_new) =
      Some (Value (0, s')) \<and> regs s' ! 0 = 0 \<and> regs s' ! 2 = 5 * of_nat (iterations 200) \<and>
      cycle_count s' = 8 * of_nat (iterations 200) + 4"
  by (rule loop_program_result [where exec = "\<lambda>code. ttc_execute (ttc_compile code)"]) simp_all

end
