(* ===== verification/Elf_Format.thy ===== *)
theory Elf_Format
  imports Prelude
begin

text \<open>
  The byte level of \<^verbatim>\<open>src/llm4fun/linker/mini_elf_linker.cpp\<close>: the little-endian structures of the
  ELF-64 format the linker reads and writes by \<^verbatim>\<open>reinterpret_cast\<close> and \<^verbatim>\<open>memcpy\<close>, the errors the
  program reports, and the class \<^verbatim>\<open>InputObject\<close> over the bytes of one object file.

  A pointer into the file buffer is its offset. A read of bytes that are not all in the buffer is
  undefined in C++ and the value \<open>Undefined_access\<close> here. Every structure is encoded and decoded
  without loss, which is what the linker relies on when it copies headers in and out of buffers.
\<close>

section \<open>Little-endian integers\<close>

primrec nat_bytes :: "nat \<Rightarrow> nat \<Rightarrow> u8 list" where
  "nat_bytes 0 n = []"
| "nat_bytes (Suc k) n = of_nat (n mod 256) # nat_bytes k (n div 256)"

primrec bytes_nat :: "u8 list \<Rightarrow> nat" where
  "bytes_nat [] = 0"
| "bytes_nat (b # bs) = unat b + 256 * bytes_nat bs"

lemma length_nat_bytes [simp]: "length (nat_bytes k n) = k"
  by (induction k arbitrary: n) auto

lemma bytes_nat_bytes [simp]: "bytes_nat (nat_bytes k n) = n mod 256 ^ k"
proof (induction k arbitrary: n)
  case (Suc k)
  have "unat (of_nat (n mod 256) :: u8) = n mod 256"
    by (simp add: unsigned_of_nat take_bit_nat_eq_self)
  then show ?case using Suc by (simp add: mod_mult2_eq)
qed simp

lemma bytes_nat_less: "bytes_nat bs < 256 ^ length bs"
proof (induction bs)
  case (Cons b bs)
  have "unat b < 256" using unsigned_less [of b] by simp
  with Cons show ?case by simp
qed simp

lemma nat_bytes_nat [simp]: "nat_bytes (length bs) (bytes_nat bs) = bs"
proof (induction bs)
  case (Cons b bs)
  have "unat b < 256" using unsigned_less [of b] by simp
  then show ?case using Cons by simp
qed simp

text \<open>The integer of \<open>n\<close> bytes at offset \<open>o\<close> of a structure.\<close>

definition field :: "nat \<Rightarrow> nat \<Rightarrow> u8 list \<Rightarrow> nat" where
  "field pos n bs = bytes_nat (take n (drop pos bs))"

abbreviation b16 :: "u16 \<Rightarrow> u8 list" where "b16 w \<equiv> nat_bytes 2 (unat w)"
abbreviation b32 :: "u32 \<Rightarrow> u8 list" where "b32 w \<equiv> nat_bytes 4 (unat w)"
abbreviation b64 :: "u64 \<Rightarrow> u8 list" where "b64 w \<equiv> nat_bytes 8 (unat w)"

lemma unat_mod_bytes [simp]:
  "unat (w8 :: u8) mod 256 = unat w8" "unat (w16 :: u16) mod 65536 = unat w16"
  "unat (w32 :: u32) mod 4294967296 = unat w32"
  "unat (w64 :: u64) mod 18446744073709551616 = unat w64"
  by (rule mod_less, rule order_less_le_trans [OF unsigned_less], simp)+

section \<open>The structures of \<^verbatim>\<open>elf.h\<close>\<close>

record Elf64_Ehdr =
  e_ident :: "u8 list"
  e_type :: u16
  e_machine :: u16
  e_version :: u32
  e_entry :: u64
  e_phoff :: u64
  e_shoff :: u64
  e_flags :: u32
  e_ehsize :: u16
  e_phentsize :: u16
  e_phnum :: u16
  e_shentsize :: u16
  e_shnum :: u16
  e_shstrndx :: u16

record Elf64_Shdr =
  sh_name :: u32
  sh_type :: u32
  sh_flags :: u64
  sh_addr :: u64
  sh_offset :: u64
  sh_size :: u64
  sh_link :: u32
  sh_info :: u32
  sh_addralign :: u64
  sh_entsize :: u64

record Elf64_Sym =
  st_name :: u32
  st_info :: u8
  st_other :: u8
  st_shndx :: u16
  st_value :: u64
  st_size :: u64

record Elf64_Rela =
  r_offset :: u64
  r_info :: u64
  r_addend :: i64

record Elf64_Phdr =
  p_type :: u32
  p_flags :: u32
  p_offset :: u64
  p_vaddr :: u64
  p_paddr :: u64
  p_filesz :: u64
  p_memsz :: u64
  p_align :: u64

abbreviation (input) sizeof_Ehdr :: nat where "sizeof_Ehdr \<equiv> 64"
abbreviation (input) sizeof_Shdr :: nat where "sizeof_Shdr \<equiv> 64"
abbreviation (input) sizeof_Phdr :: nat where "sizeof_Phdr \<equiv> 56"
abbreviation (input) sizeof_Sym :: nat where "sizeof_Sym \<equiv> 24"
abbreviation (input) sizeof_Rela :: nat where "sizeof_Rela \<equiv> 24"

definition encode_ehdr :: "Elf64_Ehdr \<Rightarrow> u8 list" where
  "encode_ehdr h = e_ident h @ b16 (e_type h) @ b16 (e_machine h) @ b32 (e_version h) @
    b64 (e_entry h) @ b64 (e_phoff h) @ b64 (e_shoff h) @ b32 (e_flags h) @ b16 (e_ehsize h) @
    b16 (e_phentsize h) @ b16 (e_phnum h) @ b16 (e_shentsize h) @ b16 (e_shnum h) @ b16 (e_shstrndx h)"

definition decode_ehdr :: "u8 list \<Rightarrow> Elf64_Ehdr" where
  "decode_ehdr bs =
    \<lparr>e_ident = take 16 bs, e_type = of_nat (field 16 2 bs), e_machine = of_nat (field 18 2 bs),
     e_version = of_nat (field 20 4 bs), e_entry = of_nat (field 24 8 bs),
     e_phoff = of_nat (field 32 8 bs), e_shoff = of_nat (field 40 8 bs),
     e_flags = of_nat (field 48 4 bs), e_ehsize = of_nat (field 52 2 bs),
     e_phentsize = of_nat (field 54 2 bs), e_phnum = of_nat (field 56 2 bs),
     e_shentsize = of_nat (field 58 2 bs), e_shnum = of_nat (field 60 2 bs),
     e_shstrndx = of_nat (field 62 2 bs)\<rparr>"

definition encode_shdr :: "Elf64_Shdr \<Rightarrow> u8 list" where
  "encode_shdr h = b32 (sh_name h) @ b32 (sh_type h) @ b64 (sh_flags h) @ b64 (sh_addr h) @
    b64 (sh_offset h) @ b64 (sh_size h) @ b32 (sh_link h) @ b32 (sh_info h) @
    b64 (sh_addralign h) @ b64 (sh_entsize h)"

definition decode_shdr :: "u8 list \<Rightarrow> Elf64_Shdr" where
  "decode_shdr bs =
    \<lparr>sh_name = of_nat (field 0 4 bs), sh_type = of_nat (field 4 4 bs),
     sh_flags = of_nat (field 8 8 bs), sh_addr = of_nat (field 16 8 bs),
     sh_offset = of_nat (field 24 8 bs), sh_size = of_nat (field 32 8 bs),
     sh_link = of_nat (field 40 4 bs), sh_info = of_nat (field 44 4 bs),
     sh_addralign = of_nat (field 48 8 bs), sh_entsize = of_nat (field 56 8 bs)\<rparr>"

definition encode_sym :: "Elf64_Sym \<Rightarrow> u8 list" where
  "encode_sym s = b32 (st_name s) @ [st_info s, st_other s] @ b16 (st_shndx s) @
    b64 (st_value s) @ b64 (st_size s)"

definition decode_sym :: "u8 list \<Rightarrow> Elf64_Sym" where
  "decode_sym bs =
    \<lparr>st_name = of_nat (field 0 4 bs), st_info = of_nat (field 4 1 bs),
     st_other = of_nat (field 5 1 bs), st_shndx = of_nat (field 6 2 bs),
     st_value = of_nat (field 8 8 bs), st_size = of_nat (field 16 8 bs)\<rparr>"

definition encode_rela :: "Elf64_Rela \<Rightarrow> u8 list" where
  "encode_rela r = b64 (r_offset r) @ b64 (r_info r) @ b64 (r_addend r)"

definition decode_rela :: "u8 list \<Rightarrow> Elf64_Rela" where
  "decode_rela bs =
    \<lparr>r_offset = of_nat (field 0 8 bs), r_info = of_nat (field 8 8 bs),
     r_addend = of_nat (field 16 8 bs)\<rparr>"

definition encode_phdr :: "Elf64_Phdr \<Rightarrow> u8 list" where
  "encode_phdr h = b32 (p_type h) @ b32 (p_flags h) @ b64 (p_offset h) @ b64 (p_vaddr h) @
    b64 (p_paddr h) @ b64 (p_filesz h) @ b64 (p_memsz h) @ b64 (p_align h)"

definition decode_phdr :: "u8 list \<Rightarrow> Elf64_Phdr" where
  "decode_phdr bs =
    \<lparr>p_type = of_nat (field 0 4 bs), p_flags = of_nat (field 4 4 bs),
     p_offset = of_nat (field 8 8 bs), p_vaddr = of_nat (field 16 8 bs),
     p_paddr = of_nat (field 24 8 bs), p_filesz = of_nat (field 32 8 bs),
     p_memsz = of_nat (field 40 8 bs), p_align = of_nat (field 48 8 bs)\<rparr>"

lemma length_encode [simp]:
  "length (encode_ehdr h) = length (e_ident h) + 48" "length (encode_shdr s) = sizeof_Shdr"
  "length (encode_sym y) = sizeof_Sym" "length (encode_rela r) = sizeof_Rela"
  "length (encode_phdr p) = sizeof_Phdr"
  by (simp_all add: encode_ehdr_def encode_shdr_def encode_sym_def encode_rela_def encode_phdr_def)

lemma decode_encode_ehdr: "length (e_ident h) = 16 \<Longrightarrow> decode_ehdr (encode_ehdr h @ bs) = h"
  by (cases h) (simp add: decode_ehdr_def encode_ehdr_def field_def)

lemma decode_encode_shdr: "decode_shdr (encode_shdr h @ bs) = h"
  by (cases h) (simp add: decode_shdr_def encode_shdr_def field_def)

lemma decode_encode_sym: "decode_sym (encode_sym h @ bs) = h"
  by (cases h) (simp add: decode_sym_def encode_sym_def field_def)

lemma decode_encode_rela: "decode_rela (encode_rela h @ bs) = h"
  by (cases h) (simp add: decode_rela_def encode_rela_def field_def)

lemma decode_encode_phdr: "decode_phdr (encode_phdr h @ bs) = h"
  by (cases h) (simp add: decode_phdr_def encode_phdr_def field_def)

lemmas decode_encode = decode_encode_ehdr decode_encode_shdr decode_encode_sym decode_encode_rela
  decode_encode_phdr

section \<open>Constants of \<^verbatim>\<open>elf.h\<close>\<close>

abbreviation (input) ELFMAG :: "u8 list" where "ELFMAG \<equiv> [0x7F, 0x45, 0x4C, 0x46]"
abbreviation (input) ET_REL :: u16 where "ET_REL \<equiv> 1"
abbreviation (input) ET_EXEC :: u16 where "ET_EXEC \<equiv> 2"
abbreviation (input) EM_X86_64 :: u16 where "EM_X86_64 \<equiv> 62"
abbreviation (input) SHT_PROGBITS :: u32 where "SHT_PROGBITS \<equiv> 1"
abbreviation (input) SHT_SYMTAB :: u32 where "SHT_SYMTAB \<equiv> 2"
abbreviation (input) SHT_RELA :: u32 where "SHT_RELA \<equiv> 4"
abbreviation (input) SHT_NOBITS :: u32 where "SHT_NOBITS \<equiv> 8"
abbreviation (input) SHT_INIT_ARRAY :: u32 where "SHT_INIT_ARRAY \<equiv> 14"
abbreviation (input) SHT_FINI_ARRAY :: u32 where "SHT_FINI_ARRAY \<equiv> 15"
abbreviation (input) SHT_PREINIT_ARRAY :: u32 where "SHT_PREINIT_ARRAY \<equiv> 16"
abbreviation (input) SHF_WRITE :: u64 where "SHF_WRITE \<equiv> 1"
abbreviation (input) SHF_ALLOC :: u64 where "SHF_ALLOC \<equiv> 2"
abbreviation (input) SHF_EXECINSTR :: u64 where "SHF_EXECINSTR \<equiv> 4"
abbreviation (input) SHN_UNDEF :: u16 where "SHN_UNDEF \<equiv> 0"
abbreviation (input) SHN_LORESERVE :: u16 where "SHN_LORESERVE \<equiv> 0xFF00"
abbreviation (input) SHN_ABS :: u16 where "SHN_ABS \<equiv> 0xFFF1"
abbreviation (input) STB_LOCAL :: u8 where "STB_LOCAL \<equiv> 0"
abbreviation (input) STB_GLOBAL :: u8 where "STB_GLOBAL \<equiv> 1"
abbreviation (input) STB_WEAK :: u8 where "STB_WEAK \<equiv> 2"
abbreviation (input) STT_NOTYPE :: u8 where "STT_NOTYPE \<equiv> 0"
abbreviation (input) PT_LOAD :: u32 where "PT_LOAD \<equiv> 1"
abbreviation (input) PT_GNU_STACK :: u32 where "PT_GNU_STACK \<equiv> 0x6474E551"
abbreviation (input) R_X86_64_NONE :: nat where "R_X86_64_NONE \<equiv> 0"
abbreviation (input) R_X86_64_64 :: nat where "R_X86_64_64 \<equiv> 1"
abbreviation (input) R_X86_64_PC32 :: nat where "R_X86_64_PC32 \<equiv> 2"
abbreviation (input) R_X86_64_PLT32 :: nat where "R_X86_64_PLT32 \<equiv> 4"
abbreviation (input) R_X86_64_32 :: nat where "R_X86_64_32 \<equiv> 10"
abbreviation (input) R_X86_64_32S :: nat where "R_X86_64_32S \<equiv> 11"

section \<open>Errors\<close>

text \<open>
  One constructor for each message after which the program exits, the exception of a vector resized
  to a negative count, and undefined accesses.
\<close>

datatype link_error =
    Usage
  | Cannot_open string
  | File_too_small string
  | Not_an_ELF_file string
  | Not_relocatable string u16
  | Not_x86_64 string
  | Invalid_shstrndx string
  | Invalid_symtab_link string
  | Cannot_read_string_table string
  | Duplicate_symbol string string string
  | Undefined_symbol string
  | Invalid_symbol_index string int
  | Relocation_out_of_bounds string int
  | Relocation_overflow string int string
  | Unsupported_relocation string int
  | Length_error
  | Undefined_access

section \<open>Input objects\<close>

record InputObject =
  filename :: string
  buf :: "u8 list"

text \<open>\<open>n\<close> bytes at offset \<open>pos\<close> of a buffer, and the C string that starts there.\<close>

definition read_at :: "u8 list \<Rightarrow> nat \<Rightarrow> nat \<Rightarrow> link_error + u8 list" where
  "read_at bs pos n =
    (if pos + n \<le> length bs then Inr (take n (drop pos bs)) else Inl Undefined_access)"

definition c_string :: "u8 list \<Rightarrow> nat \<Rightarrow> link_error + string" where
  "c_string bs pos =
    (if 0 \<in> set (drop pos bs)
     then Inr (map (\<lambda>b. char_of (unat b)) (takeWhile (\<lambda>b. b \<noteq> 0) (drop pos bs)))
     else Inl Undefined_access)"

definition ehdr :: "InputObject \<Rightarrow> Elf64_Ehdr" where
  "ehdr obj = decode_ehdr (take sizeof_Ehdr (buf obj))"

definition shnum :: "InputObject \<Rightarrow> int" where
  "shnum obj = uint (e_shnum (ehdr obj))"

text \<open>A null pointer is \<open>None\<close>.\<close>

definition shdr :: "InputObject \<Rightarrow> int \<Rightarrow> link_error + Elf64_Shdr option" where
  "shdr obj i =
    (if i < 0 \<or> i \<ge> shnum obj then Inr None
     else bind_res (read_at (buf obj) (unat (e_shoff (ehdr obj)) + nat i * sizeof_Shdr) sizeof_Shdr)
       (\<lambda>bs. Inr (Some (decode_shdr bs))))"

text \<open>The pointer into the section name table; \<open>None\<close> is the empty literal.\<close>

definition shstrtab :: "InputObject \<Rightarrow> link_error + nat option" where
  "shstrtab obj =
    bind_res (shdr obj (uint (e_shstrndx (ehdr obj))))
      (\<lambda>r. case r of None \<Rightarrow> Inr None | Some sh \<Rightarrow> Inr (Some (unat (sh_offset sh))))"

definition sec_name :: "InputObject \<Rightarrow> int \<Rightarrow> link_error + string" where
  "sec_name obj i =
    bind_res (shdr obj i) (\<lambda>r. case r of
      None \<Rightarrow> Inr []
    | Some sh \<Rightarrow> bind_res (shstrtab obj) (\<lambda>p. case p of
        None \<Rightarrow> if sh_name sh = 0 then Inr [] else Inl Undefined_access
      | Some q \<Rightarrow> c_string (buf obj) (q + unat (sh_name sh))))"

definition sec_data :: "InputObject \<Rightarrow> int \<Rightarrow> link_error + nat option" where
  "sec_data obj i =
    bind_res (shdr obj i) (\<lambda>r. case r of
      None \<Rightarrow> Inr None
    | Some sh \<Rightarrow> Inr (Some (unat (sh_offset sh))))"

text \<open>
  The checks on one input, in the order of the source. The file system is the parameter \<open>fs\<close>: the
  contents of a file that can be opened.
\<close>

definition read_file :: "(string \<Rightarrow> u8 list option) \<Rightarrow> string \<Rightarrow> link_error + u8 list" where
  "read_file fs path = (case fs path of None \<Rightarrow> Inl (Cannot_open path) | Some bs \<Rightarrow> Inr bs)"

definition check_object :: "InputObject \<Rightarrow> link_error + InputObject" where
  "check_object obj =
  (if length (buf obj) < sizeof_Ehdr then Inl (File_too_small (filename obj))
   else let e = ehdr obj
     in if take 4 (e_ident e) \<noteq> ELFMAG then Inl (Not_an_ELF_file (filename obj))
        else if e_type e \<noteq> ET_REL then Inl (Not_relocatable (filename obj) (e_type e))
        else if e_machine e \<noteq> EM_X86_64 then Inl (Not_x86_64 (filename obj))
        else if e_shstrndx e \<ge> e_shnum e then Inl (Invalid_shstrndx (filename obj))
        else Inr obj)"

definition read_objects :: "(string \<Rightarrow> u8 list option) \<Rightarrow> string list \<Rightarrow> link_error + InputObject list" where
  "read_objects fs paths =
    fold_res (\<lambda>path objects.
      bind_res (read_file fs path) (\<lambda>bs.
      bind_res (check_object \<lparr>filename = path, buf = bs\<rparr>) (\<lambda>obj. Inr (objects @ [obj]))))
    paths []"

text \<open>What the checks establish of an object.\<close>

definition object_ok :: "InputObject \<Rightarrow> bool" where
  "object_ok obj \<longleftrightarrow> sizeof_Ehdr \<le> length (buf obj) \<and> take 4 (buf obj) = ELFMAG \<and>
    e_type (ehdr obj) = ET_REL \<and> e_machine (ehdr obj) = EM_X86_64 \<and>
    uint (e_shstrndx (ehdr obj)) < shnum obj"

lemma take_ident: "take 4 (e_ident (ehdr obj)) = take 4 (buf obj)"
  by (simp add: ehdr_def decode_ehdr_def)

lemma check_object_Inr: "check_object obj = Inr obj' \<longleftrightarrow> obj' = obj \<and> object_ok obj"
  by (auto simp: check_object_def object_ok_def Let_def take_ident shnum_def word_less_def
      word_le_def not_le)

lemma read_objects_snoc:
  "read_objects fs (paths @ [path]) =
    bind_res (read_objects fs paths) (\<lambda>objects.
      bind_res (read_file fs path) (\<lambda>bs.
      bind_res (check_object \<lparr>filename = path, buf = bs\<rparr>) (\<lambda>obj. Inr (objects @ [obj]))))"
  by (cases "read_objects fs paths") (simp_all add: read_objects_def fold_res_append bind_res_def
      split: sum.splits)

text \<open>Success means that every file could be read, in order, and passed the checks.\<close>

lemma read_objects_Inr:
  "read_objects fs paths = Inr objects \<longleftrightarrow>
    map filename objects = paths \<and> (\<forall>obj \<in> set objects. fs (filename obj) = Some (buf obj) \<and> object_ok obj)"
proof (induction paths arbitrary: objects rule: rev_induct)
  case Nil
  then show ?case by (auto simp: read_objects_def)
next
  case (snoc path paths)
  show ?case
  proof (cases objects rule: rev_cases)
    case Nil
    then show ?thesis
      by (auto simp: read_objects_snoc bind_res_Inr)
  next
    case (snoc objs obj)
    then show ?thesis
      by (cases obj)
        (auto simp: read_objects_snoc bind_res_Inr snoc.IH check_object_Inr read_file_def split: option.splits)
  qed
qed

end
