(* ===== verification/Elf_Layout.thy ===== *)
theory Elf_Layout
  imports Elf_Format
begin

text \<open>
  Steps 2 to 4 of \<^verbatim>\<open>src/llm4fun/linker/mini_elf_linker.cpp\<close>: the sections of the inputs become chunks,
  chunks of one name are merged into an output section, the sections are sorted by kind, and chunks
  and sections get their offsets and addresses.

  Vectors are lists and indices into them are \<open>nat\<close> (the source's \<^verbatim>\<open>int\<close>: the program has fewer than
  \<open>2 ^ 31\<close> chunks); \<^verbatim>\<open>std::map\<close> with a key that is only looked up is a map. Sizes and addresses are
  64-bit words and wrap as in the source. \<^verbatim>\<open>std::stable_sort\<close> by rank is \<open>sort_key\<close>, which is stable.
\<close>

section \<open>Chunks\<close>

record Chunk =
  c_obj_idx :: nat
  c_shdr_idx :: int
  c_name :: string
  c_size :: u64
  c_align :: u64
  c_flags :: u64
  c_type :: u32
  c_data :: "u8 list"
  c_offset :: u64

record OutputSection =
  os_name :: string
  os_flags :: u64
  os_align :: u64
  os_vaddr :: u64
  os_foff :: u64
  os_size :: u64
  os_filesz :: u64
  os_is_bss :: bool
  os_chunk_ids :: "nat list"

definition BASE_ADDR :: u64 where
  "BASE_ADDR = 0x400000"

definition PAGE_SIZE :: u64 where
  "PAGE_SIZE = 0x1000"

definition align_up :: "u64 \<Rightarrow> u64 \<Rightarrow> u64" where
  "align_up v a = (if a \<noteq> 0 then (v + a - 1) AND NOT (a - 1) else v)"

definition is_alloc_section_type :: "u32 \<Rightarrow> bool" where
  "is_alloc_section_type t \<longleftrightarrow>
    t = SHT_PROGBITS \<or> t = SHT_NOBITS \<or> t = SHT_INIT_ARRAY \<or> t = SHT_FINI_ARRAY \<or> t = SHT_PREINIT_ARRAY"

type_synonym sec_map = "nat \<times> int \<rightharpoonup> nat"

text \<open>The bytes a chunk takes over from its section.\<close>

definition section_bytes :: "InputObject \<Rightarrow> int \<Rightarrow> Elf64_Shdr \<Rightarrow> link_error + u8 list" where
  "section_bytes obj si sh =
  (if sh_type sh = SHT_NOBITS then Inr (replicate (unat (sh_size sh)) 0)
   else bind_res (sec_data obj si) (\<lambda>d. case d of
       Some p \<Rightarrow> read_at (buf obj) p (unat (sh_size sh))
     | None \<Rightarrow> Inr (replicate (unat (sh_size sh)) 0)))"

definition collect_section ::
    "nat \<Rightarrow> InputObject \<Rightarrow> int \<Rightarrow> Chunk list \<times> sec_map \<Rightarrow> link_error + Chunk list \<times> sec_map" where
  "collect_section oi obj si st =
  bind_res (shdr obj si) (\<lambda>r. case r of
    None \<Rightarrow> Inr st
  | Some sh \<Rightarrow>
      if sh_flags sh AND SHF_ALLOC = 0 then Inr st
      else if \<not> is_alloc_section_type (sh_type sh) then Inr st
      else bind_res (sec_name obj si) (\<lambda>nm.
        bind_res (section_bytes obj si sh) (\<lambda>bytes.
          let (chunks, sec2chunk) = st;
              c = \<lparr>c_obj_idx = oi, c_shdr_idx = si, c_name = nm, c_size = sh_size sh,
                   c_align = (if sh_addralign sh \<noteq> 0 then sh_addralign sh else 1),
                   c_flags = sh_flags sh, c_type = sh_type sh, c_data = bytes, c_offset = 0\<rparr>
          in Inr (chunks @ [c], sec2chunk((oi, si) \<mapsto> length chunks)))))"

definition section_indices :: "InputObject \<Rightarrow> int list" where
  "section_indices obj = map int [1..<nat (shnum obj)]"

definition collect_chunks :: "InputObject list \<Rightarrow> link_error + Chunk list \<times> sec_map" where
  "collect_chunks objects =
    fold_res (\<lambda>(oi, obj). fold_res (collect_section oi obj) (section_indices obj))
      (enumerate 0 objects) ([], Map.empty)"

section \<open>Output sections\<close>

definition get_or_create ::
    "string \<Rightarrow> u64 \<Rightarrow> u64 \<Rightarrow> bool \<Rightarrow> OutputSection list \<times> (string \<rightharpoonup> nat)
     \<Rightarrow> nat \<times> OutputSection list \<times> (string \<rightharpoonup> nat)" where
  "get_or_create nm fl al bss st =
  (let (osecs, osec_map) = st
   in case osec_map nm of
        Some i \<Rightarrow> (i, osecs[i := (osecs ! i)\<lparr>os_align := max (os_align (osecs ! i)) al\<rparr>], osec_map)
      | None \<Rightarrow>
          (length osecs,
           osecs @ [\<lparr>os_name = nm, os_flags = fl, os_align = al, os_vaddr = 0, os_foff = 0, os_size = 0,
             os_filesz = 0, os_is_bss = bss, os_chunk_ids = []\<rparr>],
           osec_map(nm \<mapsto> length osecs)))"

definition add_chunk ::
    "nat \<times> Chunk \<Rightarrow> OutputSection list \<times> (string \<rightharpoonup> nat) \<Rightarrow> OutputSection list \<times> (string \<rightharpoonup> nat)" where
  "add_chunk k st =
  (let (ci, ch) = k;
       is_bss = (c_type ch = SHT_NOBITS);
       (i, osecs, osec_map) = get_or_create (c_name ch) (c_flags ch) (c_align ch) is_bss st;
       osecs = osecs[i := (osecs ! i)\<lparr>os_chunk_ids := os_chunk_ids (osecs ! i) @ [ci]\<rparr>];
       osecs = (if is_bss then osecs[i := (osecs ! i)\<lparr>os_is_bss := True\<rparr>] else osecs)
   in (osecs, osec_map))"

definition merge_chunks :: "Chunk list \<Rightarrow> OutputSection list \<times> (string \<rightharpoonup> nat)" where
  "merge_chunks chunks = fold add_chunk (enumerate 0 chunks) ([], Map.empty)"

definition os_rank :: "OutputSection \<Rightarrow> nat" where
  "os_rank s =
  (if os_flags s AND SHF_EXECINSTR \<noteq> 0 then 0
   else if os_flags s AND SHF_WRITE = 0 then 1
   else if os_is_bss s then 3
   else 2)"

text \<open>\<^verbatim>\<open>for (i ...) osec_map[osecs[i].name] = i;\<close> on a cleared map.\<close>

definition index_map :: "OutputSection list \<Rightarrow> (string \<rightharpoonup> nat)" where
  "index_map osecs = fold (\<lambda>(i, os) m. m(os_name os \<mapsto> i)) (enumerate 0 osecs) Map.empty"

definition create_sections :: "Chunk list \<Rightarrow> OutputSection list" where
  "create_sections chunks =
    sort_key os_rank (filter (\<lambda>s. os_chunk_ids s \<noteq> []) (fst (merge_chunks chunks)))"

section \<open>Layout\<close>

definition layout_chunk :: "nat \<Rightarrow> u64 \<times> Chunk list \<Rightarrow> u64 \<times> Chunk list" where
  "layout_chunk ci st =
  (let (off, chunks) = st;
       off = align_up off (c_align (chunks ! ci));
       chunks = chunks[ci := (chunks ! ci)\<lparr>c_offset := off\<rparr>];
       off = off + c_size (chunks ! ci)
   in (off, chunks))"

definition layout_section :: "OutputSection \<Rightarrow> Chunk list \<Rightarrow> OutputSection \<times> Chunk list" where
  "layout_section os chunks =
  (let (off, chunks) = fold layout_chunk (os_chunk_ids os) (0, chunks)
   in (os\<lparr>os_size := off, os_filesz := (if os_is_bss os then 0 else off)\<rparr>, chunks))"

primrec layout_sections :: "OutputSection list \<Rightarrow> Chunk list \<Rightarrow> OutputSection list \<times> Chunk list" where
  "layout_sections [] chunks = ([], chunks)"
| "layout_sections (os # osecs) chunks =
  (let (os, chunks) = layout_section os chunks;
       (osecs, chunks) = layout_sections osecs chunks
   in (os # osecs, chunks))"

section \<open>Addresses\<close>

definition num_phdrs :: u64 where
  "num_phdrs = 2"

definition hdr_size :: u64 where
  "hdr_size = of_nat sizeof_Ehdr + num_phdrs * of_nat sizeof_Phdr"

definition place_section :: "OutputSection \<Rightarrow> u64 \<times> u64 \<Rightarrow> OutputSection \<times> u64 \<times> u64" where
  "place_section os cur =
  (let (file_cur, vaddr_cur) = cur;
       vaddr_cur = align_up vaddr_cur (os_align os);
       os = os\<lparr>os_vaddr := vaddr_cur\<rparr>;
       (os, file_cur) =
         (if \<not> os_is_bss os then
            let file_cur = align_up file_cur (os_align os)
            in (os\<lparr>os_foff := file_cur\<rparr>, file_cur + os_filesz os)
          else (os\<lparr>os_foff := file_cur\<rparr>, file_cur))
   in (os, file_cur, vaddr_cur + os_size os))"

primrec place_sections :: "OutputSection list \<Rightarrow> u64 \<times> u64 \<Rightarrow> OutputSection list \<times> u64 \<times> u64" where
  "place_sections [] cur = ([], cur)"
| "place_sections (os # osecs) cur =
  (let (os, cur) = place_section os cur;
       (osecs, cur) = place_sections osecs cur
   in (os # osecs, cur))"

text \<open>The result of steps 3 and 4: sections, chunks, and the sizes of the file and of the image.\<close>

record layout =
  l_osecs :: "OutputSection list"
  l_chunks :: "Chunk list"
  l_filesz :: u64
  l_memsz :: u64

definition start_cur :: "u64 \<times> u64" where
  "start_cur = (align_up hdr_size 16, BASE_ADDR + align_up hdr_size 16)"

definition make_layout :: "Chunk list \<Rightarrow> layout" where
  "make_layout chunks =
  (let (osecs, chunks) = layout_sections (create_sections chunks) chunks;
       (osecs, file_cur, vaddr_cur) = place_sections osecs start_cur
   in \<lparr>l_osecs = osecs, l_chunks = chunks, l_filesz = file_cur, l_memsz = vaddr_cur - BASE_ADDR\<rparr>)"

text \<open>
  The address of a chunk: \<^verbatim>\<open>osecs[osi].vaddr + chunk.offset_in_osec\<close> for the section of its name.
\<close>

definition chunk_vaddr :: "OutputSection list \<Rightarrow> (string \<rightharpoonup> nat) \<Rightarrow> Chunk \<Rightarrow> u64 option" where
  "chunk_vaddr osecs osec_map c =
    (case osec_map (c_name c) of
       None \<Rightarrow> None
     | Some osi \<Rightarrow> Some (os_vaddr (osecs ! osi) + c_offset c))"

end
