(* ===== verification/Elf_Layout_Correct.thy ===== *)
theory Elf_Layout_Correct
  imports Elf_Layout
begin

text \<open>
  What the layout of the linker guarantees: every chunk belongs to exactly one output section, the
  sections are ordered by kind, chunks are aligned and do not overlap inside their section, and
  sections are aligned and do not overlap in the file or in memory. The only assumption on the
  input is that alignments are powers of two and that the sizes do not exhaust 64 bits
  (\<open>chunks_ok\<close>, \<open>chunks_fit\<close>).
\<close>

unbundle bit_operations_syntax

section \<open>Rounding up\<close>

definition pow2 :: "u64 \<Rightarrow> bool" where
  "pow2 a \<longleftrightarrow> a \<in> set (map (\<lambda>k. 2 ^ k) [0..<64])"

lemma pow2E: "pow2 a \<Longrightarrow> (\<And>k. a = 2 ^ k \<Longrightarrow> k < 64 \<Longrightarrow> P) \<Longrightarrow> P"
  by (auto simp: pow2_def simp del: upt_Suc)

lemma pow2I: "k < 64 \<Longrightarrow> pow2 (2 ^ k)"
  by (simp add: pow2_def)

lemma pow2_max: "pow2 a \<Longrightarrow> pow2 b \<Longrightarrow> pow2 (max a b)"
  by (simp add: max_def)

lemma unat_align_up:
  assumes "a = 2 ^ k" and "k < 64" and "unat v + 2 ^ k \<le> 2 ^ 64"
  shows "unat (align_up v a) = (unat v + 2 ^ k - 1) div 2 ^ k * 2 ^ k"
proof -
  have a0: "a \<noteq> 0" using assms(1,2) by simp
  have m: "a - 1 = mask k" by (simp add: assms(1) mask_eq_exp_minus_1)
  have u: "unat a = 2 ^ k" using assms(1,2) by (simp add: unat_exp_less)
  have "1 \<le> a" using a0 by (simp add: word_le_nat_alt u)
  then have p: "unat (a - 1) = 2 ^ k - 1" by (simp add: unat_sub u)
  have "unat (v + (a - 1)) = unat v + 2 ^ k - 1"
    using assms(3) by (subst unat_add_less) (simp_all add: p)
  then have "unat (v + a - 1) = unat v + 2 ^ k - 1" by (simp only: add_diff_eq)
  then show ?thesis using a0 by (simp add: align_up_def m unat_and_not_mask)
qed

text \<open>For a power of two that leaves room, the result is the least multiple from the value on.\<close>

lemma align_up_spec:
  assumes "pow2 a" and "unat v + unat a \<le> 2 ^ 64"
  shows "unat v \<le> unat (align_up v a)" and "unat (align_up v a) < unat v + unat a"
    and "unat a dvd unat (align_up v a)"
    and "\<And>m. unat a dvd m \<Longrightarrow> unat v \<le> m \<Longrightarrow> unat (align_up v a) \<le> m"
proof -
  from assms(1) obtain k where k: "a = 2 ^ k" "k < 64" by (rule pow2E)
  have u: "unat a = 2 ^ k" using k by (simp add: unat_exp_less)
  define n where "n = unat v"
  define b where "b = (2::nat) ^ k"
  have b: "0 < b" by (simp add: b_def)
  have e: "unat (align_up v a) = (n + b - 1) div b * b"
    using unat_align_up [OF k] assms(2) by (simp add: u n_def b_def)
  have d: "(n + b - 1) div b * b + (n + b - 1) mod b = n + b - 1" by simp
  have m: "(n + b - 1) mod b < b" using b by simp
  show "unat v \<le> unat (align_up v a)" "unat (align_up v a) < unat v + unat a"
    unfolding e u n_def [symmetric] b_def [symmetric] using d m b by linarith+
  show "unat a dvd unat (align_up v a)" unfolding e u b_def [symmetric] by simp
  fix m assume m: "unat a dvd m" "unat v \<le> m"
  then obtain q where q: "m = b * q" unfolding u b_def [symmetric] by (elim dvdE)
  have "n + b - 1 < b * Suc q" using m(2) q b by (simp add: n_def)
  then have "(n + b - 1) div b < Suc q" by (simp add: less_mult_imp_div_less mult.commute)
  then show "unat (align_up v a) \<le> m" unfolding e q by simp
qed

section \<open>Merging chunks into sections\<close>

text \<open>
  \<open>section_of chunks n os\<close>: the section holds exactly the chunks of its name among the first \<open>n\<close>, in
  order. \<open>section_facts\<close>: they are at least one, and the section has the flags of the first and the
  largest alignment of them and is zero-initialised as soon as one of them is.
\<close>

definition section_facts :: "Chunk list \<Rightarrow> OutputSection \<Rightarrow> bool" where
  "section_facts chunks os \<longleftrightarrow>
    os_chunk_ids os \<noteq> [] \<and>
    os_flags os = c_flags (chunks ! hd (os_chunk_ids os)) \<and>
    list_all (\<lambda>ci. c_align (chunks ! ci) \<le> os_align os) (os_chunk_ids os) \<and>
    list_ex (\<lambda>ci. c_align (chunks ! ci) = os_align os) (os_chunk_ids os) \<and>
    (os_is_bss os \<longleftrightarrow> list_ex (\<lambda>ci. c_type (chunks ! ci) = SHT_NOBITS) (os_chunk_ids os))"

definition section_of :: "Chunk list \<Rightarrow> nat \<Rightarrow> OutputSection \<Rightarrow> bool" where
  "section_of chunks n os \<longleftrightarrow>
    os_chunk_ids os = filter (\<lambda>ci. c_name (chunks ! ci) = os_name os) [0..<n] \<and> section_facts chunks os"

definition indexed :: "OutputSection list \<Rightarrow> (string \<rightharpoonup> nat) \<Rightarrow> bool" where
  "indexed osecs m \<longleftrightarrow> (\<forall>nm i. m nm = Some i \<longleftrightarrow> i < length osecs \<and> os_name (osecs ! i) = nm)"

definition merge_inv :: "Chunk list \<Rightarrow> nat \<Rightarrow> OutputSection list \<times> (string \<rightharpoonup> nat) \<Rightarrow> bool" where
  "merge_inv chunks n st \<longleftrightarrow> indexed (fst st) (snd st) \<and> list_all (section_of chunks n) (fst st) \<and>
    (\<forall>ci < n. c_name (chunks ! ci) \<in> dom (snd st))"

lemma indexedD: "indexed osecs m \<Longrightarrow> m nm = Some i \<Longrightarrow> i < length osecs \<and> os_name (osecs ! i) = nm"
  by (simp add: indexed_def)

lemma indexed_name: "indexed osecs m \<Longrightarrow> j < length osecs \<Longrightarrow> m (os_name (osecs ! j)) = Some j"
  by (simp add: indexed_def)

lemma indexed_update:
  assumes "indexed osecs m" and "os_name x = os_name (osecs ! i)"
  shows "indexed (osecs[i := x]) m"
proof -
  have "os_name (osecs[i := x] ! j) = os_name (osecs ! j)" for j
    using assms(2) by (cases "i < length osecs"; cases "i = j") (auto simp: list_update_beyond)
  then show ?thesis using assms(1) by (simp add: indexed_def)
qed

lemma indexed_snoc:
  "indexed osecs m \<Longrightarrow> m (os_name x) = None \<Longrightarrow> indexed (osecs @ [x]) (m(os_name x \<mapsto> length osecs))"
  by (auto simp: indexed_def nth_append less_Suc_eq split: if_splits) (metis option.distinct(1))+

lemma indexed_distinct: "indexed osecs m \<Longrightarrow> distinct (map os_name osecs)"
  by (auto simp: indexed_def distinct_conv_nth) (metis option.inject)

lemma section_of_other:
  "section_of chunks n os \<Longrightarrow> c_name (chunks ! n) \<noteq> os_name os \<Longrightarrow> section_of chunks (Suc n) os"
  by (simp add: section_of_def)

lemma section_of_new:
  assumes "os_name os = c_name (chunks ! n)" and "os_chunk_ids os = [n]"
    and "\<forall>ci < n. c_name (chunks ! ci) \<noteq> os_name os" and "os_flags os = c_flags (chunks ! n)"
    and "os_align os = c_align (chunks ! n)" and "os_is_bss os \<longleftrightarrow> c_type (chunks ! n) = SHT_NOBITS"
  shows "section_of chunks (Suc n) os"
  using assms by (simp add: section_of_def section_facts_def filter_empty_conv)

lemma section_facts_extend:
  assumes "section_facts chunks os"
  shows "section_facts chunks
    (os\<lparr>os_align := max (os_align os) (c_align (chunks ! n)), os_chunk_ids := os_chunk_ids os @ [n],
        os_is_bss := os_is_bss os \<or> c_type (chunks ! n) = SHT_NOBITS\<rparr>)"
proof -
  have m: "c_align (chunks ! k) \<le> os_align os \<Longrightarrow> c_align (chunks ! k) \<le> max (os_align os) a" for k a
    by (simp add: le_max_iff_disj)
  show ?thesis
    using assms by (auto simp: section_facts_def list_all_iff list_ex_iff m max_def)
qed

lemma section_of_extend:
  assumes "section_of chunks n os" and "c_name (chunks ! n) = os_name os"
  shows "section_of chunks (Suc n)
    (os\<lparr>os_align := max (os_align os) (c_align (chunks ! n)), os_chunk_ids := os_chunk_ids os @ [n],
        os_is_bss := os_is_bss os \<or> c_type (chunks ! n) = SHT_NOBITS\<rparr>)"
  using assms section_facts_extend [of chunks os n] by (simp add: section_of_def)

lemma add_chunk_old:
  assumes "m (c_name ch) = Some i" and "i < length osecs" and "os = osecs ! i"
  shows "add_chunk (n, ch) (osecs, m) =
    (osecs[i := os\<lparr>os_align := max (os_align os) (c_align ch), os_chunk_ids := os_chunk_ids os @ [n],
        os_is_bss := os_is_bss os \<or> c_type ch = SHT_NOBITS\<rparr>], m)"
  unfolding assms(3) using assms(1,2)
  by (cases "osecs ! i") (simp add: add_chunk_def get_or_create_def Let_def)

lemma add_chunk_new:
  assumes "m (c_name ch) = None"
  shows "add_chunk (n, ch) (osecs, m) =
    (osecs @ [\<lparr>os_name = c_name ch, os_flags = c_flags ch, os_align = c_align ch, os_vaddr = 0,
      os_foff = 0, os_size = 0, os_filesz = 0, os_is_bss = (c_type ch = SHT_NOBITS), os_chunk_ids = [n]\<rparr>],
     m(c_name ch \<mapsto> length osecs))"
  using assms by (simp add: add_chunk_def get_or_create_def Let_def)

lemma add_chunk_old_inv:
  assumes inv: "merge_inv chunks n (osecs, m)" and some: "m (c_name (chunks ! n)) = Some i"
  shows "merge_inv chunks (Suc n) (add_chunk (n, chunks ! n) (osecs, m))"
proof -
  let ?ch = "chunks ! n"
  define os where "os = osecs ! i"
  define new where "new = os\<lparr>os_align := max (os_align os) (c_align ?ch),
    os_chunk_ids := os_chunk_ids os @ [n], os_is_bss := os_is_bss os \<or> c_type ?ch = SHT_NOBITS\<rparr>"
  have ix: "indexed osecs m" and so: "\<And>j. j < length osecs \<Longrightarrow> section_of chunks n (osecs ! j)"
    and dm: "\<forall>ci < n. c_name (chunks ! ci) \<in> dom m"
    using inv by (simp_all add: merge_inv_def list_all_length)
  have i: "i < length osecs" "os_name os = c_name ?ch" using indexedD [OF ix some] by (simp_all add: os_def)
  have new: "section_of chunks (Suc n) new"
    unfolding new_def using section_of_extend so i by (simp add: os_def)
  have "section_of chunks (Suc n) (osecs[i := new] ! j)" if j: "j < length osecs" for j
  proof (cases "j = i")
    case True
    then show ?thesis using new i by simp
  next
    case False
    then have "c_name ?ch \<noteq> os_name (osecs ! j)" using indexed_name [OF ix j] some by auto
    then show ?thesis using False section_of_other [OF so [OF j]] by simp
  qed
  moreover have "os_name new = os_name (osecs ! i)" by (simp add: new_def os_def)
  ultimately show ?thesis
    unfolding add_chunk_old [of m, OF some i(1) os_def] new_def [symmetric] merge_inv_def list_all_length
    using indexed_update [OF ix] dm some by (simp add: less_Suc_eq) blast
qed

lemma add_chunk_new_inv:
  assumes inv: "merge_inv chunks n (osecs, m)" and none: "m (c_name (chunks ! n)) = None"
  shows "merge_inv chunks (Suc n) (add_chunk (n, chunks ! n) (osecs, m))"
proof -
  let ?ch = "chunks ! n"
  define new where "new = \<lparr>os_name = c_name ?ch, os_flags = c_flags ?ch, os_align = c_align ?ch, os_vaddr = 0,
    os_foff = 0, os_size = 0, os_filesz = 0, os_is_bss = (c_type ?ch = SHT_NOBITS), os_chunk_ids = [n]\<rparr>"
  have ix: "indexed osecs m" and so: "\<And>j. j < length osecs \<Longrightarrow> section_of chunks n (osecs ! j)"
    and dm: "\<forall>ci < n. c_name (chunks ! ci) \<in> dom m"
    using inv by (simp_all add: merge_inv_def list_all_length)
  have "section_of chunks (Suc n) (osecs ! j)" if j: "j < length osecs" for j
  proof -
    have "c_name ?ch \<noteq> os_name (osecs ! j)" using indexed_name [OF ix j] none by auto
    then show ?thesis by (rule section_of_other [OF so [OF j]])
  qed
  then have "list_all (section_of chunks (Suc n)) osecs" by (simp add: list_all_length)
  moreover have "section_of chunks (Suc n) new"
    using dm none by (intro section_of_new) (auto simp: new_def)
  moreover have "indexed (osecs @ [new]) (m(c_name ?ch \<mapsto> length osecs))"
    using indexed_snoc [OF ix, of new] none by (simp add: new_def)
  ultimately show ?thesis
    unfolding add_chunk_new [of m, OF none] new_def [symmetric] merge_inv_def
    using dm by (simp add: less_Suc_eq)
qed

lemma add_chunk_inv:
  "merge_inv chunks n st \<Longrightarrow> merge_inv chunks (Suc n) (add_chunk (n, chunks ! n) st)"
  by (cases st; cases "snd st (c_name (chunks ! n))") (simp_all add: add_chunk_old_inv add_chunk_new_inv)

lemma enumerate_upt: "enumerate 0 xs = map (\<lambda>i. (i, xs ! i)) [0..<length xs]"
  by (rule nth_equalityI) (simp_all add: nth_enumerate_eq)

lemma merge_chunks_inv: "merge_inv chunks (length chunks) (merge_chunks chunks)"
proof -
  have "merge_inv chunks n (fold add_chunk (map (\<lambda>i. (i, chunks ! i)) [0..<n]) ([], Map.empty))" for n
    by (induction n) (simp_all add: add_chunk_inv, simp add: merge_inv_def indexed_def)
  then show ?thesis by (simp add: merge_chunks_def enumerate_upt)
qed

text \<open>What holds of the sections that go into the layout.\<close>

definition sections_inv :: "Chunk list \<Rightarrow> OutputSection list \<Rightarrow> bool" where
  "sections_inv chunks osecs \<longleftrightarrow>
    distinct (map os_name osecs) \<and> list_all (section_of chunks (length chunks)) osecs \<and>
    (\<forall>ci < length chunks. c_name (chunks ! ci) \<in> os_name ` set osecs)"

lemma create_sections_inv: "sections_inv chunks (create_sections chunks)"
proof -
  obtain osecs m where st: "merge_chunks chunks = (osecs, m)" by (cases "merge_chunks chunks")
  have ix: "indexed osecs m" and so: "list_all (section_of chunks (length chunks)) osecs"
    and dm: "\<forall>ci < length chunks. c_name (chunks ! ci) \<in> dom m"
    using merge_chunks_inv [of chunks] by (simp_all add: merge_inv_def st)
  have "filter (\<lambda>s. os_chunk_ids s \<noteq> []) osecs = osecs"
    using so by (auto simp: filter_id_conv list_all_iff section_of_def section_facts_def)
  then have cs: "create_sections chunks = sort_key os_rank osecs" by (simp add: create_sections_def st)
  have "distinct (map os_name (sort_key os_rank osecs))"
    using indexed_distinct [OF ix] by (metis distinct_map distinct_sort set_sort)
  moreover have "c_name (chunks ! ci) \<in> os_name ` set osecs" if "ci < length chunks" for ci
    using dm that indexedD [OF ix] by (metis domD nth_mem rev_image_eqI)
  ultimately show ?thesis
    using so by (simp add: sections_inv_def cs list_all_iff)
qed

lemma create_sections_sorted: "sorted (map os_rank (create_sections chunks))"
  by (simp add: create_sections_def)

lemma sections_inv_ids:
  assumes "sections_inv chunks osecs" and "os \<in> set osecs"
  shows "os_chunk_ids os = filter (\<lambda>ci. c_name (chunks ! ci) = os_name os) [0..<length chunks]"
    and "section_facts chunks os"
  using assms by (simp_all add: sections_inv_def section_of_def list_all_iff)

lemma sections_inv_disjoint:
  assumes "sections_inv chunks osecs" and "os \<in> set osecs" and "os' \<in> set osecs"
    and "ci \<in> set (os_chunk_ids os)" and "ci \<in> set (os_chunk_ids os')"
  shows "os = os'"
proof -
  have "os_name os = os_name os'"
    using assms(4,5) sections_inv_ids(1) [OF assms(1,2)] sections_inv_ids(1) [OF assms(1,3)] by auto
  then show ?thesis using assms(1-3) by (auto simp: sections_inv_def distinct_map inj_on_def)
qed

section \<open>Chunks inside their section\<close>

abbreviation chunk_end :: "Chunk \<Rightarrow> nat" where
  "chunk_end c \<equiv> unat (c_offset c) + unat (c_size c)"

text \<open>The chunks lie between the two bounds, aligned and one after the other.\<close>

definition laid_out :: "Chunk list \<Rightarrow> nat \<Rightarrow> nat \<Rightarrow> nat list \<Rightarrow> bool" where
  "laid_out chunks lo hi ids \<longleftrightarrow>
    list_all (\<lambda>ci. lo \<le> unat (c_offset (chunks ! ci)) \<and> chunk_end (chunks ! ci) \<le> hi \<and>
      unat (c_align (chunks ! ci)) dvd unat (c_offset (chunks ! ci))) ids \<and>
    sorted_wrt (\<lambda>ci cj. chunk_end (chunks ! ci) \<le> unat (c_offset (chunks ! cj))) ids"

text \<open>Only the offsets of the named chunks change.\<close>

definition offsets_only :: "nat list \<Rightarrow> Chunk list \<Rightarrow> Chunk list \<Rightarrow> bool" where
  "offsets_only ids chunks chunks' \<longleftrightarrow> length chunks' = length chunks \<and>
    (\<forall>ci < length chunks. chunks' ! ci = (chunks ! ci)\<lparr>c_offset := c_offset (chunks' ! ci)\<rparr> \<and>
      (ci \<notin> set ids \<longrightarrow> chunks' ! ci = chunks ! ci))"

abbreviation budget :: "Chunk \<Rightarrow> nat" where
  "budget c \<equiv> unat (c_size c) + unat (c_align c)"

lemma offsets_only_refl: "offsets_only ids chunks chunks"
  by (simp add: offsets_only_def)

lemma offsets_onlyD:
  "offsets_only ids chunks chunks' \<Longrightarrow> ci < length chunks \<Longrightarrow>
    chunks' ! ci = (chunks ! ci)\<lparr>c_offset := c_offset (chunks' ! ci)\<rparr>"
  by (simp add: offsets_only_def)

lemma c_offset_twice: "c\<lparr>c_offset := a\<rparr>\<lparr>c_offset := b\<rparr> = c\<lparr>c_offset := b\<rparr>"
  by simp

lemma offsets_only_update:
  assumes "offsets_only ids (chunks[ci := (chunks ! ci)\<lparr>c_offset := off\<rparr>]) chunks'"
  shows "offsets_only (ci # ids) chunks chunks'"
proof -
  have len: "length chunks' = length chunks" using assms by (simp add: offsets_only_def)
  have "chunks' ! cj = (chunks ! cj)\<lparr>c_offset := c_offset (chunks' ! cj)\<rparr> \<and>
      (cj \<notin> set (ci # ids) \<longrightarrow> chunks' ! cj = chunks ! cj)" if "cj < length chunks" for cj
  proof (cases "cj = ci")
    case True
    have e: "chunks[ci := (chunks ! ci)\<lparr>c_offset := off\<rparr>] ! ci = (chunks ! ci)\<lparr>c_offset := off\<rparr>"
      using that True by simp
    have "chunks' ! ci = (chunks ! ci)\<lparr>c_offset := off\<rparr>\<lparr>c_offset := c_offset (chunks' ! ci)\<rparr>"
      using offsets_onlyD [OF assms, of ci] that True unfolding e by simp
    then have "chunks' ! ci = (chunks ! ci)\<lparr>c_offset := c_offset (chunks' ! ci)\<rparr>"
      unfolding c_offset_twice .
    then show ?thesis unfolding True by simp
  next
    case False
    have e: "chunks[ci := (chunks ! ci)\<lparr>c_offset := off\<rparr>] ! cj = chunks ! cj" using False by simp
    have "chunks' ! cj = (chunks ! cj)\<lparr>c_offset := c_offset (chunks' ! cj)\<rparr>"
      using offsets_onlyD [OF assms, of cj] that unfolding e by simp
    moreover have "cj \<notin> set ids \<longrightarrow> chunks' ! cj = chunks ! cj"
      using assms that unfolding offsets_only_def by (metis e length_list_update)
    ultimately show ?thesis by (metis list.set_intros(2))
  qed
  then show ?thesis unfolding offsets_only_def using len by blast
qed

lemma laid_out_cong:
  assumes "laid_out chunks lo hi ids" and "\<And>ci. ci \<in> set ids \<Longrightarrow> chunks' ! ci = chunks ! ci"
  shows "laid_out chunks' lo hi ids"
  using assms by (auto simp: laid_out_def list_all_iff elim!: sorted_wrt_mono_rel [rotated])

lemma offsets_only_fields:
  assumes "offsets_only ids chunks chunks'" and "ci < length chunks"
  shows "c_size (chunks' ! ci) = c_size (chunks ! ci)" "c_align (chunks' ! ci) = c_align (chunks ! ci)"
    "c_name (chunks' ! ci) = c_name (chunks ! ci)" "c_type (chunks' ! ci) = c_type (chunks ! ci)"
    "c_data (chunks' ! ci) = c_data (chunks ! ci)" "c_flags (chunks' ! ci) = c_flags (chunks ! ci)"
  by (subst offsets_onlyD [OF assms], simp)+

lemma fold_layout:
  assumes "distinct ids" and "list_all (\<lambda>ci. ci < length chunks \<and> pow2 (c_align (chunks ! ci))) ids"
    and "unat off + (\<Sum>ci \<leftarrow> ids. budget (chunks ! ci)) < 2 ^ 64"
    and "fold layout_chunk ids (off, chunks) = (off', chunks')"
  shows "offsets_only ids chunks chunks' \<and> laid_out chunks' (unat off) (unat off') ids \<and>
    unat off \<le> unat off' \<and> unat off' \<le> unat off + (\<Sum>ci \<leftarrow> ids. budget (chunks ! ci))"
  using assms
proof (induction ids arbitrary: off chunks)
  case Nil
  then show ?case by (simp add: offsets_only_refl laid_out_def)
next
  case (Cons ci ids)
  define c where "c = chunks ! ci"
  define off1 where "off1 = align_up off (c_align c)"
  define chunks1 where "chunks1 = chunks[ci := c\<lparr>c_offset := off1\<rparr>]"
  have ci: "ci < length chunks" "ci \<notin> set ids" "pow2 (c_align c)" using Cons.prems by (simp_all add: c_def)
  have bud: "(\<Sum>cj \<leftarrow> ids. budget (chunks1 ! cj)) = (\<Sum>cj \<leftarrow> ids. budget (chunks ! cj))"
    using ci(2) by (intro arg_cong [of _ _ sum_list] map_cong refl) (metis chunks1_def nth_list_update_neq)
  have sp: "unat off + unat (c_align c) \<le> 2 ^ 64" using Cons.prems(3) by (simp add: c_def)
  note al = align_up_spec(1-3) [OF ci(3) sp, folded off1_def]
  have off2: "unat (off1 + c_size c) = unat off1 + unat (c_size c)"
    using al(2) Cons.prems(3) by (intro unat_add_less) (simp add: c_def)
  have "layout_chunk ci (off, chunks) = (off1 + c_size c, chunks1)"
    using ci(1) by (simp add: layout_chunk_def Let_def c_def off1_def chunks1_def)
  then have step: "fold layout_chunk ids (off1 + c_size c, chunks1) = (off', chunks')"
    using Cons.prems(4) by simp
  have "list_all (\<lambda>cj. cj < length chunks1 \<and> pow2 (c_align (chunks1 ! cj))) ids"
    using Cons.prems(2) ci(2) by (auto simp: list_all_iff chunks1_def nth_list_update)
  moreover have "unat (off1 + c_size c) + (\<Sum>cj \<leftarrow> ids. budget (chunks1 ! cj)) < 2 ^ 64"
    unfolding off2 bud using Cons.prems(3) al(2) by (simp add: c_def)
  ultimately have ih: "offsets_only ids chunks1 chunks'" "laid_out chunks' (unat (off1 + c_size c)) (unat off') ids"
    "unat (off1 + c_size c) \<le> unat off'" "unat off' \<le> unat (off1 + c_size c) + (\<Sum>cj \<leftarrow> ids. budget (chunks1 ! cj))"
    using Cons.IH [OF _ _ _ step] Cons.prems(1) by simp_all
  have oo: "offsets_only (ci # ids) chunks chunks'"
    using offsets_only_update ih(1) unfolding chunks1_def c_def by blast
  have "chunks' ! ci = chunks1 ! ci" using ih(1) ci by (simp add: offsets_only_def chunks1_def)
  then have c': "chunks' ! ci = c\<lparr>c_offset := off1\<rparr>" using ci(1) by (simp add: chunks1_def)
  have lo: "laid_out chunks' (unat off) (unat off') (ci # ids)"
    using ih(2,3) al by (auto simp: laid_out_def list_all_iff c' off2)
  show ?case using oo lo ih(3,4) al bud by (simp add: off2 c_def [symmetric])
qed

lemma offsets_only_trans:
  assumes "offsets_only ids a b" and "offsets_only ids' b c"
  shows "offsets_only (ids @ ids') a c"
proof -
  have len: "length b = length a" "length c = length a" using assms by (simp_all add: offsets_only_def)
  have "c ! ci = (a ! ci)\<lparr>c_offset := c_offset (c ! ci)\<rparr>" if "ci < length a" for ci
    using offsets_onlyD [OF assms(2), of ci] offsets_onlyD [OF assms(1), of ci] that len
    by (metis c_offset_twice)
  moreover have "ci \<notin> set (ids @ ids') \<longrightarrow> c ! ci = a ! ci" if "ci < length a" for ci
    using assms that len by (simp add: offsets_only_def)
  ultimately show ?thesis unfolding offsets_only_def using len by blast
qed

text \<open>The section with its size, after its chunks were laid out.\<close>

definition section_sized :: "Chunk list \<Rightarrow> OutputSection \<Rightarrow> OutputSection \<Rightarrow> bool" where
  "section_sized chunks os os' \<longleftrightarrow>
    os' = os\<lparr>os_size := os_size os', os_filesz := (if os_is_bss os then 0 else os_size os')\<rparr> \<and>
    laid_out chunks 0 (unat (os_size os')) (os_chunk_ids os) \<and>
    unat (os_size os') \<le> (\<Sum>ci \<leftarrow> os_chunk_ids os. budget (chunks ! ci))"

lemma section_sized_fields:
  assumes "section_sized chunks os os'"
  shows "os_name os' = os_name os" "os_flags os' = os_flags os" "os_align os' = os_align os"
    "os_is_bss os' = os_is_bss os" "os_chunk_ids os' = os_chunk_ids os"
    "os_filesz os' = (if os_is_bss os then 0 else os_size os')"
proof -
  have "os' = os\<lparr>os_size := os_size os', os_filesz := (if os_is_bss os then 0 else os_size os')\<rparr>"
    using assms by (simp add: section_sized_def)
  from arg_cong [OF this, of os_name] arg_cong [OF this, of os_flags] arg_cong [OF this, of os_align]
    arg_cong [OF this, of os_is_bss] arg_cong [OF this, of os_chunk_ids] arg_cong [OF this, of os_filesz]
  show "os_name os' = os_name os" "os_flags os' = os_flags os" "os_align os' = os_align os"
    "os_is_bss os' = os_is_bss os" "os_chunk_ids os' = os_chunk_ids os"
    "os_filesz os' = (if os_is_bss os then 0 else os_size os')"
    by simp_all
qed

definition ids_ok :: "Chunk list \<Rightarrow> nat list \<Rightarrow> bool" where
  "ids_ok chunks ids \<longleftrightarrow> list_all (\<lambda>ci. ci < length chunks \<and> pow2 (c_align (chunks ! ci))) ids \<and>
    (\<Sum>ci \<leftarrow> ids. budget (chunks ! ci)) < 2 ^ 64"

lemma offsets_only_budget:
  assumes "offsets_only ids' chunks chunks'" and "list_all (\<lambda>ci. ci < length chunks) ids"
  shows "(\<Sum>ci \<leftarrow> ids. budget (chunks' ! ci)) = (\<Sum>ci \<leftarrow> ids. budget (chunks ! ci))"
  using assms by (intro arg_cong [of _ _ sum_list] map_cong refl)
    (simp add: offsets_only_fields [OF assms(1)] list_all_iff)

lemma ids_ok_transfer:
  assumes "offsets_only ids' chunks chunks'" and "ids_ok chunks ids"
  shows "ids_ok chunks' ids"
proof -
  have l: "list_all (\<lambda>ci. ci < length chunks) ids" "length chunks' = length chunks"
    using assms by (auto simp: ids_ok_def list_all_iff offsets_only_def)
  show ?thesis
    using assms(2) l offsets_only_budget [OF assms(1) l(1)]
    by (auto simp: ids_ok_def list_all_iff offsets_only_fields [OF assms(1)])
qed

lemma layout_section_spec:
  assumes "distinct (os_chunk_ids os)" and "ids_ok chunks (os_chunk_ids os)"
    and "layout_section os chunks = (os', chunks')"
  shows "offsets_only (os_chunk_ids os) chunks chunks' \<and> section_sized chunks' os os'"
proof -
  let ?ids = "os_chunk_ids os"
  obtain off where f: "fold layout_chunk ?ids (0, chunks) = (off, chunks')"
    and os': "os' = os\<lparr>os_size := off, os_filesz := (if os_is_bss os then 0 else off)\<rparr>"
    using assms(3) by (auto simp: layout_section_def split: prod.splits)
  have v: "list_all (\<lambda>ci. ci < length chunks) ?ids" using assms(2) by (auto simp: ids_ok_def list_all_iff)
  have l: "offsets_only ?ids chunks chunks'" "laid_out chunks' 0 (unat off) ?ids"
    "unat off \<le> (\<Sum>ci \<leftarrow> ?ids. budget (chunks ! ci))"
    using fold_layout [OF assms(1) _ _ f] assms(2) by (simp_all add: ids_ok_def)
  show ?thesis
    using l offsets_only_budget [OF l(1) v] by (simp add: section_sized_def os')
qed

lemma section_sized_cong:
  assumes "section_sized chunks os os'" and "\<And>ci. ci \<in> set (os_chunk_ids os) \<Longrightarrow> chunks' ! ci = chunks ! ci"
  shows "section_sized chunks' os os'"
proof -
  have "(\<Sum>ci \<leftarrow> os_chunk_ids os. budget (chunks' ! ci)) = (\<Sum>ci \<leftarrow> os_chunk_ids os. budget (chunks ! ci))"
    using assms(2) by (intro arg_cong [of _ _ sum_list] map_cong refl) simp
  then show ?thesis
    using assms laid_out_cong [OF _ assms(2)] by (simp add: section_sized_def)
qed

lemma layout_sections_spec:
  assumes "distinct (concat (map os_chunk_ids osecs))" and "list_all (\<lambda>os. ids_ok chunks (os_chunk_ids os)) osecs"
    and "layout_sections osecs chunks = (osecs', chunks')"
  shows "offsets_only (concat (map os_chunk_ids osecs)) chunks chunks' \<and>
    list_all2 (section_sized chunks') osecs osecs'"
  using assms
proof (induction osecs arbitrary: chunks osecs')
  case Nil
  then show ?case by (simp add: offsets_only_refl)
next
  case (Cons os osecs)
  obtain os1 chunks1 osecs1 where st: "layout_section os chunks = (os1, chunks1)"
    "layout_sections osecs chunks1 = (osecs1, chunks')" "osecs' = os1 # osecs1"
    using Cons.prems(3) by (auto split: prod.splits)
  have h: "offsets_only (os_chunk_ids os) chunks chunks1" "section_sized chunks1 os os1"
    using layout_section_spec [OF _ _ st(1)] Cons.prems(1,2) by simp_all
  have "list_all (\<lambda>os. ids_ok chunks1 (os_chunk_ids os)) osecs"
    using Cons.prems(2) ids_ok_transfer [OF h(1)] by (auto simp: list_all_iff)
  then have t: "offsets_only (concat (map os_chunk_ids osecs)) chunks1 chunks'"
    "list_all2 (section_sized chunks') osecs osecs1"
    using Cons.IH [OF _ _ st(2)] Cons.prems(1) by simp_all
  have "ci < length chunks1 \<and> ci \<notin> set (concat (map os_chunk_ids osecs))" if "ci \<in> set (os_chunk_ids os)" for ci
    using that Cons.prems(1,2) h(1) by (auto simp: ids_ok_def list_all_iff offsets_only_def)
  then have "section_sized chunks' os os1"
    using t(1) by (intro section_sized_cong [OF h(2)]) (simp add: offsets_only_def)
  then show ?case using offsets_only_trans [OF h(1) t(1)] t(2) st(3) by simp
qed

section \<open>Sections in the file and in memory\<close>

abbreviation os_budget :: "OutputSection \<Rightarrow> nat" where
  "os_budget os \<equiv> unat (os_size os) + unat (os_align os)"

definition placed :: "nat \<Rightarrow> nat \<Rightarrow> nat \<Rightarrow> nat \<Rightarrow> OutputSection list \<Rightarrow> bool" where
  "placed flo fhi vlo vhi osecs \<longleftrightarrow>
    list_all (\<lambda>os. vlo \<le> unat (os_vaddr os) \<and> unat (os_vaddr os) + unat (os_size os) \<le> vhi \<and>
      unat (os_align os) dvd unat (os_vaddr os) \<and>
      (\<not> os_is_bss os \<longrightarrow> flo \<le> unat (os_foff os) \<and> unat (os_foff os) + unat (os_filesz os) \<le> fhi \<and>
        unat (os_align os) dvd unat (os_foff os))) osecs \<and>
    sorted_wrt (\<lambda>a b. unat (os_vaddr a) + unat (os_size a) \<le> unat (os_vaddr b)) osecs \<and>
    sorted_wrt (\<lambda>a b. \<not> os_is_bss a \<longrightarrow> \<not> os_is_bss b \<longrightarrow>
      unat (os_foff a) + unat (os_filesz a) \<le> unat (os_foff b)) osecs"

definition section_placed :: "OutputSection \<Rightarrow> OutputSection \<Rightarrow> bool" where
  "section_placed os os' \<longleftrightarrow> os' = os\<lparr>os_vaddr := os_vaddr os', os_foff := os_foff os'\<rparr>"

definition sized_ok :: "OutputSection \<Rightarrow> bool" where
  "sized_ok os \<longleftrightarrow> pow2 (os_align os) \<and> os_filesz os = (if os_is_bss os then 0 else os_size os)"

lemma place_section_spec:
  assumes "sized_ok os" and "unat v + os_budget os < 2 ^ 64" and "unat f + os_budget os < 2 ^ 64"
    and "place_section os (f, v) = (os', f', v')"
  shows "section_placed os os' \<and> unat v \<le> unat (os_vaddr os') \<and>
    unat (os_vaddr os') + unat (os_size os) = unat v' \<and> unat v' \<le> unat v + os_budget os \<and>
    unat f \<le> unat f' \<and> unat f' \<le> unat f + os_budget os \<and>
    unat (os_align os) dvd unat (os_vaddr os') \<and>
    (\<not> os_is_bss os \<longrightarrow> os_foff os' = align_up f (os_align os) \<and> unat f \<le> unat (os_foff os') \<and>
      unat (os_foff os') + unat (os_filesz os) = unat f' \<and> unat (os_align os) dvd unat (os_foff os'))"
proof -
  let ?a = "os_align os"
  have p: "pow2 ?a" "unat v + unat ?a \<le> 2 ^ 64" "unat f + unat ?a \<le> 2 ^ 64"
    using assms(1-3) by (simp_all add: sized_ok_def)
  note av = align_up_spec(1-3) [OF p(1,2)] and af = align_up_spec(1-3) [OF p(1,3)]
  have uv: "unat (align_up v ?a + os_size os) = unat (align_up v ?a) + unat (os_size os)"
    using av(2) assms(2) by (intro unat_add_less) simp
  have uf: "unat (align_up f ?a + os_size os) = unat (align_up f ?a) + unat (os_size os)"
    using af(2) assms(3) by (intro unat_add_less) simp
  show ?thesis
  proof (cases "os_is_bss os")
    case True
    then have "os' = os\<lparr>os_vaddr := align_up v ?a, os_foff := f\<rparr>" "f' = f" "v' = align_up v ?a + os_size os"
      using assms(4) by (auto simp: place_section_def Let_def)
    then show ?thesis using True av uv by (simp add: section_placed_def)
  next
    case False
    then have "os' = os\<lparr>os_vaddr := align_up v ?a, os_foff := align_up f ?a\<rparr>"
      "f' = align_up f ?a + os_filesz os" "v' = align_up v ?a + os_size os" "os_filesz os = os_size os"
      using assms(1,4) by (auto simp: place_section_def Let_def sized_ok_def)
    then show ?thesis using False av af uv uf by (simp add: section_placed_def)
  qed
qed

lemma section_placed_fields:
  assumes "section_placed os os'"
  shows "os_name os' = os_name os" "os_flags os' = os_flags os" "os_align os' = os_align os"
    "os_size os' = os_size os" "os_filesz os' = os_filesz os" "os_is_bss os' = os_is_bss os"
    "os_chunk_ids os' = os_chunk_ids os"
  by (subst assms [unfolded section_placed_def], simp)+

lemma place_sections_spec:
  assumes "list_all sized_ok osecs" and "unat v + (\<Sum>os \<leftarrow> osecs. os_budget os) < 2 ^ 64"
    and "unat f + (\<Sum>os \<leftarrow> osecs. os_budget os) < 2 ^ 64"
    and "place_sections osecs (f, v) = (osecs', f', v')"
  shows "list_all2 section_placed osecs osecs' \<and> placed (unat f) (unat f') (unat v) (unat v') osecs' \<and>
    unat f \<le> unat f' \<and> unat v \<le> unat v' \<and> unat f' \<le> unat f + (\<Sum>os \<leftarrow> osecs. os_budget os) \<and>
    unat v' \<le> unat v + (\<Sum>os \<leftarrow> osecs. os_budget os)"
  using assms
proof (induction osecs arbitrary: f v osecs')
  case Nil
  then show ?case by (simp add: placed_def)
next
  case (Cons os osecs)
  obtain os1 f1 v1 osecs1 where st: "place_section os (f, v) = (os1, f1, v1)"
    "place_sections osecs (f1, v1) = (osecs1, f', v')" "osecs' = os1 # osecs1"
    using Cons.prems(4) by (auto split: prod.splits)
  have b: "sized_ok os" "unat v + os_budget os < 2 ^ 64" "unat f + os_budget os < 2 ^ 64"
    using Cons.prems(1-3) by simp_all
  note h = place_section_spec [OF b st(1)]
  have "unat v1 + (\<Sum>os \<leftarrow> osecs. os_budget os) < 2 ^ 64" "unat f1 + (\<Sum>os \<leftarrow> osecs. os_budget os) < 2 ^ 64"
    using h Cons.prems(2,3) by simp_all
  then have t: "list_all2 section_placed osecs osecs1" "placed (unat f1) (unat f') (unat v1) (unat v') osecs1"
    "unat f1 \<le> unat f'" "unat v1 \<le> unat v'"
    "unat f' \<le> unat f1 + (\<Sum>os \<leftarrow> osecs. os_budget os)" "unat v' \<le> unat v1 + (\<Sum>os \<leftarrow> osecs. os_budget os)"
    using Cons.IH [OF _ _ _ st(2)] Cons.prems(1) by simp_all
  have "section_placed os os1" using h by blast
  note fl = section_placed_fields [OF this]
  have "placed (unat f) (unat f') (unat v) (unat v') (os1 # osecs1)"
    using t(2-4) h by (auto simp: placed_def list_all_iff fl)
  then show ?case using h t st(3) by simp
qed

lemma align_up_shift:
  assumes "pow2 a" and "unat a dvd unat b" and "unat v = unat b + unat f" and "unat v + unat a \<le> 2 ^ 64"
  shows "unat (align_up v a) = unat b + unat (align_up f a)"
proof -
  from assms(1) obtain k where k: "a = 2 ^ k" "k < 64" by (rule pow2E)
  have u: "unat a = 2 ^ k" using k by (simp add: unat_exp_less)
  obtain q where q: "unat b = 2 ^ k * q" using assms(2) u by auto
  have "0 < (2::nat) ^ k" by simp
  then have "unat v + 2 ^ k - 1 = 2 ^ k * q + (unat f + 2 ^ k - 1)"
    unfolding assms(3) q by linarith
  then have "(unat v + 2 ^ k - 1) div 2 ^ k = q + (unat f + 2 ^ k - 1) div 2 ^ k" by simp
  then show ?thesis
    using unat_align_up [OF k, of v] unat_align_up [OF k, of f] assms(3,4) q
    by (simp add: u algebra_simps)
qed

text \<open>
  As long as the zero-initialised sections come last and alignments divide the base address, every
  other section is found in memory at the base address plus its file offset.
\<close>

lemma place_sections_bss:
  "\<forall>os \<in> set osecs. os_is_bss os \<Longrightarrow> place_sections osecs (f, v) = (osecs', f', v') \<Longrightarrow> f' = f"
  by (induction osecs arbitrary: v osecs') (auto simp: place_section_def Let_def split: prod.splits)

lemma place_sections_correspond:
  assumes "list_all sized_ok osecs" and "unat v + (\<Sum>os \<leftarrow> osecs. os_budget os) < 2 ^ 64"
    and "unat v = unat BASE_ADDR + unat f" and "list_all (\<lambda>os. unat (os_align os) dvd unat BASE_ADDR) osecs"
    and "sorted_wrt (\<lambda>a b. os_is_bss a \<longrightarrow> os_is_bss b) osecs"
    and "place_sections osecs (f, v) = (osecs', f', v')"
  shows "list_all (\<lambda>os. if os_is_bss os then unat BASE_ADDR + unat f' \<le> unat (os_vaddr os)
    else unat (os_vaddr os) = unat BASE_ADDR + unat (os_foff os)) osecs'"
  using assms
proof (induction osecs arbitrary: f v osecs')
  case (Cons os osecs)
  let ?P = "\<lambda>os. if os_is_bss os then unat BASE_ADDR + unat f' \<le> unat (os_vaddr os)
    else unat (os_vaddr os) = unat BASE_ADDR + unat (os_foff os)"
  obtain os1 f1 v1 osecs1 where st: "place_section os (f, v) = (os1, f1, v1)"
    "place_sections osecs (f1, v1) = (osecs1, f', v')" "osecs' = os1 # osecs1"
    using Cons.prems(6) by (auto split: prod.splits)
  have b: "sized_ok os" "unat v + os_budget os < 2 ^ 64" "unat f + os_budget os < 2 ^ 64"
    using Cons.prems(1-3) by simp_all
  note h = place_section_spec [OF b st(1)]
  then have "section_placed os os1" by blast
  note fl = section_placed_fields [OF this]
  have r: "unat v1 + (\<Sum>os \<leftarrow> osecs. os_budget os) < 2 ^ 64" "unat f1 + (\<Sum>os \<leftarrow> osecs. os_budget os) < 2 ^ 64"
    using h Cons.prems(2,3) by simp_all
  show ?case
  proof (cases "os_is_bss os")
    case True
    have sp: "list_all2 section_placed osecs osecs1" "placed (unat f1) (unat f') (unat v1) (unat v') osecs1"
      using place_sections_spec [OF _ r st(2)] Cons.prems(1) by simp_all
    have bss: "\<forall>o' \<in> set osecs. os_is_bss o'" using Cons.prems(5) True by simp
    then have bss1: "\<forall>o' \<in> set osecs1. os_is_bss o'"
      using sp(1) by (auto simp: list_all2_conv_all_nth in_set_conv_nth) (metis nth_mem section_placed_fields(6))
    have "f' = f1" by (rule place_sections_bss [OF bss st(2)])
    moreover have "f1 = f" using st(1) True by (auto simp: place_section_def Let_def)
    ultimately have "unat BASE_ADDR + unat f' \<le> unat v" using Cons.prems(3) by simp
    then have "unat BASE_ADDR + unat f' \<le> unat (os_vaddr os1)" "unat BASE_ADDR + unat f' \<le> unat v1"
      using h by auto
    then show ?thesis using bss1 True fl sp(2) st(3) by (auto simp: list_all_iff placed_def)
  next
    case False
    have "os_vaddr os1 = align_up v (os_align os)" using st(1) False
      by (auto simp: place_section_def Let_def)
    moreover have "unat (align_up v (os_align os)) = unat BASE_ADDR + unat (align_up f (os_align os))"
      using b(1,2) Cons.prems(3,4) by (intro align_up_shift) (simp_all add: sized_ok_def)
    ultimately have e: "unat (os_vaddr os1) = unat BASE_ADDR + unat (os_foff os1)" using h False by simp
    moreover have "unat v1 = unat BASE_ADDR + unat f1"
      using h e False b(1) by (simp add: sized_ok_def)
    then have "list_all ?P osecs1"
      using Cons.prems(1,4,5) by (intro Cons.IH [OF _ r(1) _ _ _ st(2)]) simp_all
    ultimately show ?thesis using st(3) False fl by simp
  qed
qed simp

section \<open>The whole layout\<close>

definition chunks_ok :: "Chunk list \<Rightarrow> bool" where
  "chunks_ok chunks \<longleftrightarrow> list_all (\<lambda>c. pow2 (c_align c)) chunks"

definition chunks_fit :: "Chunk list \<Rightarrow> bool" where
  "chunks_fit chunks \<longleftrightarrow> (\<Sum>c \<leftarrow> chunks. budget c + unat (c_align c)) < 2 ^ 63"

lemma sections_ids_distinct:
  assumes "sections_inv chunks osecs"
  shows "distinct (concat (map os_chunk_ids osecs))"
proof (rule distinct_concat)
  have ne: "os_chunk_ids os \<noteq> []" if "os \<in> set osecs" for os
    using sections_inv_ids(2) [OF assms that] by (simp add: section_facts_def)
  have "inj_on os_chunk_ids (set osecs)"
    using sections_inv_disjoint [OF assms] ne by (intro inj_onI) (metis last_in_set)
  moreover have "distinct osecs" using assms by (simp add: sections_inv_def distinct_map)
  ultimately show "distinct (map os_chunk_ids osecs)" by (simp add: distinct_map)
next
  show "distinct ids" if "ids \<in> set (map os_chunk_ids osecs)" for ids
    using that sections_inv_ids(1) [OF assms] by auto
  show "set ids \<inter> set ids' = {}"
    if "ids \<in> set (map os_chunk_ids osecs)" "ids' \<in> set (map os_chunk_ids osecs)" "ids \<noteq> ids'" for ids ids'
    using that sections_inv_disjoint [OF assms] by fastforce
qed

lemma sections_ids_set:
  assumes "sections_inv chunks osecs"
  shows "set (concat (map os_chunk_ids osecs)) = {..<length chunks}"
proof (intro equalityI subsetI)
  fix ci assume "ci \<in> set (concat (map os_chunk_ids osecs))"
  then show "ci \<in> {..<length chunks}" using sections_inv_ids(1) [OF assms] by auto
next
  fix ci assume "ci \<in> {..<length chunks}"
  then obtain os where os: "os \<in> set osecs" "os_name os = c_name (chunks ! ci)" "ci < length chunks"
    using assms by (auto simp: sections_inv_def)
  then have "ci \<in> set (os_chunk_ids os)" using sections_inv_ids(1) [OF assms os(1)] by simp
  then show "ci \<in> set (concat (map os_chunk_ids osecs))" using os(1) by auto
qed

lemma sum_list_distinct_le:
  fixes f :: "nat \<Rightarrow> nat"
  assumes "distinct ids" and "set ids \<subseteq> {..<n}"
  shows "(\<Sum>ci \<leftarrow> ids. f ci) \<le> (\<Sum>ci \<leftarrow> [0..<n]. f ci)"
proof -
  have "(\<Sum>ci \<leftarrow> ids. f ci) = sum f (set ids)" using assms(1) by (simp add: sum_list_distinct_conv_sum_set)
  also have "\<dots> \<le> sum f {..<n}" using assms(2) by (intro sum_mono2) simp_all
  also have "\<dots> = (\<Sum>ci \<leftarrow> [0..<n]. f ci)"
    by (simp add: sum_list_distinct_conv_sum_set atLeast_upt)
  finally show ?thesis .
qed

lemma sum_upt_nth: "(\<Sum>ci \<leftarrow> [0..<length xs]. f (xs ! ci)) = (\<Sum>x \<leftarrow> xs. f x)"
proof -
  have "map (\<lambda>ci. f (xs ! ci)) [0..<length xs] = map f xs" by (rule nth_equalityI) simp_all
  then show ?thesis by simp
qed

lemma sections_align:
  assumes "sections_inv chunks osecs" and "os \<in> set osecs"
  obtains ci where "ci \<in> set (os_chunk_ids os)" "os_align os = c_align (chunks ! ci)"
  using sections_inv_ids(2) [OF assms] by (auto simp: section_facts_def list_ex_iff)

lemma sections_budget:
  assumes "sections_inv chunks osecs" and "os \<in> set osecs"
  shows "(\<Sum>ci \<leftarrow> os_chunk_ids os. budget (chunks ! ci)) + unat (os_align os) \<le>
    (\<Sum>ci \<leftarrow> os_chunk_ids os. budget (chunks ! ci) + unat (c_align (chunks ! ci)))"
proof -
  obtain ci where "ci \<in> set (os_chunk_ids os)" "os_align os = c_align (chunks ! ci)"
    by (rule sections_align [OF assms])
  then have "unat (os_align os) \<le> (\<Sum>ci \<leftarrow> os_chunk_ids os. unat (c_align (chunks ! ci)))"
    by (simp add: elem_le_sum_list member_le_sum_list)
  then show ?thesis by (simp add: sum_list_addf)
qed

lemma start_cur_eq: "start_cur = (176, BASE_ADDR + 176)"
  by (simp add: start_cur_def hdr_size_def num_phdrs_def align_up_def)

lemma sections_sized:
  assumes "sections_inv chunks osecs" and "chunks_ok chunks" and "chunks_fit chunks"
    and "layout_sections osecs chunks = (osecs', chunks')"
  shows "offsets_only (concat (map os_chunk_ids osecs)) chunks chunks'"
    and "list_all2 (section_sized chunks') osecs osecs'"
    and "list_all sized_ok osecs'"
    and "(\<Sum>os \<leftarrow> osecs'. os_budget os) < 2 ^ 63"
proof -
  let ?b = "\<lambda>ci. budget (chunks ! ci) + unat (c_align (chunks ! ci))"
  have all: "(\<Sum>ci \<leftarrow> concat (map os_chunk_ids osecs). ?b ci) < 2 ^ 63"
    using sum_list_distinct_le [OF sections_ids_distinct [OF assms(1)], of "length chunks" ?b]
      sections_ids_set [OF assms(1)] assms(3) sum_upt_nth [of "\<lambda>c. budget c + unat (c_align c)" chunks]
    by (simp add: chunks_fit_def)
  have in_range: "ci < length chunks" if "os \<in> set osecs" "ci \<in> set (os_chunk_ids os)" for os ci
    using that sections_ids_set [OF assms(1)] by auto
  have p2: "pow2 (c_align (chunks ! ci))" if "ci < length chunks" for ci
    using assms(2) that by (simp add: chunks_ok_def list_all_length)
  have "ids_ok chunks (os_chunk_ids os)" if "os \<in> set osecs" for os
  proof -
    have "(\<Sum>ci \<leftarrow> os_chunk_ids os. ?b ci) \<le> (\<Sum>ci \<leftarrow> concat (map os_chunk_ids osecs). ?b ci)"
      using that by (induction osecs) auto
    then show ?thesis
      using all sections_budget [OF assms(1) that] in_range [OF that] p2
      by (auto simp: ids_ok_def list_all_iff)
  qed
  then have ok: "list_all (\<lambda>os. ids_ok chunks (os_chunk_ids os)) osecs" by (simp add: list_all_iff)
  note sp = layout_sections_spec [OF sections_ids_distinct [OF assms(1)] ok assms(4)]
  then show oo: "offsets_only (concat (map os_chunk_ids osecs)) chunks chunks'"
    and sz: "list_all2 (section_sized chunks') osecs osecs'" by simp_all
  have al: "pow2 (os_align os)" if "os \<in> set osecs" for os
    using sections_align [OF assms(1) that] in_range [OF that] p2 by metis
  show "list_all sized_ok osecs'"
    using sz al by (auto simp: sized_ok_def list_all_length list_all2_conv_all_nth section_sized_fields)
  have "(\<Sum>os \<leftarrow> osecs'. os_budget os) \<le> (\<Sum>ci \<leftarrow> concat (map os_chunk_ids osecs). ?b ci)"
    using sz sections_budget [OF assms(1)] in_range
  proof (induction rule: list_all2_induct)
    case (Cons os osecs os' osecs')
    have "(\<Sum>ci \<leftarrow> os_chunk_ids os. budget (chunks' ! ci)) = (\<Sum>ci \<leftarrow> os_chunk_ids os. budget (chunks ! ci))"
      by (rule offsets_only_budget [OF oo]) (use Cons.prems(2) in \<open>auto simp: list_all_iff\<close>)
    then have "os_budget os' \<le> (\<Sum>ci \<leftarrow> os_chunk_ids os. ?b ci)"
      using Cons.hyps(1) Cons.prems(1) [of os] section_sized_fields(3) [OF Cons.hyps(1)] by (simp add: section_sized_def)
    moreover have "(\<Sum>os \<leftarrow> osecs'. os_budget os) \<le> (\<Sum>ci \<leftarrow> concat (map os_chunk_ids osecs). ?b ci)"
      by (rule Cons.IH) (use Cons.prems in auto)
    ultimately show ?case by simp
  qed simp
  then show "(\<Sum>os \<leftarrow> osecs'. os_budget os) < 2 ^ 63" using all by simp
qed

text \<open>
  The layout of a list of chunks: chunks differ from the input in their offsets only, every chunk
  is in exactly one section, chunks are laid out in their section, and sections are placed from
  the end of the headers on.
\<close>

definition layout_ok :: "Chunk list \<Rightarrow> layout \<Rightarrow> bool" where
  "layout_ok chunks L \<longleftrightarrow>
    offsets_only [0..<length chunks] chunks (l_chunks L) \<and>
    sorted (map os_rank (l_osecs L)) \<and>
    sections_inv chunks (l_osecs L) \<and>
    list_all (\<lambda>os. os_filesz os = (if os_is_bss os then 0 else os_size os) \<and>
      laid_out (l_chunks L) 0 (unat (os_size os)) (os_chunk_ids os)) (l_osecs L) \<and>
    placed 176 (unat (l_filesz L)) (unat BASE_ADDR + 176) (unat BASE_ADDR + unat (l_memsz L)) (l_osecs L) \<and>
    176 \<le> unat (l_filesz L) \<and> unat BASE_ADDR + unat (l_memsz L) < 2 ^ 64"

definition same_section :: "OutputSection \<Rightarrow> OutputSection \<Rightarrow> bool" where
  "same_section os os' \<longleftrightarrow> os_name os' = os_name os \<and> os_flags os' = os_flags os \<and>
    os_align os' = os_align os \<and> os_is_bss os' = os_is_bss os \<and> os_chunk_ids os' = os_chunk_ids os"

lemma section_sized_same: "section_sized chunks os os' \<Longrightarrow> same_section os os'"
  by (simp add: same_section_def section_sized_fields [of chunks])

lemma section_placed_same: "section_placed os os' \<Longrightarrow> same_section os os'"
  by (simp add: same_section_def section_placed_fields)

lemma same_section_trans: "same_section a b \<Longrightarrow> same_section b c \<Longrightarrow> same_section a c"
  by (simp add: same_section_def)

lemma same_section_map:
  assumes "list_all2 same_section osecs osecs'"
  shows "map os_name osecs' = map os_name osecs" "map os_rank osecs' = map os_rank osecs"
    "map os_chunk_ids osecs' = map os_chunk_ids osecs" "map os_is_bss osecs' = map os_is_bss osecs"
  using assms by (induction rule: list_all2_induct) (auto simp: same_section_def os_rank_def)

lemma same_section_inv:
  assumes "list_all2 same_section osecs osecs'" and "sections_inv chunks osecs"
  shows "sections_inv chunks osecs'"
proof -
  have n: "map os_name osecs' = map os_name osecs" by (rule same_section_map [OF assms(1)])
  then have "os_name ` set osecs' = os_name ` set osecs" by (metis set_map)
  moreover have "section_of chunks n os = section_of chunks n os'" if "same_section os os'" for n os os'
    using that by (simp add: section_of_def section_facts_def same_section_def)
  then have "list_all (section_of chunks (length chunks)) osecs'"
    using assms unfolding sections_inv_def list_all_length list_all2_conv_all_nth by metis
  ultimately show ?thesis using assms(2) n by (simp add: sections_inv_def)
qed

lemma make_layout_ok:
  assumes "chunks_ok chunks" and "chunks_fit chunks"
  shows "layout_ok chunks (make_layout chunks)"
    and "list_all2 same_section (create_sections chunks) (l_osecs (make_layout chunks))"
proof -
  obtain osecs1 chunks' where s1: "layout_sections (create_sections chunks) chunks = (osecs1, chunks')"
    by fastforce
  obtain osecs2 f v where s2: "place_sections osecs1 (176, BASE_ADDR + 176) = (osecs2, f, v)"
    by (metis prod_cases3)
  define L where "L = make_layout chunks"
  have L: "l_osecs L = osecs2" "l_chunks L = chunks'" "l_filesz L = f" "l_memsz L = v - BASE_ADDR"
    by (simp_all add: L_def make_layout_def s1 s2 start_cur_eq)
  note inv = create_sections_inv [of chunks]
  note z = sections_sized [OF inv assms s1]
  have b: "unat (BASE_ADDR + 176) + (\<Sum>os \<leftarrow> osecs1. os_budget os) < 2 ^ 64"
    "unat (176 :: u64) + (\<Sum>os \<leftarrow> osecs1. os_budget os) < 2 ^ 64"
    using z(4) by (simp_all add: BASE_ADDR_def)
  note p = place_sections_spec [OF z(3) b s2]
  have "unat BASE_ADDR \<le> unat v" using p by (simp add: BASE_ADDR_def)
  then have uv: "unat BASE_ADDR + unat (l_memsz L) = unat v"
    unfolding L by (simp add: unat_sub word_le_nat_alt)
  have ba: "unat (BASE_ADDR + 176) = unat BASE_ADDR + 176" by (simp add: BASE_ADDR_def)
  have pl: "placed 176 (unat (l_filesz L)) (unat BASE_ADDR + 176) (unat BASE_ADDR + unat (l_memsz L)) (l_osecs L)"
    using p unfolding uv unfolding ba L by simp
  have same: "list_all2 same_section (create_sections chunks) (l_osecs L)"
    unfolding L
    by (rule list_all2_trans [OF same_section_trans, OF _ _ list_all2_mono [OF z(2) section_sized_same]
          list_all2_mono [OF conjunct1 [OF p] section_placed_same]])
  then show "list_all2 same_section (create_sections chunks) (l_osecs (make_layout chunks))"
    by (simp add: L_def)
  have "list_all (\<lambda>os. os_filesz os = (if os_is_bss os then 0 else os_size os) \<and>
      laid_out (l_chunks L) 0 (unat (os_size os)) (os_chunk_ids os)) (l_osecs L)"
    unfolding L list_all_length
  proof (intro allI impI)
    fix i assume i: "i < length osecs2"
    have pi: "section_placed (osecs1 ! i) (osecs2 ! i)" "section_sized chunks' (create_sections chunks ! i) (osecs1 ! i)"
      using i z(2) p by (simp_all add: list_all2_conv_all_nth)
    from pi(2) section_placed_fields [OF pi(1)] section_sized_fields [OF pi(2)]
    show "os_filesz (osecs2 ! i) = (if os_is_bss (osecs2 ! i) then 0 else os_size (osecs2 ! i)) \<and>
        laid_out chunks' 0 (unat (os_size (osecs2 ! i))) (os_chunk_ids (osecs2 ! i))"
      by (simp add: section_sized_def)
  qed
  moreover have "offsets_only [0..<length chunks] chunks (l_chunks L)"
    using z(1) sections_ids_set [OF inv] unfolding L by (simp add: offsets_only_def atLeast_upt)
  moreover have "sorted (map os_rank (l_osecs L))"
    using create_sections_sorted same_section_map(2) [OF same] by simp
  moreover have "176 \<le> unat (l_filesz L)" using p by (simp add: L)
  moreover have "unat BASE_ADDR + unat (l_memsz L) < 2 ^ 64"
    unfolding uv by (rule order_less_le_trans [OF unsigned_less]) simp
  ultimately show "layout_ok chunks (make_layout chunks)"
    using pl same_section_inv [OF same inv] by (simp add: layout_ok_def L_def)
qed

text \<open>
  Zero-initialised chunks come last when every chunk that shares its name with one is writable data.
\<close>

definition bss_writable :: "Chunk list \<Rightarrow> bool" where
  "bss_writable chunks \<longleftrightarrow>
    list_all (\<lambda>c. c_type c = SHT_NOBITS \<longrightarrow> list_all (\<lambda>d. c_name d = c_name c \<longrightarrow>
      c_flags d AND SHF_EXECINSTR = 0 \<and> c_flags d AND SHF_WRITE \<noteq> 0) chunks) chunks"

lemma bss_rank:
  assumes "bss_writable chunks" and "sections_inv chunks osecs" and "os \<in> set osecs" and "os_is_bss os"
  shows "os_rank os = 3"
proof -
  note ids = sections_inv_ids(1) [OF assms(2,3)] and facts = sections_inv_ids(2) [OF assms(2,3)]
  have ne: "os_chunk_ids os \<noteq> []" using facts by (simp add: section_facts_def)
  obtain ci where "ci \<in> set (os_chunk_ids os)" "c_type (chunks ! ci) = SHT_NOBITS"
    using facts assms(4) by (auto simp: section_facts_def list_ex_iff)
  have mem: "k < length chunks \<and> c_name (chunks ! k) = os_name os" if "k \<in> set (os_chunk_ids os)" for k
    using that unfolding ids by simp
  then have ci: "ci < length chunks" "c_name (chunks ! ci) = os_name os" "c_type (chunks ! ci) = SHT_NOBITS"
    using \<open>ci \<in> set (os_chunk_ids os)\<close> \<open>c_type (chunks ! ci) = SHT_NOBITS\<close> by blast+
  have "hd (os_chunk_ids os) < length chunks" "c_name (chunks ! hd (os_chunk_ids os)) = os_name os"
    using mem ne by simp_all
  then have "os_flags os AND SHF_EXECINSTR = 0 \<and> os_flags os AND SHF_WRITE \<noteq> 0"
    using assms(1) ci facts by (simp add: bss_writable_def section_facts_def list_all_length)
  then show ?thesis using assms(4) by (simp add: os_rank_def)
qed

lemma sorted_bss_last:
  assumes "bss_writable chunks" and "sections_inv chunks osecs" and "sorted (map os_rank osecs)"
  shows "sorted_wrt (\<lambda>a b. os_is_bss a \<longrightarrow> os_is_bss b) osecs"
proof (rule sorted_wrt_mono_rel)
  show "sorted_wrt (\<lambda>a b. os_rank a \<le> os_rank b) osecs" using assms(3) by (simp add: sorted_map)
  show "os_is_bss a \<longrightarrow> os_is_bss b" if "a \<in> set osecs" "b \<in> set osecs" "os_rank a \<le> os_rank b" for a b
    using that bss_rank [OF assms(1,2)] by (fastforce simp: os_rank_def split: if_splits)
qed

definition aligns_dvd_base :: "Chunk list \<Rightarrow> bool" where
  "aligns_dvd_base chunks \<longleftrightarrow> list_all (\<lambda>c. unat (c_align c) dvd unat BASE_ADDR) chunks"

lemma sections_aligns:
  assumes "sections_inv chunks osecs" and "aligns_dvd_base chunks"
  shows "list_all (\<lambda>os. unat (os_align os) dvd unat BASE_ADDR) osecs"
  unfolding list_all_iff
proof
  fix os assume os: "os \<in> set osecs"
  obtain ci where "ci \<in> set (os_chunk_ids os)" "os_align os = c_align (chunks ! ci)"
    by (rule sections_align [OF assms(1) os])
  then show "unat (os_align os) dvd unat BASE_ADDR"
    using sections_inv_ids(1) [OF assms(1) os] assms(2) by (simp add: aligns_dvd_base_def list_all_length)
qed

lemma make_layout_correspond:
  assumes "chunks_ok chunks" and "chunks_fit chunks" and "bss_writable chunks" and "aligns_dvd_base chunks"
    and "L = make_layout chunks"
  shows "list_all (\<lambda>os. if os_is_bss os then unat BASE_ADDR + unat (l_filesz L) \<le> unat (os_vaddr os)
    else unat (os_vaddr os) = unat BASE_ADDR + unat (os_foff os)) (l_osecs L)"
proof -
  obtain osecs1 chunks' where s1: "layout_sections (create_sections chunks) chunks = (osecs1, chunks')"
    by fastforce
  obtain osecs2 f v where s2: "place_sections osecs1 (176, BASE_ADDR + 176) = (osecs2, f, v)"
    by (metis prod_cases3)
  have L: "l_osecs L = osecs2" "l_filesz L = f"
    by (simp_all add: assms(5) make_layout_def s1 s2 start_cur_eq)
  note inv = create_sections_inv [of chunks]
  note z = sections_sized [OF inv assms(1,2) s1]
  have b: "unat (BASE_ADDR + 176) + (\<Sum>os \<leftarrow> osecs1. os_budget os) < 2 ^ 64"
    using z(4) by (simp add: BASE_ADDR_def)
  have same: "list_all2 same_section (create_sections chunks) osecs1"
    by (rule list_all2_mono [OF z(2) section_sized_same])
  have inv1: "sections_inv chunks osecs1" by (rule same_section_inv [OF same inv])
  have "sorted_wrt (\<lambda>a b. os_is_bss a \<longrightarrow> os_is_bss b) osecs1"
    using sorted_bss_last [OF assms(3) inv1] create_sections_sorted same_section_map(2) [OF same] by simp
  moreover have "list_all (\<lambda>os. unat (os_align os) dvd unat BASE_ADDR) osecs1" by (rule sections_aligns [OF inv1 assms(4)])
  ultimately show ?thesis
    unfolding L by (intro place_sections_correspond [OF z(3) b _ _ _ s2]) (simp_all add: BASE_ADDR_def)
qed

text \<open>The image in memory is no smaller than the file.\<close>

lemma place_sections_sizes:
  assumes "list_all sized_ok osecs" and "unat v + (\<Sum>os \<leftarrow> osecs. os_budget os) < 2 ^ 64"
    and "unat BASE_ADDR + unat f \<le> unat v" and "list_all (\<lambda>os. unat (os_align os) dvd unat BASE_ADDR) osecs"
    and "place_sections osecs (f, v) = (osecs', f', v')"
  shows "unat BASE_ADDR + unat f' \<le> unat v'"
  using assms
proof (induction osecs arbitrary: f v osecs')
  case (Cons os osecs)
  obtain os1 f1 v1 osecs1 where st: "place_section os (f, v) = (os1, f1, v1)"
    "place_sections osecs (f1, v1) = (osecs1, f', v')" "osecs' = os1 # osecs1"
    using Cons.prems(5) by (auto split: prod.splits)
  have b: "sized_ok os" "unat v + os_budget os < 2 ^ 64" "unat f + os_budget os < 2 ^ 64"
    using Cons.prems(1-3) by simp_all
  note h = place_section_spec [OF b st(1)]
  have hv: "unat v \<le> unat (os_vaddr os1)" "unat (os_vaddr os1) + unat (os_size os) = unat v1" using h by blast+
  have "unat BASE_ADDR + unat f1 \<le> unat v1"
  proof (cases "os_is_bss os")
    case True
    then have "f1 = f" using st(1) by (auto simp: place_section_def Let_def)
    then show ?thesis using hv Cons.prems(3) by simp
  next
    case False
    let ?m = "unat (os_vaddr os1) - unat BASE_ADDR"
    have "unat (os_align os) dvd ?m" using h Cons.prems(4) by (simp add: dvd_diff_nat)
    moreover have "unat f \<le> ?m" using hv(1) Cons.prems(3) by linarith
    moreover have "unat f + unat (os_align os) \<le> 2 ^ 64" using b(3) by simp
    ultimately have "unat (align_up f (os_align os)) \<le> ?m"
      using b(1) by (intro align_up_spec(4)) (simp_all add: sized_ok_def)
    moreover have fo: "os_foff os1 = align_up f (os_align os)" "unat (os_foff os1) + unat (os_filesz os) = unat f1"
      using h False by blast+
    ultimately have "unat (os_foff os1) \<le> ?m" by simp
    moreover have "unat BASE_ADDR \<le> unat (os_vaddr os1)" using hv(1) Cons.prems(3) by linarith
    moreover have "unat (os_foff os1) + unat (os_size os) = unat f1" using fo(2) False b(1) by (simp add: sized_ok_def)
    ultimately show ?thesis using hv(2) by linarith
  qed
  moreover have "unat v1 + (\<Sum>os \<leftarrow> osecs. os_budget os) < 2 ^ 64" using h Cons.prems(2) by simp
  ultimately show ?case using Cons.IH [OF _ _ _ _ st(2)] Cons.prems(1,4) by simp
qed simp

lemma make_layout_sizes:
  assumes "chunks_ok chunks" and "chunks_fit chunks" and "aligns_dvd_base chunks" and "L = make_layout chunks"
  shows "unat (l_filesz L) \<le> unat (l_memsz L)"
proof -
  obtain osecs1 chunks' where s1: "layout_sections (create_sections chunks) chunks = (osecs1, chunks')"
    by fastforce
  obtain osecs2 f v where s2: "place_sections osecs1 (176, BASE_ADDR + 176) = (osecs2, f, v)"
    by (metis prod_cases3)
  have L: "l_filesz L = f" "l_memsz L = v - BASE_ADDR" by (simp_all add: assms(4) make_layout_def s1 s2 start_cur_eq)
  note inv = create_sections_inv [of chunks]
  note z = sections_sized [OF inv assms(1,2) s1]
  have inv1: "sections_inv chunks osecs1"
    by (rule same_section_inv [OF list_all2_mono [OF z(2) section_sized_same] inv])
  have "list_all (\<lambda>os. unat (os_align os) dvd unat BASE_ADDR) osecs1" by (rule sections_aligns [OF inv1 assms(3)])
  moreover have "unat (BASE_ADDR + 176) + (\<Sum>os \<leftarrow> osecs1. os_budget os) < 2 ^ 64" "unat BASE_ADDR + unat (176 :: u64) \<le> unat (BASE_ADDR + 176)"
    using z(4) by (simp_all add: BASE_ADDR_def)
  ultimately have "unat BASE_ADDR + unat f \<le> unat v" using place_sections_sizes [OF z(3) _ _ _ s2] by blast
  then show ?thesis unfolding L by (simp add: unat_sub word_le_nat_alt)
qed

section \<open>Addresses of chunks\<close>

lemma index_map_indexed:
  assumes "distinct (map os_name osecs)"
  shows "indexed osecs (index_map osecs)"
proof -
  let ?f = "\<lambda>n. fold (\<lambda>(i, os) m. m(os_name os \<mapsto> i)) (map (\<lambda>i. (i, osecs ! i)) [0..<n]) Map.empty"
  have "?f n nm = Some i \<longleftrightarrow> i < n \<and> os_name (osecs ! i) = nm" if "n \<le> length osecs" for n nm i
    using that
  proof (induction n)
    case (Suc n)
    have "os_name (osecs ! j) \<noteq> os_name (osecs ! n)" if "j < n" for j
      using assms Suc.prems that by (simp add: distinct_conv_nth)
    then show ?case using Suc by (auto simp: less_Suc_eq)
  qed simp
  then show ?thesis by (simp add: indexed_def index_map_def enumerate_upt)
qed

lemma laid_outD:
  "laid_out chunks lo hi ids \<Longrightarrow> ci \<in> set ids \<Longrightarrow> lo \<le> unat (c_offset (chunks ! ci))"
  "laid_out chunks lo hi ids \<Longrightarrow> ci \<in> set ids \<Longrightarrow> chunk_end (chunks ! ci) \<le> hi"
  "laid_out chunks lo hi ids \<Longrightarrow> ci \<in> set ids \<Longrightarrow>
    unat (c_align (chunks ! ci)) dvd unat (c_offset (chunks ! ci))"
  by (simp_all add: laid_out_def list_all_iff)

lemma layout_okD:
  assumes "layout_ok chunks L" and "i < length (l_osecs L)"
  shows "os_filesz (l_osecs L ! i) = (if os_is_bss (l_osecs L ! i) then 0 else os_size (l_osecs L ! i))"
    and "laid_out (l_chunks L) 0 (unat (os_size (l_osecs L ! i))) (os_chunk_ids (l_osecs L ! i))"
    and "unat (os_align (l_osecs L ! i)) dvd unat (os_vaddr (l_osecs L ! i))"
    and "unat BASE_ADDR + 176 \<le> unat (os_vaddr (l_osecs L ! i))"
    and "unat (os_vaddr (l_osecs L ! i)) + unat (os_size (l_osecs L ! i)) \<le> unat BASE_ADDR + unat (l_memsz L)"
    and "\<not> os_is_bss (l_osecs L ! i) \<Longrightarrow> 176 \<le> unat (os_foff (l_osecs L ! i))"
    and "\<not> os_is_bss (l_osecs L ! i) \<Longrightarrow>
      unat (os_foff (l_osecs L ! i)) + unat (os_filesz (l_osecs L ! i)) \<le> unat (l_filesz L)"
  using assms by (auto simp: layout_ok_def placed_def list_all_length)

lemma pow2_dvd:
  assumes "pow2 a" and "pow2 b" and "a \<le> b"
  shows "unat a dvd unat b"
proof -
  obtain j k where "a = 2 ^ j" "j < 64" "b = 2 ^ k" "k < 64" using assms(1,2) by (auto elim!: pow2E)
  moreover from this assms(3) have "(2::nat) ^ j \<le> 2 ^ k" by (simp add: word_le_nat_alt unat_exp_less)
  ultimately show ?thesis by (simp add: unat_exp_less le_imp_power_dvd)
qed

lemma section_lookup:
  assumes "sections_inv chunks osecs" and "ci < length chunks"
  obtains i where "i < length osecs" "index_map osecs (c_name (chunks ! ci)) = Some i"
    "ci \<in> set (os_chunk_ids (osecs ! i))" "os_name (osecs ! i) = c_name (chunks ! ci)"
proof -
  have d: "distinct (map os_name osecs)" using assms(1) by (simp add: sections_inv_def)
  obtain os where "os \<in> set osecs" "os_name os = c_name (chunks ! ci)"
    using assms by (auto simp: sections_inv_def)
  then obtain i where i: "i < length osecs" "os_name (osecs ! i) = c_name (chunks ! ci)"
    by (metis in_set_conv_nth)
  moreover have "index_map osecs (c_name (chunks ! ci)) = Some i"
    using index_map_indexed [OF d] i by (simp add: indexed_def)
  moreover have "ci \<in> set (os_chunk_ids (osecs ! i))"
    using sections_inv_ids(1) [OF assms(1)] i assms(2) by simp
  ultimately show thesis using that by blast
qed

text \<open>Where the bytes of a chunk are, in numbers.\<close>

definition chunk_at :: "Chunk list \<Rightarrow> layout \<Rightarrow> nat \<Rightarrow> nat \<Rightarrow> bool" where
  "chunk_at chunks L ci i \<longleftrightarrow>
    i < length (l_osecs L) \<and> ci \<in> set (os_chunk_ids (l_osecs L ! i)) \<and>
    index_map (l_osecs L) (c_name (chunks ! ci)) = Some i \<and>
    chunk_vaddr (l_osecs L) (index_map (l_osecs L)) (l_chunks L ! ci) =
      Some (os_vaddr (l_osecs L ! i) + c_offset (l_chunks L ! ci)) \<and>
    unat (os_vaddr (l_osecs L ! i) + c_offset (l_chunks L ! ci)) =
      unat (os_vaddr (l_osecs L ! i)) + unat (c_offset (l_chunks L ! ci)) \<and>
    unat (c_offset (l_chunks L ! ci)) + unat (c_size (chunks ! ci)) \<le> unat (os_size (l_osecs L ! i)) \<and>
    unat (c_align (chunks ! ci)) dvd unat (os_vaddr (l_osecs L ! i)) + unat (c_offset (l_chunks L ! ci))"

lemma chunk_place:
  assumes "chunks_ok chunks" and "layout_ok chunks L" and "ci < length chunks"
  shows "\<exists>i. chunk_at chunks L ci i"
proof -
  have inv: "sections_inv chunks (l_osecs L)" and oo: "offsets_only [0..<length chunks] chunks (l_chunks L)"
    using assms(2) by (simp_all add: layout_ok_def)
  obtain i where i: "i < length (l_osecs L)" "index_map (l_osecs L) (c_name (chunks ! ci)) = Some i"
    "ci \<in> set (os_chunk_ids (l_osecs L ! i))" "os_name (l_osecs L ! i) = c_name (chunks ! ci)"
    by (rule section_lookup [OF inv assms(3)])
  let ?os = "l_osecs L ! i" and ?c = "l_chunks L ! ci"
  have lo: "chunk_end ?c \<le> unat (os_size ?os)" "unat (c_align ?c) dvd unat (c_offset ?c)"
    using laid_outD(2,3) [OF layout_okD(2) [OF assms(2) i(1)] i(3)] by simp_all
  have pl: "unat (os_align ?os) dvd unat (os_vaddr ?os)"
    "unat (os_vaddr ?os) + unat (os_size ?os) \<le> unat BASE_ADDR + unat (l_memsz L)"
    using layout_okD(3,5) [OF assms(2) i(1)] by simp_all
  have sf: "c_align (chunks ! ci) \<le> os_align ?os"
    using sections_inv_ids(2) [OF inv, of ?os] i(1,3) by (simp add: section_facts_def list_all_iff)
  have p2: "pow2 (c_align (chunks ! cj))" if "cj < length chunks" for cj
    using assms(1) that by (simp add: chunks_ok_def list_all_length)
  obtain cj where "cj \<in> set (os_chunk_ids ?os)" "os_align ?os = c_align (chunks ! cj)"
    using sections_align [OF inv] i(1) nth_mem by blast
  then have "pow2 (os_align ?os)"
    using p2 sections_inv_ids(1) [OF inv, of ?os] i(1) by simp
  then have d: "unat (c_align (chunks ! ci)) dvd unat (os_align ?os)"
    using pow2_dvd [OF p2 [OF assms(3)]] sf by simp
  have u: "unat (os_vaddr ?os + c_offset ?c) = unat (os_vaddr ?os) + unat (c_offset ?c)"
  proof (rule unat_add_less)
    show "unat (os_vaddr ?os) + unat (c_offset ?c) < 2 ^ LENGTH(64)"
      using lo(1) pl(2) assms(2) by (simp add: layout_ok_def)
  qed
  have cv: "chunk_vaddr (l_osecs L) (index_map (l_osecs L)) ?c = Some (os_vaddr ?os + c_offset ?c)"
    using i(2) offsets_only_fields(3) [OF oo assms(3)] by (simp add: chunk_vaddr_def)
  have "unat (c_align (chunks ! ci)) dvd unat (c_offset ?c)"
    using lo(2) offsets_only_fields(2) [OF oo assms(3)] by simp
  with dvd_trans [OF d pl(1)]
  have "unat (c_align (chunks ! ci)) dvd unat (os_vaddr ?os) + unat (c_offset ?c)" by (rule dvd_add)
  then have "chunk_at chunks L ci i"
    unfolding chunk_at_def using i cv u lo(1) offsets_only_fields(1) [OF oo assms(3)] by simp
  then show ?thesis ..
qed

lemma sorted_wrt_either:
  assumes "sorted_wrt R xs" and "i < length xs" and "j < length xs" and "i \<noteq> j"
  shows "R (xs ! i) (xs ! j) \<or> R (xs ! j) (xs ! i)"
  using assms by (metis linorder_neqE_nat sorted_wrt_iff_nth_less)

text \<open>
  C17. \<^verbatim>\<open>align_up\<close> rounds up: for a power of two \<open>a\<close> with room above \<open>v\<close>, the result is the least
  multiple of \<open>a\<close> that is not below \<open>v\<close>, and nothing wraps around.
\<close>

theorem align_up_least:
  assumes "pow2 a" and "unat v + unat a \<le> 2 ^ 64"
  shows "unat a dvd unat (align_up v a) \<and> unat v \<le> unat (align_up v a) \<and>
    (\<forall>m. unat a dvd m \<longrightarrow> unat v \<le> m \<longrightarrow> unat (align_up v a) \<le> m)"
  using align_up_spec [OF assms] by blast

theorem align_up_least_witness:
  "16 dvd unat (align_up 4097 16) \<and> 4097 \<le> unat (align_up 4097 16) \<and> unat (align_up 4097 16) \<le> 4112"
proof -
  have p: "pow2 16" using pow2I [of 4] by simp
  have "(16 :: nat) dvd 4112" by simp
  then show ?thesis using align_up_least [OF p, of 4097] by simp
qed

text \<open>
  C18. The layout is safe: for chunks whose alignments are powers of two and whose sizes leave room
  in the address space, every chunk gets an address; it is a multiple of the chunk's alignment, the
  chunk lies between the headers and the end of the image, and no two chunks overlap in memory.
\<close>

theorem layout_places_chunks:
  assumes "chunks_ok chunks" and "chunks_fit chunks" and "ci < length chunks" and "cj < length chunks"
    and "ci \<noteq> cj" and "L = make_layout chunks"
    and "addr = (\<lambda>k. chunk_vaddr (l_osecs L) (index_map (l_osecs L)) (l_chunks L ! k))"
  shows "\<exists>a b. addr ci = Some a \<and> addr cj = Some b \<and>
    unat (c_align (chunks ! ci)) dvd unat a \<and>
    unat BASE_ADDR + 176 \<le> unat a \<and> unat a + unat (c_size (chunks ! ci)) \<le> unat BASE_ADDR + unat (l_memsz L) \<and>
    (unat a + unat (c_size (chunks ! ci)) \<le> unat b \<or> unat b + unat (c_size (chunks ! cj)) \<le> unat a)"
proof -
  have ok: "layout_ok chunks L" using make_layout_ok(1) [OF assms(1,2)] assms(6) by simp
  obtain i j where "chunk_at chunks L ci i" "chunk_at chunks L cj j"
    using chunk_place [OF assms(1) ok assms(3)] chunk_place [OF assms(1) ok assms(4)] by blast
  note i = this(1) [unfolded chunk_at_def] and j = this(2) [unfolded chunk_at_def]
  define va vb oa ob where "va = unat (os_vaddr (l_osecs L ! i))" and "vb = unat (os_vaddr (l_osecs L ! j))"
    and "oa = unat (c_offset (l_chunks L ! ci))" and "ob = unat (c_offset (l_chunks L ! cj))"
  have oo: "offsets_only [0..<length chunks] chunks (l_chunks L)" using ok by (simp add: layout_ok_def)
  note sz = offsets_only_fields(1) [OF oo assms(3)] offsets_only_fields(1) [OF oo assms(4)]
  have disj: "va + oa + unat (c_size (chunks ! ci)) \<le> vb + ob \<or> vb + ob + unat (c_size (chunks ! cj)) \<le> va + oa"
  proof (cases "i = j")
    case True
    have "sorted_wrt (\<lambda>ci cj. chunk_end (l_chunks L ! ci) \<le> unat (c_offset (l_chunks L ! cj)))
        (os_chunk_ids (l_osecs L ! i))"
      using layout_okD(2) [OF ok] i by (simp add: laid_out_def)
    moreover obtain p q where "p < length (os_chunk_ids (l_osecs L ! i))" "q < length (os_chunk_ids (l_osecs L ! i))"
      "os_chunk_ids (l_osecs L ! i) ! p = ci" "os_chunk_ids (l_osecs L ! i) ! q = cj"
      using i j True by (metis in_set_conv_nth)
    ultimately have "chunk_end (l_chunks L ! ci) \<le> ob \<or> chunk_end (l_chunks L ! cj) \<le> oa"
      using sorted_wrt_either [of _ "os_chunk_ids (l_osecs L ! i)" p q] assms(5) unfolding oa_def ob_def by blast
    then show ?thesis using True by (auto simp: va_def vb_def oa_def ob_def sz)
  next
    case False
    have "sorted_wrt (\<lambda>a b. unat (os_vaddr a) + unat (os_size a) \<le> unat (os_vaddr b)) (l_osecs L)"
      using ok by (simp add: layout_ok_def placed_def)
    from sorted_wrt_either [OF this _ _ False] i j
    have "va + unat (os_size (l_osecs L ! i)) \<le> vb \<or> vb + unat (os_size (l_osecs L ! j)) \<le> va"
      unfolding va_def vb_def by blast
    then show ?thesis using i j unfolding oa_def ob_def by linarith
  qed
  have "unat BASE_ADDR + 176 \<le> va" "va + unat (os_size (l_osecs L ! i)) \<le> unat BASE_ADDR + unat (l_memsz L)"
    using layout_okD(4,5) [OF ok] i unfolding va_def by blast+
  then have "unat BASE_ADDR + 176 \<le> va + oa \<and> va + oa + unat (c_size (chunks ! ci)) \<le> unat BASE_ADDR + unat (l_memsz L)"
    using i unfolding oa_def by linarith
  then show ?thesis
    unfolding assms(7) using i j disj unfolding va_def vb_def oa_def ob_def by simp
qed

text \<open>A code chunk, an initialised and a zero-initialised data chunk.\<close>

definition sample_chunks :: "Chunk list" where
  "sample_chunks =
    [\<lparr>c_obj_idx = 0, c_shdr_idx = 1, c_name = ''.text'', c_size = 6, c_align = 2 ^ 4, c_flags = 6,
      c_type = SHT_PROGBITS, c_data = [0xE8, 0, 0, 0, 0, 0xC3], c_offset = 0\<rparr>,
     \<lparr>c_obj_idx = 0, c_shdr_idx = 2, c_name = ''.data'', c_size = 8, c_align = 2 ^ 3, c_flags = 3,
      c_type = SHT_PROGBITS, c_data = replicate 8 1, c_offset = 0\<rparr>,
     \<lparr>c_obj_idx = 0, c_shdr_idx = 3, c_name = ''.bss'', c_size = 4, c_align = 2 ^ 2, c_flags = 3,
      c_type = SHT_NOBITS, c_data = replicate 4 0, c_offset = 0\<rparr>]"

lemma sample_chunks_ok: "chunks_ok sample_chunks" "chunks_fit sample_chunks"
  using pow2I [of 4] pow2I [of 3] pow2I [of 2] by (simp_all add: chunks_ok_def chunks_fit_def sample_chunks_def)

theorem layout_places_chunks_witness:
  "\<exists>a b. chunk_vaddr (l_osecs (make_layout sample_chunks)) (index_map (l_osecs (make_layout sample_chunks)))
      (l_chunks (make_layout sample_chunks) ! 0) = Some a \<and>
    chunk_vaddr (l_osecs (make_layout sample_chunks)) (index_map (l_osecs (make_layout sample_chunks)))
      (l_chunks (make_layout sample_chunks) ! 1) = Some b \<and>
    16 dvd unat a \<and> unat BASE_ADDR + 176 \<le> unat a \<and>
    (unat a + 6 \<le> unat b \<or> unat b + 8 \<le> unat a)"
  using layout_places_chunks [OF sample_chunks_ok, of 0 1, OF _ _ _ refl refl]
  by (simp add: sample_chunks_def) blast

end
