(* ===== verification/Elf_Symbols.thy ===== *)
theory Elf_Symbols
  imports Elf_Layout_Correct "HOL-Library.RBT" "HOL-Library.List_Lexorder" "HOL-Library.Char_ord"
begin

text \<open>
  Step 5 of \<^verbatim>\<open>src/llm4fun/linker/mini_elf_linker.cpp\<close>: the symbol tables of the inputs are read, every
  symbol gets its address, global and weak symbols are entered into one table, undefined references
  are resolved against it, and what stays undefined is an error unless it is weak.

  The table \<^verbatim>\<open>std::map<std::string, SymInfo> globals\<close> is a red-black tree over strings in the order
  of \<^verbatim>\<open>std::string\<close>: lexicographic by the unsigned bytes.
\<close>

section \<open>Reading symbols\<close>

record SymInfo =
  sy_name :: string
  sy_value :: u64
  sy_obj_idx :: nat
  sy_shndx :: u16
  sy_bind :: u8
  sy_type :: u8
  sy_resolved :: bool

type_synonym globals = "(string, SymInfo) rbt"

abbreviation (input) ELF64_ST_BIND :: "u8 \<Rightarrow> u8" where "ELF64_ST_BIND i \<equiv> drop_bit 4 i"
abbreviation (input) ELF64_ST_TYPE :: "u8 \<Rightarrow> u8" where "ELF64_ST_TYPE i \<equiv> i AND 0xF"

primrec find_symtab :: "InputObject \<Rightarrow> int list \<Rightarrow> link_error + int option" where
  "find_symtab obj [] = Inr None"
| "find_symtab obj (si # sis) =
  bind_res (shdr obj si) (\<lambda>r. case r of
    Some sh \<Rightarrow> if sh_type sh = SHT_SYMTAB then Inr (Some si) else find_symtab obj sis
  | None \<Rightarrow> find_symtab obj sis)"

text \<open>The value of a symbol and whether it is resolved.\<close>

definition symbol_value ::
    "OutputSection list \<Rightarrow> (string \<rightharpoonup> nat) \<Rightarrow> Chunk list \<Rightarrow> sec_map \<Rightarrow> nat \<Rightarrow> Elf64_Sym \<Rightarrow> u64 \<times> bool" where
  "symbol_value osecs osec_map chunks sec2chunk oi s =
  (if st_shndx s \<noteq> SHN_UNDEF \<and> st_shndx s < SHN_LORESERVE then
     (case sec2chunk (oi, uint (st_shndx s)) of
        Some ci \<Rightarrow>
          (case osec_map (c_name (chunks ! ci)) of
             Some osi \<Rightarrow> (os_vaddr (osecs ! osi) + c_offset (chunks ! ci) + st_value s, True)
           | None \<Rightarrow> (0, False))
      | None \<Rightarrow> (st_value s, False))
   else if st_shndx s = SHN_ABS then (st_value s, True)
   else (0, False))"

definition symbol_info ::
    "OutputSection list \<Rightarrow> (string \<rightharpoonup> nat) \<Rightarrow> Chunk list \<Rightarrow> sec_map \<Rightarrow> nat \<Rightarrow> string \<Rightarrow> Elf64_Sym \<Rightarrow> SymInfo" where
  "symbol_info osecs osec_map chunks sec2chunk oi nm s =
  (let (v, r) = symbol_value osecs osec_map chunks sec2chunk oi s
   in \<lparr>sy_name = nm, sy_value = v, sy_obj_idx = oi, sy_shndx = st_shndx s,
       sy_bind = ELF64_ST_BIND (st_info s), sy_type = ELF64_ST_TYPE (st_info s), sy_resolved = r\<rparr>)"

section \<open>The table of global symbols\<close>

definition register_global :: "InputObject list \<Rightarrow> SymInfo \<Rightarrow> globals \<Rightarrow> link_error + globals" where
  "register_global objects info globals =
  (if sy_bind info = STB_GLOBAL \<or> sy_bind info = STB_WEAK then
     let new_defined = (sy_shndx info \<noteq> SHN_UNDEF);
         old = RBT.lookup globals (sy_name info);
         old_exists = (old \<noteq> None);
         old_defined = (old_exists \<and> sy_shndx (the old) \<noteq> SHN_UNDEF);
         old_is_weak = (old_exists \<and> sy_bind (the old) = STB_WEAK);
         new_is_weak = (sy_bind info = STB_WEAK)
     in if new_defined then
          if old_defined \<and> \<not> old_is_weak \<and> \<not> new_is_weak then
            Inl (Duplicate_symbol (sy_name info) (filename (objects ! sy_obj_idx (the old)))
              (filename (objects ! sy_obj_idx info)))
          else if \<not> old_exists \<or> \<not> old_defined \<or> (old_is_weak \<and> \<not> new_is_weak) then
            Inr (RBT.insert (sy_name info) info globals)
          else Inr globals
        else if \<not> old_exists then Inr (RBT.insert (sy_name info) info globals)
        else Inr globals
   else Inr globals)"

text \<open>One symbol of the table of object \<open>oi\<close>: read, entered into \<^verbatim>\<open>all_syms[oi]\<close> and registered.\<close>

definition load_symbol ::
    "InputObject list \<Rightarrow> OutputSection list \<Rightarrow> (string \<rightharpoonup> nat) \<Rightarrow> Chunk list \<Rightarrow> sec_map \<Rightarrow> nat \<Rightarrow> nat \<Rightarrow> nat \<Rightarrow>
     nat \<Rightarrow> SymInfo list \<times> globals \<Rightarrow> link_error + SymInfo list \<times> globals" where
  "load_symbol objects osecs osec_map chunks sec2chunk oi strtab syms k st =
  (let obj = objects ! oi; (infos, globals) = st
   in bind_res (read_at (buf obj) (syms + k * sizeof_Sym) sizeof_Sym) (\<lambda>bs.
        let s = decode_sym bs
        in bind_res (c_string (buf obj) (strtab + unat (st_name s))) (\<lambda>nm.
             let info = symbol_info osecs osec_map chunks sec2chunk oi nm s
             in bind_res (register_global objects info globals) (\<lambda>globals. Inr (infos @ [info], globals)))))"

definition load_object_symbols ::
    "InputObject list \<Rightarrow> OutputSection list \<Rightarrow> (string \<rightharpoonup> nat) \<Rightarrow> Chunk list \<Rightarrow> sec_map \<Rightarrow> nat \<Rightarrow>
     SymInfo list list \<times> globals \<Rightarrow> link_error + SymInfo list list \<times> globals" where
  "load_object_symbols objects osecs osec_map chunks sec2chunk oi st =
  (let obj = objects ! oi; (all_syms, globals) = st
   in bind_res (find_symtab obj (section_indices obj)) (\<lambda>stidx. case stidx of
        None \<Rightarrow> Inr st
      | Some si \<Rightarrow> bind_res (shdr obj si) (\<lambda>r. case r of
          None \<Rightarrow> Inr st
        | Some stsh \<Rightarrow>
            if uint (sh_link stsh) \<ge> shnum obj then Inl (Invalid_symtab_link (filename obj))
            else bind_res (sec_data obj (uint (sh_link stsh))) (\<lambda>q. case q of
              None \<Rightarrow> Inl (Cannot_read_string_table (filename obj))
            | Some strtab \<Rightarrow>
                let nsym = sint (ucast (sh_size stsh div of_nat sizeof_Sym) :: i32)
                in bind_res (sec_data obj si) (\<lambda>p. case p of
                     None \<Rightarrow> Inr st
                   | Some syms \<Rightarrow>
                       if nsym < 0 then Inl Length_error
                       else bind_res
                         (fold_res (load_symbol objects osecs osec_map chunks sec2chunk oi strtab syms)
                           [0..<nat nsym] ([], globals))
                         (\<lambda>(infos, globals). Inr (all_syms[oi := infos], globals)))))))"

definition load_symbols ::
    "InputObject list \<Rightarrow> OutputSection list \<Rightarrow> (string \<rightharpoonup> nat) \<Rightarrow> Chunk list \<Rightarrow> sec_map \<Rightarrow>
     link_error + SymInfo list list \<times> globals" where
  "load_symbols objects osecs osec_map chunks sec2chunk =
    fold_res (load_object_symbols objects osecs osec_map chunks sec2chunk) [0..<length objects]
      (replicate (length objects) [], RBT.empty)"

section \<open>Resolution\<close>

definition resolve_symbol :: "globals \<Rightarrow> SymInfo \<Rightarrow> SymInfo" where
  "resolve_symbol globals si =
  (if sy_shndx si = SHN_UNDEF \<and> sy_name si \<noteq> [] then
     (case RBT.lookup globals (sy_name si) of
        Some g \<Rightarrow> if sy_shndx g \<noteq> SHN_UNDEF then si\<lparr>sy_value := sy_value g, sy_resolved := True\<rparr> else si
      | None \<Rightarrow> si)
   else si)"

definition resolve_undefined :: "globals \<Rightarrow> SymInfo list list \<Rightarrow> SymInfo list list" where
  "resolve_undefined globals all_syms = map (map (resolve_symbol globals)) all_syms"

text \<open>The pass over the table in key order: weak undefined symbols become zero, others are errors.\<close>

definition check_entry :: "string \<times> SymInfo \<Rightarrow> globals \<Rightarrow> link_error + globals" where
  "check_entry e g =
  (let (nm, info) = e
   in if sy_shndx info = SHN_UNDEF \<and> nm \<noteq> [] then
        if sy_bind info = STB_WEAK then Inr (RBT.insert nm (info\<lparr>sy_value := 0, sy_resolved := True\<rparr>) g)
        else Inl (Undefined_symbol nm)
      else Inr g)"

definition check_unresolved :: "globals \<Rightarrow> link_error + globals" where
  "check_unresolved globals = fold_res check_entry (RBT.entries globals) globals"

definition entry_point :: "globals \<Rightarrow> u64" where
  "entry_point globals = (case RBT.lookup globals ''_start'' of Some g \<Rightarrow> sy_value g | None \<Rightarrow> 0)"

section \<open>What the table holds\<close>

text \<open>
  The specification of the table: the strong definition of a name if there is one, otherwise its first
  weak definition, otherwise its first undefined reference.
\<close>

definition strong_def :: "string \<Rightarrow> SymInfo \<Rightarrow> bool" where
  "strong_def nm i \<longleftrightarrow> sy_name i = nm \<and> sy_bind i = STB_GLOBAL \<and> sy_shndx i \<noteq> SHN_UNDEF"

definition weak_def :: "string \<Rightarrow> SymInfo \<Rightarrow> bool" where
  "weak_def nm i \<longleftrightarrow> sy_name i = nm \<and> sy_bind i = STB_WEAK \<and> sy_shndx i \<noteq> SHN_UNDEF"

definition reference :: "string \<Rightarrow> SymInfo \<Rightarrow> bool" where
  "reference nm i \<longleftrightarrow> sy_name i = nm \<and> (sy_bind i = STB_GLOBAL \<or> sy_bind i = STB_WEAK) \<and> sy_shndx i = SHN_UNDEF"

definition pick_symbol :: "string \<Rightarrow> SymInfo list \<Rightarrow> SymInfo option" where
  "pick_symbol nm infos =
    (case List.find (strong_def nm) infos of
       Some i \<Rightarrow> Some i
     | None \<Rightarrow> (case List.find (weak_def nm) infos of
         Some i \<Rightarrow> Some i
       | None \<Rightarrow> List.find (reference nm) infos))"

lemma find_append: "List.find P (xs @ ys) = (case List.find P xs of None \<Rightarrow> List.find P ys | Some x \<Rightarrow> Some x)"
  by (induction xs) auto

lemma find_Some: "List.find P xs = Some x \<Longrightarrow> P x \<and> x \<in> set xs"
  by (induction xs) (auto split: if_splits)

lemmas sym_kinds = strong_def_def weak_def_def reference_def

lemma pick_symbol_snoc_other:
  "sy_name x \<noteq> nm \<or> sy_bind x \<noteq> STB_GLOBAL \<and> sy_bind x \<noteq> STB_WEAK \<Longrightarrow>
    pick_symbol nm (infos @ [x]) = pick_symbol nm infos"
  by (auto simp: pick_symbol_def find_append sym_kinds split: option.splits)

lemma pick_symbol_cases:
  assumes "old = pick_symbol nm infos"
  shows "(\<exists>o'. old = Some o' \<and> List.find (strong_def nm) infos = Some o' \<and> strong_def nm o') \<or>
    (\<exists>o'. old = Some o' \<and> List.find (strong_def nm) infos = None \<and> List.find (weak_def nm) infos = Some o' \<and> weak_def nm o') \<or>
    (\<exists>o'. old = Some o' \<and> List.find (strong_def nm) infos = None \<and> List.find (weak_def nm) infos = None \<and>
      List.find (reference nm) infos = Some o' \<and> reference nm o') \<or>
    (old = None \<and> List.find (strong_def nm) infos = None \<and> List.find (weak_def nm) infos = None \<and>
      List.find (reference nm) infos = None)"
  using assms by (auto simp: pick_symbol_def dest: find_Some split: option.splits)

lemma register_global_pick:
  assumes "\<And>nm. RBT.lookup g nm = pick_symbol nm infos"
  shows "(\<exists>g'. register_global objects x g = Inr g') \<longleftrightarrow>
      \<not> (strong_def (sy_name x) x \<and> List.find (strong_def (sy_name x)) infos \<noteq> None)"
    and "register_global objects x g = Inr g' \<Longrightarrow> RBT.lookup g' nm = pick_symbol nm (infos @ [x])"
proof -
  have old: "RBT.lookup g (sy_name x) = pick_symbol (sy_name x) infos" using assms .
  note c = pick_symbol_cases [OF old]
  show "(\<exists>g'. register_global objects x g = Inr g') \<longleftrightarrow>
      \<not> (strong_def (sy_name x) x \<and> List.find (strong_def (sy_name x)) infos \<noteq> None)"
    using c by (auto simp: register_global_def sym_kinds Let_def)
  assume r: "register_global objects x g = Inr g'"
  show "RBT.lookup g' nm = pick_symbol nm (infos @ [x])"
  proof (cases "sy_name x \<noteq> nm \<or> sy_bind x \<noteq> STB_GLOBAL \<and> sy_bind x \<noteq> STB_WEAK")
    case True
    then have "RBT.lookup g' nm = RBT.lookup g nm"
      using r by (auto simp: register_global_def Let_def split: if_splits)
    then show ?thesis using True assms by (simp add: pick_symbol_snoc_other)
  next
    case False
    then have nm: "nm = sy_name x" by simp
    show ?thesis
      using c r False unfolding nm
      by (elim disjE exE conjE)
        (auto simp: register_global_def Let_def pick_symbol_def find_append sym_kinds split: if_splits)
  qed
qed

abbreviation sym_ref :: "string \<Rightarrow> u8 \<Rightarrow> SymInfo" where
  "sym_ref nm b \<equiv> \<lparr>sy_name = nm, sy_value = 0, sy_obj_idx = 0, sy_shndx = SHN_UNDEF, sy_bind = b,
    sy_type = STT_NOTYPE, sy_resolved = False\<rparr>"

abbreviation sym_def :: "string \<Rightarrow> u8 \<Rightarrow> u64 \<Rightarrow> SymInfo" where
  "sym_def nm b v \<equiv> \<lparr>sy_name = nm, sy_value = v, sy_obj_idx = 0, sy_shndx = 1, sy_bind = b,
    sy_type = STT_NOTYPE, sy_resolved = True\<rparr>"

lemma register_globals_table:
  "((\<exists>g. fold_res (register_global objects) infos RBT.empty = Inr g) \<longleftrightarrow>
     (\<forall>nm. length (filter (strong_def nm) infos) \<le> 1)) \<and>
   (\<forall>g nm. fold_res (register_global objects) infos RBT.empty = Inr g \<longrightarrow>
     RBT.lookup g nm = pick_symbol nm infos)"
proof (induction infos rule: rev_induct)
  case Nil
  then show ?case by (simp add: pick_symbol_def)
next
  case (snoc x infos)
  let ?f = "fold_res (register_global objects)"
  have step: "?f (infos @ [x]) RBT.empty = bind_res (?f infos RBT.empty) (\<lambda>g. register_global objects x g)"
    by (cases "?f infos RBT.empty") (simp_all add: fold_res_append bind_res_def split: sum.splits)
  have none: "List.find P xs = None \<longleftrightarrow> filter P xs = []" for P :: "SymInfo \<Rightarrow> bool" and xs
    by (induction xs) auto
  show ?case
  proof (cases "?f infos RBT.empty")
    case (Inl e)
    then have "\<not> (\<forall>nm. length (filter (strong_def nm) infos) \<le> 1)" using snoc.IH by simp
    then obtain nm where "1 < length (filter (strong_def nm) infos)" by (auto simp: not_le)
    then have "1 < length (filter (strong_def nm) (infos @ [x]))" by simp
    then have "\<not> (\<forall>nm. length (filter (strong_def nm) (infos @ [x])) \<le> 1)" by (metis not_le)
    then show ?thesis unfolding step Inl by (simp del: filter_append)
  next
    case (Inr g)
    then have lk: "\<And>nm. RBT.lookup g nm = pick_symbol nm infos"
      and one: "\<forall>nm. length (filter (strong_def nm) infos) \<le> 1" using snoc.IH by auto
    have "(\<forall>nm. length (filter (strong_def nm) (infos @ [x])) \<le> 1) \<longleftrightarrow>
        \<not> (strong_def (sy_name x) x \<and> List.find (strong_def (sy_name x)) infos \<noteq> None)"
      using one by (auto simp: none strong_def_def)
    then show ?thesis
      using register_global_pick [OF lk] Inr step by simp
  qed
qed

text \<open>
  C19. Symbol resolution: the table is built without error exactly when no name has two strong
  definitions, and then holds for every name its strong definition if there is one, otherwise its
  first weak definition, otherwise its first reference, whatever the order of the inputs.
\<close>

theorem register_globals_spec:
  "((\<exists>g. fold_res (register_global objects) infos RBT.empty = Inr g) \<longleftrightarrow>
     (\<forall>nm. length (filter (strong_def nm) infos) \<le> 1)) \<and>
   (\<forall>g nm. fold_res (register_global objects) infos RBT.empty = Inr g \<longrightarrow>
     RBT.lookup g nm = pick_symbol nm infos)"
  by (rule register_globals_table)

theorem register_globals_spec_witness:
  "\<exists>g. fold_res (register_global []) [sym_def ''f'' STB_WEAK 1, sym_ref ''f'' STB_GLOBAL, sym_def ''f'' STB_GLOBAL 2]
      RBT.empty = Inr g \<and> RBT.lookup g ''f'' = Some (sym_def ''f'' STB_GLOBAL 2)"
  using register_globals_spec [of "[]"
    "[sym_def ''f'' STB_WEAK 1, sym_ref ''f'' STB_GLOBAL, sym_def ''f'' STB_GLOBAL 2]"]
  by (auto simp: pick_symbol_def sym_kinds)

section \<open>The table and the symbols of the inputs\<close>

lemma load_symbol_registers:
  assumes "fold_res (load_symbol objects osecs osec_map chunks sec2chunk oi strtab syms) ks (infos, g) =
    Inr (infos', g')"
  shows "\<exists>new. infos' = infos @ new \<and> fold_res (register_global objects) new g = Inr g'"
  using assms
proof (induction ks arbitrary: infos g)
  case Nil
  then show ?case by simp
next
  case (Cons k ks)
  from Cons.prems obtain st where st: "load_symbol objects osecs osec_map chunks sec2chunk oi strtab syms k (infos, g) = Inr st"
    "fold_res (load_symbol objects osecs osec_map chunks sec2chunk oi strtab syms) ks st = Inr (infos', g')"
    by (auto simp: bind_res_Inr)
  from st(1) obtain info g1 where i: "register_global objects info g = Inr g1" "st = (infos @ [info], g1)"
    by (auto simp: load_symbol_def Let_def bind_res_Inr)
  from Cons.IH [of "infos @ [info]" g1] st(2) i(2)
  obtain new where "infos' = infos @ [info] @ new" "fold_res (register_global objects) new g1 = Inr g'" by auto
  then show ?case using i(1) by (intro exI [of _ "info # new"]) simp
qed

lemma load_object_symbols_registers:
  assumes "load_object_symbols objects osecs osec_map chunks sec2chunk oi (all_syms, g) = Inr (all_syms', g')"
  shows "\<exists>infos. (all_syms' = all_syms[oi := infos] \<or> all_syms' = all_syms \<and> infos = []) \<and>
    fold_res (register_global objects) infos g = Inr g'"
proof -
  have nop: "?thesis" if "all_syms' = all_syms" "g' = g" using that by (intro exI [of _ "[]"]) simp
  have "(all_syms' = all_syms \<and> g' = g) \<or>
      (\<exists>strtab syms ks infos. fold_res (load_symbol objects osecs osec_map chunks sec2chunk oi strtab syms) ks ([], g) =
        Inr (infos, g') \<and> all_syms' = all_syms[oi := infos])"
    using assms unfolding load_object_symbols_def Let_def prod.case
    by (auto elim!: bind_resE split: option.split_asm if_split_asm prod.splits) blast+
  then show ?thesis using nop load_symbol_registers by fastforce
qed

lemma concat_update_last:
  assumes "k < length xss" and "drop k xss = replicate n []"
  shows "concat (xss[k := xs]) = concat xss @ xs"
proof -
  have e: "concat (replicate m []) = []" for m by (induction m) auto
  have "drop (Suc k) xss = tl (replicate n [])" by (simp only: assms(2) [symmetric] drop_Suc tl_drop)
  then have "concat (drop (Suc k) xss) = []" by (cases n) (simp_all add: e)
  moreover have "concat xss = concat (take k xss)"
    by (subst append_take_drop_id [of k xss, symmetric], subst concat_append) (simp add: assms(2) e)
  ultimately show ?thesis using assms(1) by (simp add: upd_conv_take_nth_drop)
qed

text \<open>Loading is registering all symbols of all inputs in order.\<close>

lemma load_symbols_registers:
  assumes "load_symbols objects osecs osec_map chunks sec2chunk = Inr (all_syms, g)"
  shows "fold_res (register_global objects) (concat all_syms) RBT.empty = Inr g"
proof -
  let ?n = "length objects"
  let ?f = "fold_res (load_object_symbols objects osecs osec_map chunks sec2chunk)"
  have "length xss = ?n \<and> drop k xss = replicate (?n - k) [] \<and>
      fold_res (register_global objects) (concat xss) RBT.empty = Inr h"
    if "k \<le> ?n" "?f [0..<k] (replicate ?n [], RBT.empty) = Inr (xss, h)" for k xss h
    using that
  proof (induction k arbitrary: xss h)
    case 0
    moreover have "concat (replicate n []) = []" for n :: nat by (induction n) auto
    ultimately show ?case by auto
  next
    case (Suc k)
    obtain yss h0 where y: "?f [0..<k] (replicate ?n [], RBT.empty) = Inr (yss, h0)"
      "load_object_symbols objects osecs osec_map chunks sec2chunk k (yss, h0) = Inr (xss, h)"
      using Suc.prems(2) by (auto simp: fold_res_append bind_res_Inr)
    have ih: "length yss = ?n" "drop k yss = replicate (?n - k) []"
      "fold_res (register_global objects) (concat yss) RBT.empty = Inr h0"
      using Suc.IH [OF _ y(1)] Suc.prems(1) by simp_all
    obtain infos where i: "xss = yss[k := infos] \<or> xss = yss \<and> infos = []"
      "fold_res (register_global objects) infos h0 = Inr h"
      using load_object_symbols_registers [OF y(2)] by blast
    have "concat xss = concat yss @ infos"
      using i(1) concat_update_last [OF _ ih(2), of infos] ih(1) Suc.prems(1) by auto
    moreover have "drop (Suc k) xss = replicate (?n - Suc k) []"
    proof -
      have "drop (Suc k) xss = drop (Suc k) yss" using i(1) by auto
      also have "\<dots> = tl (drop k yss)" by (simp add: drop_Suc tl_drop)
      also have "\<dots> = replicate (?n - Suc k) []" using ih(2) by simp
      finally show ?thesis .
    qed
    moreover have "length xss = ?n" using i(1) ih(1) by auto
    ultimately show ?case using ih(3) i(2) by (simp add: fold_res_append)
  qed
  from this [OF order_refl assms [unfolded load_symbols_def]] show ?thesis by blast
qed

section \<open>Undefined symbols\<close>

definition entry_resolved :: "string \<times> SymInfo \<Rightarrow> bool" where
  "entry_resolved e \<longleftrightarrow> sy_shndx (snd e) = SHN_UNDEF \<and> fst e \<noteq> [] \<longrightarrow> sy_bind (snd e) = STB_WEAK"

lemma check_entry_Inr: "(\<exists>g'. check_entry e g = Inr g') \<longleftrightarrow> entry_resolved e"
  by (cases e) (simp add: check_entry_def entry_resolved_def)

lemma check_entry_Inl: "check_entry e g = Inl x \<Longrightarrow> \<not> entry_resolved e \<and> x = Undefined_symbol (fst e)"
  by (cases e) (simp add: check_entry_def entry_resolved_def split: if_splits)

lemma check_entries_Inr: "(\<exists>g'. fold_res check_entry es g = Inr g') \<longleftrightarrow> list_all entry_resolved es"
proof (induction es arbitrary: g)
  case (Cons e es)
  show ?case
  proof (cases "check_entry e g")
    case (Inl x)
    then show ?thesis using check_entry_Inl [OF Inl] by simp
  next
    case (Inr g1)
    then have "entry_resolved e" using check_entry_Inr by blast
    then show ?thesis using Inr Cons.IH [of g1] by simp
  qed
qed simp

lemma check_entries_Inl:
  "fold_res check_entry es g = Inl x \<Longrightarrow> \<exists>e \<in> set es. \<not> entry_resolved e \<and> x = Undefined_symbol (fst e)"
proof (induction es arbitrary: g)
  case (Cons e es)
  then show ?case by (cases "check_entry e g") (auto dest: check_entry_Inl)
qed simp

lemma entries_lookup: "list_all P (RBT.entries g) \<longleftrightarrow> (\<forall>nm info. RBT.lookup g nm = Some info \<longrightarrow> P (nm, info))"
  by (simp add: list_all_iff RBT.lookup_in_tree) auto

lemma check_unresolved_Inr:
  "(\<exists>g'. check_unresolved g = Inr g') \<longleftrightarrow>
    (\<forall>nm info. RBT.lookup g nm = Some info \<longrightarrow> entry_resolved (nm, info))"
  by (simp add: check_unresolved_def check_entries_Inr entries_lookup)

lemma check_unresolved_Inl:
  assumes "check_unresolved g = Inl x"
  shows "\<exists>nm info. x = Undefined_symbol nm \<and> RBT.lookup g nm = Some info \<and> \<not> entry_resolved (nm, info)"
proof -
  obtain e where "e \<in> set (RBT.entries g)" "\<not> entry_resolved e" "x = Undefined_symbol (fst e)"
    using check_entries_Inl [OF assms [unfolded check_unresolved_def]] by blast
  then show ?thesis by (intro exI [of _ "fst e"] exI [of _ "snd e"]) (simp add: RBT.lookup_in_tree)
qed

text \<open>
  C20. After the checks every undefined named symbol of every input is accounted for: if the name is
  defined in some input, the symbol gets the value of the definition the table holds; if not, it stays
  as it was and its name is in the table as a weak reference (or the symbol is not global at all).
\<close>

theorem undefined_symbols_resolved:
  assumes "fold_res (register_global objects) (concat all_syms) RBT.empty = Inr g"
    and "check_unresolved g = Inr g'" and "si \<in> set (concat all_syms)"
    and "sy_shndx si = SHN_UNDEF" and "sy_name si \<noteq> []"
  shows "case pick_symbol (sy_name si) (concat all_syms) of
      Some d \<Rightarrow> if sy_shndx d \<noteq> SHN_UNDEF
        then resolve_symbol g si = si\<lparr>sy_value := sy_value d, sy_resolved := True\<rparr>
        else resolve_symbol g si = si \<and> sy_bind d = STB_WEAK
    | None \<Rightarrow> resolve_symbol g si = si \<and> sy_bind si \<noteq> STB_GLOBAL \<and> sy_bind si \<noteq> STB_WEAK"
proof -
  let ?nm = "sy_name si" and ?infos = "concat all_syms"
  have lk: "RBT.lookup g ?nm = pick_symbol ?nm ?infos" using register_globals_table assms(1) by blast
  show ?thesis
  proof (cases "pick_symbol ?nm ?infos")
    case None
    then have "List.find (reference ?nm) ?infos = None"
      by (auto simp: pick_symbol_def split: option.splits)
    then have "\<not> reference ?nm si" using assms(3) by (metis find_None_iff)
    then show ?thesis using None lk assms(4) by (simp add: resolve_symbol_def reference_def)
  next
    case (Some d)
    then have "entry_resolved (?nm, d)" using check_unresolved_Inr [of g] assms(2) lk by metis
    then show ?thesis using Some lk assms(4,5) by (simp add: resolve_symbol_def entry_resolved_def)
  qed
qed

lemma check_succeeds:
  assumes "\<And>nm info. RBT.lookup g nm = Some info \<Longrightarrow> entry_resolved (nm, info)"
  obtains g' where "check_unresolved g = Inr g'"
  using assms check_unresolved_Inr by blast

theorem undefined_symbols_resolved_witness:
  "\<exists>g. fold_res (register_global []) [sym_ref ''f'' STB_GLOBAL, sym_def ''f'' STB_GLOBAL 0x4000B0] RBT.empty = Inr g \<and>
    resolve_symbol g (sym_ref ''f'' STB_GLOBAL) =
      (sym_ref ''f'' STB_GLOBAL)\<lparr>sy_value := 0x4000B0, sy_resolved := True\<rparr>"
proof -
  let ?syms = "[[sym_ref ''f'' STB_GLOBAL, sym_def ''f'' STB_GLOBAL 0x4000B0]]"
  obtain g where g: "fold_res (register_global []) (concat ?syms) RBT.empty = Inr g"
    "RBT.lookup g = [''f'' \<mapsto> sym_def ''f'' STB_GLOBAL 0x4000B0]"
    by (simp add: register_global_def)
  obtain g' where "check_unresolved g = Inr g'"
    by (rule check_succeeds [of g]) (auto simp: g(2) entry_resolved_def split: if_splits)
  from undefined_symbols_resolved [OF g(1) this, of "sym_ref ''f'' STB_GLOBAL"] g(1) show ?thesis
    by (simp add: pick_symbol_def sym_kinds)
qed

text \<open>
  C25. The error for undefined symbols depends on the order of the inputs: when a weak reference to a
  name comes before a strong one, the strong reference is accepted and keeps the value it had; in the
  other order the same program is rejected.
\<close>

theorem weak_reference_masks_undefined:
  assumes "sy_name w = nm" and "sy_name s = nm" and "nm \<noteq> []" and "sy_shndx w = SHN_UNDEF"
    and "sy_shndx s = SHN_UNDEF" and "sy_bind w = STB_WEAK" and "sy_bind s = STB_GLOBAL"
  shows "(\<exists>g g'. fold_res (register_global objects) [w, s] RBT.empty = Inr g \<and> check_unresolved g = Inr g' \<and>
      resolve_symbol g s = s) \<and>
    (\<exists>g. fold_res (register_global objects) [s, w] RBT.empty = Inr g \<and>
      check_unresolved g = Inl (Undefined_symbol nm))"
proof
  obtain g where g: "fold_res (register_global objects) [w, s] RBT.empty = Inr g" "RBT.lookup g = [nm \<mapsto> w]"
    using assms by (simp add: register_global_def)
  obtain g' where "check_unresolved g = Inr g'"
    by (rule check_succeeds [of g]) (use assms in \<open>auto simp: g(2) entry_resolved_def split: if_splits\<close>)
  moreover have "resolve_symbol g s = s" using assms g(2) by (simp add: resolve_symbol_def)
  ultimately show "\<exists>g g'. fold_res (register_global objects) [w, s] RBT.empty = Inr g \<and> check_unresolved g = Inr g' \<and>
      resolve_symbol g s = s" using g(1) by blast
  obtain h where h: "fold_res (register_global objects) [s, w] RBT.empty = Inr h" "RBT.lookup h = [nm \<mapsto> s]"
    using assms by (simp add: register_global_def)
  have "\<not> entry_resolved (nm, s)" using assms by (simp add: entry_resolved_def)
  then have "\<nexists>h'. check_unresolved h = Inr h'" using check_unresolved_Inr [of h] h(2) by auto
  then obtain x where x: "check_unresolved h = Inl x" by (cases "check_unresolved h") auto
  then have "x = Undefined_symbol nm" using check_unresolved_Inl [OF x] h(2) by (auto split: if_splits)
  then show "\<exists>g. fold_res (register_global objects) [s, w] RBT.empty = Inr g \<and>
      check_unresolved g = Inl (Undefined_symbol nm)" using h(1) x by blast
qed

theorem weak_reference_masks_undefined_witness:
  "(\<exists>g g'. fold_res (register_global []) [sym_ref ''f'' STB_WEAK, sym_ref ''f'' STB_GLOBAL] RBT.empty = Inr g \<and>
      check_unresolved g = Inr g' \<and> resolve_symbol g (sym_ref ''f'' STB_GLOBAL) = sym_ref ''f'' STB_GLOBAL) \<and>
    (\<exists>g. fold_res (register_global []) [sym_ref ''f'' STB_GLOBAL, sym_ref ''f'' STB_WEAK] RBT.empty = Inr g \<and>
      check_unresolved g = Inl (Undefined_symbol ''f''))"
  by (rule weak_reference_masks_undefined) simp_all

end
