(* ===== verification/Elf_Relocate.thy ===== *)
theory Elf_Relocate
  imports Elf_Symbols
begin

text \<open>
  Step 6 of \<^verbatim>\<open>src/llm4fun/linker/mini_elf_linker.cpp\<close>: the relocations of every section that became a
  chunk are applied to the bytes of the chunk.

  The bounds checks are written as in the source, on 64-bit words; a store through \<^verbatim>\<open>memcpy\<close> that does
  not lie inside the chunk's bytes is undefined.
\<close>

section \<open>One relocation\<close>

abbreviation (input) ELF64_R_SYM :: "u64 \<Rightarrow> int" where
  "ELF64_R_SYM i \<equiv> sint (ucast (drop_bit 32 i) :: i32)"

abbreviation (input) ELF64_R_TYPE :: "u64 \<Rightarrow> int" where
  "ELF64_R_TYPE i \<equiv> sint (ucast (i AND 0xFFFFFFFF) :: i32)"

definition store_at :: "u8 list \<Rightarrow> u64 \<Rightarrow> u8 list \<Rightarrow> link_error + u8 list" where
  "store_at bytes off bs =
  (if unat off + length bs \<le> length bytes
   then Inr (take (unat off) bytes @ bs @ drop (unat off + length bs) bytes)
   else Inl Undefined_access)"

definition out_of_bounds :: "u64 \<Rightarrow> u64 \<Rightarrow> u8 list \<Rightarrow> bool" where
  "out_of_bounds off n bytes \<longleftrightarrow> off + n > of_nat (length bytes)"

definition INT32_MIN :: int where
  "INT32_MIN = - (2 ^ 31)"

definition INT32_MAX :: int where
  "INT32_MAX = 2 ^ 31 - 1"

definition UINT32_MAX :: u64 where
  "UINT32_MAX = 0xFFFFFFFF"

text \<open>The subtraction of two \<^verbatim>\<open>int64_t\<close> that does not fit is undefined.\<close>

definition sub_i64 :: "i64 \<Rightarrow> i64 \<Rightarrow> link_error + int" where
  "sub_i64 a b =
  (let d = sint a - sint b in if - (2 ^ 63) \<le> d \<and> d < 2 ^ 63 then Inr d else Inl Undefined_access)"

definition apply_relocation ::
    "string \<Rightarrow> string \<Rightarrow> int \<Rightarrow> u64 \<Rightarrow> i64 \<Rightarrow> u64 \<Rightarrow> u64 \<Rightarrow> u8 list \<Rightarrow> link_error + u8 list" where
  "apply_relocation fn symname rel_type S A P off bytes =
  (if rel_type = int R_X86_64_NONE then Inr bytes
   else if rel_type = int R_X86_64_64 then
     if out_of_bounds off 8 bytes then Inl (Relocation_out_of_bounds fn rel_type)
     else store_at bytes off (b64 (S + A))
   else if rel_type = int R_X86_64_PC32 \<or> rel_type = int R_X86_64_PLT32 then
     if out_of_bounds off 4 bytes then Inl (Relocation_out_of_bounds fn rel_type)
     else bind_res (sub_i64 (S + A) P) (\<lambda>val.
       if val < INT32_MIN \<or> val > INT32_MAX then Inl (Relocation_overflow fn rel_type symname)
       else store_at bytes off (b32 (word_of_int val)))
   else if rel_type = int R_X86_64_32 then
     if out_of_bounds off 4 bytes then Inl (Relocation_out_of_bounds fn rel_type)
     else let val = S + A
       in if val > UINT32_MAX then Inl (Relocation_overflow fn rel_type symname)
          else store_at bytes off (b32 (ucast val))
   else if rel_type = int R_X86_64_32S then
     if out_of_bounds off 4 bytes then Inl (Relocation_out_of_bounds fn rel_type)
     else let val = sint (S + A)
       in if val < INT32_MIN \<or> val > INT32_MAX then Inl (Relocation_overflow fn rel_type symname)
          else store_at bytes off (b32 (word_of_int val))
   else Inl (Unsupported_relocation fn rel_type))"

section \<open>All relocations\<close>

text \<open>Relocation \<open>ri\<close> of a table at \<open>rels\<close>, applied to chunk \<open>ci\<close> at address \<open>chunk_addr\<close>.\<close>

definition relocate_entry ::
    "InputObject \<Rightarrow> SymInfo list \<Rightarrow> u64 \<Rightarrow> nat \<Rightarrow> nat \<Rightarrow> nat \<Rightarrow> Chunk list \<Rightarrow> link_error + Chunk list" where
  "relocate_entry obj syms chunk_addr ci rels ri chunks =
  bind_res (read_at (buf obj) (rels + ri * sizeof_Rela) sizeof_Rela) (\<lambda>bs.
    let r = decode_rela bs;
        sym_idx = ELF64_R_SYM (r_info r);
        rel_type = ELF64_R_TYPE (r_info r)
    in if sym_idx < 0 \<or> sym_idx \<ge> int (length syms) then Inl (Invalid_symbol_index (filename obj) sym_idx)
       else let sym = syms ! nat sym_idx
         in bind_res (apply_relocation (filename obj) (sy_name sym) rel_type (sy_value sym) (r_addend r)
                (chunk_addr + r_offset r) (r_offset r) (c_data (chunks ! ci)))
              (\<lambda>bytes. Inr (chunks[ci := (chunks ! ci)\<lparr>c_data := bytes\<rparr>])))"

definition relocate_section ::
    "OutputSection list \<Rightarrow> (string \<rightharpoonup> nat) \<Rightarrow> sec_map \<Rightarrow> SymInfo list list \<Rightarrow> nat \<Rightarrow> InputObject \<Rightarrow> int \<Rightarrow>
     Chunk list \<Rightarrow> link_error + Chunk list" where
  "relocate_section osecs osec_map sec2chunk all_syms oi obj si chunks =
  bind_res (shdr obj si) (\<lambda>r. case r of
    None \<Rightarrow> Inr chunks
  | Some sh \<Rightarrow>
      if sh_type sh \<noteq> SHT_RELA then Inr chunks
      else (case sec2chunk (oi, sint (sh_info sh)) of
        None \<Rightarrow> Inr chunks
      | Some ci \<Rightarrow> (case osec_map (c_name (chunks ! ci)) of
          None \<Rightarrow> Inr chunks
        | Some osi \<Rightarrow>
            let chunk_addr = os_vaddr (osecs ! osi) + c_offset (chunks ! ci);
                nrel = sint (ucast (sh_size sh div of_nat sizeof_Rela) :: i32)
            in bind_res (sec_data obj si) (\<lambda>p. case p of
                 None \<Rightarrow> Inr chunks
               | Some rels \<Rightarrow>
                   fold_res (relocate_entry obj (all_syms ! oi) chunk_addr ci rels) [0..<nat nrel] chunks))))"

definition apply_relocations ::
    "InputObject list \<Rightarrow> OutputSection list \<Rightarrow> (string \<rightharpoonup> nat) \<Rightarrow> sec_map \<Rightarrow> SymInfo list list \<Rightarrow> Chunk list \<Rightarrow>
     link_error + Chunk list" where
  "apply_relocations objects osecs osec_map sec2chunk all_syms chunks =
    fold_res (\<lambda>(oi, obj). fold_res (relocate_section osecs osec_map sec2chunk all_syms oi obj) (section_indices obj))
      (enumerate 0 objects) chunks"

section \<open>What a relocation stores\<close>

lemma store_at_Inr:
  assumes "store_at bytes off bs = Inr bytes'"
  shows "length bytes' = length bytes" and "take (length bs) (drop (unat off) bytes') = bs"
    and "\<And>i. i < unat off \<or> unat off + length bs \<le> i \<Longrightarrow> i < length bytes \<Longrightarrow> bytes' ! i = bytes ! i"
  using assms by (auto simp: store_at_def nth_append split: if_splits)

lemma store_at_field:
  assumes "store_at bytes off (nat_bytes n v) = Inr bytes'" and "v < 256 ^ n"
  shows "field (unat off) n bytes' = v"
  using store_at_Inr(2) [OF assms(1)] assms(2) by (simp add: field_def)

text \<open>Sign extension of a truncated value gives the value back when it fits.\<close>

lemma scast_word_of_int:
  assumes "INT32_MIN \<le> v" and "v \<le> INT32_MAX"
  shows "(scast (word_of_int v :: i32) :: u64) = word_of_int v"
proof -
  have "sint (word_of_int v :: i32) = v"
    using assms by (simp add: INT32_MIN_def INT32_MAX_def signed_of_int signed_take_bit_int_eq_self)
  then show ?thesis by (simp add: scast_eq)
qed

lemma of_nat_unat_id: "(of_nat (unat w) :: 'a::len word) = w"
  by simp

section \<open>Relocations change bytes only\<close>

definition data_only :: "Chunk list \<Rightarrow> Chunk list \<Rightarrow> bool" where
  "data_only chunks chunks' \<longleftrightarrow> length chunks' = length chunks \<and>
    (\<forall>ci < length chunks. c_name (chunks' ! ci) = c_name (chunks ! ci) \<and>
      c_type (chunks' ! ci) = c_type (chunks ! ci) \<and> c_size (chunks' ! ci) = c_size (chunks ! ci) \<and>
      c_offset (chunks' ! ci) = c_offset (chunks ! ci) \<and>
      length (c_data (chunks' ! ci)) = length (c_data (chunks ! ci)))"

lemma data_only_refl: "data_only chunks chunks"
  by (simp add: data_only_def)

lemma data_only_trans: "data_only a b \<Longrightarrow> data_only b c \<Longrightarrow> data_only a c"
  by (simp add: data_only_def)

lemma apply_relocation_length:
  assumes "apply_relocation fn symname rel_type S A P off bytes = Inr bytes'"
  shows "length bytes' = length bytes"
  using assms store_at_Inr(1)
  by (auto simp: apply_relocation_def Let_def bind_res_Inr split: if_splits)

lemma relocate_entry_data_only:
  assumes "relocate_entry obj syms chunk_addr ci rels ri chunks = Inr chunks'"
  shows "data_only chunks chunks'"
proof -
  obtain fn nm t S A P off bytes where
    a: "apply_relocation fn nm t S A P off (c_data (chunks ! ci)) = Inr bytes"
    and c: "chunks' = chunks[ci := (chunks ! ci)\<lparr>c_data := bytes\<rparr>]"
    using assms by (auto simp: relocate_entry_def Let_def elim!: bind_resE split: if_split_asm)
  show ?thesis
    using apply_relocation_length [OF a] by (simp add: data_only_def nth_assign c)
qed

lemma fold_res_data_only:
  assumes "\<And>x chunks chunks'. f x chunks = Inr chunks' \<Longrightarrow> data_only chunks chunks'"
    and "fold_res f xs chunks = Inr chunks'"
  shows "data_only chunks chunks'"
  using assms(2) by (rule fold_res_invariant) (auto intro: data_only_refl data_only_trans dest: assms(1))

lemma relocate_section_data_only:
  assumes "relocate_section osecs osec_map sec2chunk all_syms oi obj si chunks = Inr chunks'"
  shows "data_only chunks chunks'"
  using assms fold_res_data_only [OF relocate_entry_data_only]
  by (auto simp: relocate_section_def Let_def data_only_refl elim!: bind_resE split: option.split_asm if_split_asm)

lemma apply_relocations_data_only:
  assumes "apply_relocations objects osecs osec_map sec2chunk all_syms chunks = Inr chunks'"
  shows "data_only chunks chunks'"
  using assms unfolding apply_relocations_def
  by (rule fold_res_data_only [rotated])
    (auto intro: fold_res_data_only [OF relocate_section_data_only])

section \<open>Relocations are read back\<close>

text \<open>
  C21. A relocation that is applied without error is read back by the processor as intended and changes
  nothing else: the 64-bit field holds \<open>S + A\<close>; the sign-extended 32-bit field of a relative
  relocation, added to the place \<open>P\<close>, gives \<open>S + A\<close>; the zero-extended, respectively sign-extended,
  32-bit field of an absolute relocation is \<open>S + A\<close>. No value is truncated silently.
\<close>

theorem relocation_reads_back:
  assumes "apply_relocation fn symname rel_type S A P off bytes = Inr bytes'"
  shows "length bytes' = length bytes \<and>
    (\<forall>i < length bytes. i < unat off \<or> unat off + (if rel_type = int R_X86_64_64 then 8 else 4) \<le> i \<longrightarrow>
      bytes' ! i = bytes ! i) \<and>
    (rel_type = int R_X86_64_NONE \<longrightarrow> bytes' = bytes) \<and>
    (rel_type = int R_X86_64_64 \<longrightarrow> of_nat (field (unat off) 8 bytes') = S + A) \<and>
    (rel_type = int R_X86_64_PC32 \<or> rel_type = int R_X86_64_PLT32 \<longrightarrow>
      scast (of_nat (field (unat off) 4 bytes') :: i32) + P = S + A) \<and>
    (rel_type = int R_X86_64_32 \<longrightarrow> ucast (of_nat (field (unat off) 4 bytes') :: u32) = S + A) \<and>
    (rel_type = int R_X86_64_32S \<longrightarrow> scast (of_nat (field (unat off) 4 bytes') :: i32) = S + A)"
proof -
  have u32: "unat (w :: u32) < 256 ^ 4" and u64: "unat (x :: u64) < 256 ^ 8" for w x
    by (rule order_less_le_trans [OF unsigned_less], simp)+
  consider "rel_type = 0" | "rel_type = 1" | "rel_type = 2 \<or> rel_type = 4" | "rel_type = 10" | "rel_type = 11"
    using assms by (auto simp: apply_relocation_def split: if_splits)
  then show ?thesis
  proof cases
    case 1
    then show ?thesis using assms by (simp add: apply_relocation_def)
  next
    case 2
    then have st: "store_at bytes off (b64 (S + A)) = Inr bytes'"
      using assms by (simp add: apply_relocation_def split: if_splits)
    then show ?thesis
      using 2 store_at_Inr [OF st] store_at_field [OF st u64] by simp
  next
    case 3
    then obtain val where v: "sub_i64 (S + A) P = Inr val" "INT32_MIN \<le> val" "val \<le> INT32_MAX"
      and st: "store_at bytes off (b32 (word_of_int val)) = Inr bytes'"
      using assms by (auto simp: apply_relocation_def bind_res_Inr split: if_splits)
    have "val = sint (S + A) - sint P" using v(1) by (simp add: sub_i64_def Let_def split: if_splits)
    then have "(word_of_int val :: u64) + P = S + A" by simp
    then show ?thesis
      using 3 store_at_Inr [OF st] store_at_field [OF st u32] scast_word_of_int [OF v(2,3)] by auto
  next
    case 4
    then have st: "store_at bytes off (b32 (ucast (S + A))) = Inr bytes'" and le: "S + A \<le> UINT32_MAX"
      using assms by (auto simp: apply_relocation_def Let_def split: if_splits)
    have "unat (S + A) < 2 ^ 32" using le by (simp add: word_le_nat_alt UINT32_MAX_def)
    then have "ucast (ucast (S + A) :: u32) = S + A"
      by (simp add: word_unat_eq_iff unsigned_ucast_eq unsigned_take_bit_eq take_bit_nat_eq_self)
    then show ?thesis
      using 4 store_at_Inr [OF st] store_at_field [OF st u32] by simp
  next
    case 5
    let ?v = "sint (S + A)"
    have st: "store_at bytes off (b32 (word_of_int ?v)) = Inr bytes'" and le: "INT32_MIN \<le> ?v" "?v \<le> INT32_MAX"
      using 5 assms by (auto simp: apply_relocation_def Let_def split: if_splits)
    then show ?thesis
      using 5 store_at_Inr [OF st] store_at_field [OF st u32] scast_word_of_int [OF le] by simp
  qed
qed

theorem relocation_reads_back_witness:
  "\<exists>bytes'. apply_relocation ''a.o'' ''main'' 2 0x401000 (- 4) 0x4000B1 1 [0xE8, 0, 0, 0, 0, 0xC3] = Inr bytes' \<and>
    length bytes' = 6 \<and> scast (of_nat (field 1 4 bytes') :: i32) + (0x4000B1 :: u64) = 0x401000 + - 4"
proof -
  let ?a = "apply_relocation ''a.o'' ''main'' 2 0x401000 (- 4) 0x4000B1 1 [0xE8, 0, 0, 0, 0, 0xC3]"
  have e: "?a = Inr [0xE8, 0x4B, 0x0F, 0, 0, 0xC3]" by code_simp
  show ?thesis using relocation_reads_back [OF e] e by simp
qed

text \<open>
  C22. The bounds check is right exactly up to wrap-around: for a chunk of at most \<open>2 ^ 63\<close> bytes, a
  64-bit relocation writes outside the chunk if and only if its offset is one of the last eight
  64-bit values and \<^verbatim>\<open>off + 8\<close>, which wraps around to \<open>off + 8 - 2 ^ 64\<close>, is at most the length of the
  chunk, so that the check is passed; with every other offset it either lies inside or is rejected.
\<close>

theorem relocation_bounds_check:
  assumes "length bytes \<le> 2 ^ 63"
  shows "apply_relocation fn symname (int R_X86_64_64) S A P off bytes = Inl Undefined_access \<longleftrightarrow>
    2 ^ 64 - 8 \<le> unat off \<and> unat off + 8 - 2 ^ 64 \<le> length bytes"
proof -
  have l: "unat (of_nat (length bytes) :: u64) = length bytes"
    using assms by (intro unat_of_nat_less) simp
  have ol: "unat off < 2 ^ 64" using unsigned_less [of off] by simp
  show ?thesis
  proof (cases "unat off + 8 < 2 ^ 64")
    case True
    then have "unat (off + 8) = unat off + 8" by (subst unat_add_less) simp_all
    then show ?thesis
      using True l by (simp add: apply_relocation_def out_of_bounds_def store_at_def word_less_nat_alt)
  next
    case False
    then have "unat (off + 8) = unat off + 8 - 2 ^ 64"
      using ol by (simp add: unat_word_ariths mod_if)
    then show ?thesis
      using False ol assms l by (simp add: apply_relocation_def out_of_bounds_def store_at_def word_less_nat_alt)
  qed
qed

theorem relocation_bounds_check_witness:
  "apply_relocation ''a.o'' ''x'' (int R_X86_64_64) 0 0 0 (- 4) (replicate 16 0) = Inl Undefined_access"
  by (subst relocation_bounds_check) simp_all

end
