(* ===== verification/Elf_Linker.thy ===== *)
theory Elf_Linker
  imports Elf_Relocate
begin

text \<open>
  Step 7 of \<^verbatim>\<open>src/llm4fun/linker/mini_elf_linker.cpp\<close>, the output file, and the program as a whole. The
  linker's result is the contents of the output file together with what the linker map prints; the
  file system is a parameter and printing is not modelled.

  The theorem at the end puts the steps together: the memory that the headers of the output file
  describe holds every chunk's relocated bytes at the chunk's address.
\<close>

section \<open>Headers\<close>

definition output_ehdr :: "u64 \<Rightarrow> Elf64_Ehdr" where
  "output_ehdr entry =
    \<lparr>e_ident = ELFMAG @ [2, 1, 1, 0, 0, 0, 0, 0, 0, 0, 0, 0], e_type = ET_EXEC, e_machine = EM_X86_64,
     e_version = 1, e_entry = entry, e_phoff = of_nat sizeof_Ehdr, e_shoff = 0, e_flags = 0,
     e_ehsize = of_nat sizeof_Ehdr, e_phentsize = of_nat sizeof_Phdr, e_phnum = ucast num_phdrs,
     e_shentsize = of_nat sizeof_Shdr, e_shnum = 0, e_shstrndx = SHN_UNDEF\<rparr>"

definition load_phdr :: "u64 \<Rightarrow> u64 \<Rightarrow> Elf64_Phdr" where
  "load_phdr filesz memsz =
    \<lparr>p_type = PT_LOAD, p_flags = 7, p_offset = 0, p_vaddr = BASE_ADDR, p_paddr = BASE_ADDR,
     p_filesz = filesz, p_memsz = memsz, p_align = PAGE_SIZE\<rparr>"

definition stack_phdr :: Elf64_Phdr where
  "stack_phdr =
    \<lparr>p_type = PT_GNU_STACK, p_flags = 6, p_offset = 0, p_vaddr = 0, p_paddr = 0, p_filesz = 0,
     p_memsz = 0, p_align = 0\<rparr>"

section \<open>The output file\<close>

text \<open>\<^verbatim>\<open>memcpy(out.data() + pos, bs, bs.size())\<close>\<close>

definition copy_to :: "nat \<times> u8 list \<Rightarrow> u8 list \<Rightarrow> link_error + u8 list" where
  "copy_to seg out =
  (let (pos, bs) = seg
   in if pos + length bs \<le> length out then Inr (take pos out @ bs @ drop (pos + length bs) out)
      else Inl Undefined_access)"

definition write_chunk :: "OutputSection \<Rightarrow> Chunk list \<Rightarrow> nat \<Rightarrow> u8 list \<Rightarrow> link_error + u8 list" where
  "write_chunk os chunks ci out =
  (if c_type (chunks ! ci) = SHT_NOBITS then Inr out
   else copy_to (unat (os_foff os) + unat (c_offset (chunks ! ci)), c_data (chunks ! ci)) out)"

definition write_section :: "Chunk list \<Rightarrow> OutputSection \<Rightarrow> u8 list \<Rightarrow> link_error + u8 list" where
  "write_section chunks os out =
  (if os_is_bss os then Inr out else fold_res (write_chunk os chunks) (os_chunk_ids os) out)"

definition write_output :: "u64 \<Rightarrow> u64 \<Rightarrow> u64 \<Rightarrow> OutputSection list \<Rightarrow> Chunk list \<Rightarrow> link_error + u8 list" where
  "write_output entry filesz memsz osecs chunks =
    bind_res (copy_to (0, encode_ehdr (output_ehdr entry)) (replicate (unat filesz) 0)) (\<lambda>out.
    bind_res (copy_to (sizeof_Ehdr, encode_phdr (load_phdr filesz memsz)) out) (\<lambda>out.
    bind_res (copy_to (sizeof_Ehdr + sizeof_Phdr, encode_phdr stack_phdr) out) (\<lambda>out.
    fold_res (write_section chunks) osecs out)))"

section \<open>The linker\<close>

record linked =
  lk_image :: "u8 list"
  lk_entry :: u64
  lk_osecs :: "OutputSection list"
  lk_chunks :: "Chunk list"
  lk_globals :: globals
  lk_memsz :: u64

definition link_objects :: "InputObject list \<Rightarrow> link_error + linked" where
  "link_objects objects =
    bind_res (collect_chunks objects) (\<lambda>(chunks, sec2chunk).
    let L = make_layout chunks; osecs = l_osecs L; osec_map = index_map osecs; chunks = l_chunks L
    in bind_res (load_symbols objects osecs osec_map chunks sec2chunk) (\<lambda>(all_syms, globals).
       let all_syms = resolve_undefined globals all_syms
       in bind_res (check_unresolved globals) (\<lambda>globals.
          let entry = entry_point globals
          in bind_res (apply_relocations objects osecs osec_map sec2chunk all_syms chunks) (\<lambda>chunks.
             bind_res (write_output entry (l_filesz L) (l_memsz L) osecs chunks) (\<lambda>out.
             Inr \<lparr>lk_image = out, lk_entry = entry, lk_osecs = osecs, lk_chunks = chunks,
                  lk_globals = globals, lk_memsz = l_memsz L\<rparr>)))))"

text \<open>The program: the output path with the linked result, or the error it exits with.\<close>

definition linker_main :: "(string \<Rightarrow> u8 list option) \<Rightarrow> string list \<Rightarrow> link_error + string \<times> linked" where
  "linker_main fs argv =
  (if length argv < 3 then Inl Usage
   else bind_res (read_objects fs (drop 2 argv)) (\<lambda>objects.
        bind_res (link_objects objects) (\<lambda>lk. Inr (argv ! 1, lk))))"

section \<open>Writing disjoint segments\<close>

text \<open>The segments the sections write, in order.\<close>

definition os_segments :: "Chunk list \<Rightarrow> OutputSection \<Rightarrow> (nat \<times> u8 list) list" where
  "os_segments chunks os =
  (if os_is_bss os then []
   else map (\<lambda>ci. (unat (os_foff os) + unat (c_offset (chunks ! ci)), c_data (chunks ! ci)))
     (filter (\<lambda>ci. c_type (chunks ! ci) \<noteq> SHT_NOBITS) (os_chunk_ids os)))"

abbreviation seg_end :: "nat \<times> u8 list \<Rightarrow> nat" where
  "seg_end s \<equiv> fst s + length (snd s)"

lemma write_section_segments:
  "write_section chunks os out = fold_res copy_to (os_segments chunks os) out"
proof -
  have "fold_res (write_chunk os chunks) ids out =
    fold_res copy_to (map (\<lambda>ci. (unat (os_foff os) + unat (c_offset (chunks ! ci)), c_data (chunks ! ci)))
      (filter (\<lambda>ci. c_type (chunks ! ci) \<noteq> SHT_NOBITS) ids)) out" for ids
  proof (induction ids arbitrary: out)
    case (Cons ci ids)
    have "bind_res (write_chunk os chunks ci out) (fold_res (write_chunk os chunks) ids) =
        bind_res (write_chunk os chunks ci out) (fold_res copy_to (map (\<lambda>ci. (unat (os_foff os) +
          unat (c_offset (chunks ! ci)), c_data (chunks ! ci))) (filter (\<lambda>ci. c_type (chunks ! ci) \<noteq> SHT_NOBITS) ids)))"
      by (cases "write_chunk os chunks ci out") (simp_all add: Cons.IH)
    moreover have "write_chunk os chunks ci out = (if c_type (chunks ! ci) = SHT_NOBITS then Inr out
        else copy_to (unat (os_foff os) + unat (c_offset (chunks ! ci)), c_data (chunks ! ci)) out)"
      by (simp add: write_chunk_def)
    ultimately show ?case by simp
  qed simp
  then show ?thesis by (simp add: write_section_def os_segments_def)
qed

lemma write_sections_segments:
  "fold_res (write_section chunks) osecs out = fold_res copy_to (concat (map (os_segments chunks) osecs)) out"
proof (induction osecs arbitrary: out)
  case (Cons os osecs)
  then show ?case
    by (cases "fold_res copy_to (os_segments chunks os) out") (simp_all add: write_section_segments fold_res_append)
qed simp

lemma copy_to_Inr:
  assumes "seg_end s \<le> length out"
  obtains out' where "copy_to s out = Inr out'" "length out' = length out"
    "take (length (snd s)) (drop (fst s) out') = snd s"
    "\<And>i. i < fst s \<or> seg_end s \<le> i \<Longrightarrow> i < length out \<Longrightarrow> out' ! i = out ! i"
proof -
  let ?o = "take (fst s) out @ snd s @ drop (seg_end s) out"
  have c: "copy_to s out = Inr ?o" using assms by (cases s) (simp add: copy_to_def)
  have n: "?o ! i = out ! i" if "i < fst s \<or> seg_end s \<le> i" "i < length out" for i
    using that assms by (auto simp: nth_append)
  show thesis by (rule that [OF c _ _ n]) (use assms in simp_all)
qed

text \<open>Segments that follow one another are all written and none is overwritten.\<close>

lemma copy_segments:
  assumes "sorted_wrt (\<lambda>a b. seg_end a \<le> fst b) segs" and "\<And>s. s \<in> set segs \<Longrightarrow> lo \<le> fst s \<and> seg_end s \<le> length out"
  shows "\<exists>out'. fold_res copy_to segs out = Inr out' \<and> length out' = length out \<and>
    (\<forall>i < lo. i < length out \<longrightarrow> out' ! i = out ! i) \<and>
    (\<forall>s \<in> set segs. take (length (snd s)) (drop (fst s) out') = snd s)"
  using assms
proof (induction segs arbitrary: out lo)
  case (Cons s segs)
  have s: "lo \<le> fst s" "seg_end s \<le> length out" using Cons.prems(2) by auto
  obtain out1 where o: "copy_to s out = Inr out1" "length out1 = length out"
    "take (length (snd s)) (drop (fst s) out1) = snd s"
    "\<And>i. i < fst s \<or> seg_end s \<le> i \<Longrightarrow> i < length out \<Longrightarrow> out1 ! i = out ! i"
    using copy_to_Inr [OF s(2)] by blast
  have "\<exists>out'. fold_res copy_to segs out1 = Inr out' \<and> length out' = length out1 \<and>
    (\<forall>i < seg_end s. i < length out1 \<longrightarrow> out' ! i = out1 ! i) \<and>
    (\<forall>s \<in> set segs. take (length (snd s)) (drop (fst s) out') = snd s)"
    using Cons.prems o(2) by (intro Cons.IH) auto
  then obtain out' where o': "fold_res copy_to segs out1 = Inr out'" "length out' = length out1"
    "\<forall>i < seg_end s. i < length out1 \<longrightarrow> out' ! i = out1 ! i"
    "\<forall>s \<in> set segs. take (length (snd s)) (drop (fst s) out') = snd s" by blast
  have "take (length (snd s)) (drop (fst s) out') = take (length (snd s)) (drop (fst s) out1)"
    using o'(2,3) o(2) s(2) by (intro nth_equalityI) auto
  moreover have "out' ! i = out ! i" if "i < lo" "i < length out" for i
    using that o'(3) o(2,4) s(1) by simp
  ultimately show ?case using o o' by auto
qed simp

section \<open>Chunks and their sections\<close>

text \<open>A chunk is a section of an input: its header and its bytes.\<close>

definition chunk_from :: "InputObject list \<Rightarrow> Chunk \<Rightarrow> bool" where
  "chunk_from objects c \<longleftrightarrow> c_obj_idx c < length objects \<and>
    (\<exists>sh. shdr (objects ! c_obj_idx c) (c_shdr_idx c) = Inr (Some sh) \<and>
      sh_flags sh AND SHF_ALLOC \<noteq> 0 \<and> is_alloc_section_type (sh_type sh) \<and>
      c_size c = sh_size sh \<and> c_type c = sh_type sh \<and> c_flags c = sh_flags sh \<and> c_offset c = 0 \<and>
      sec_name (objects ! c_obj_idx c) (c_shdr_idx c) = Inr (c_name c) \<and>
      section_bytes (objects ! c_obj_idx c) (c_shdr_idx c) sh = Inr (c_data c))"

definition collect_inv :: "InputObject list \<Rightarrow> Chunk list \<times> sec_map \<Rightarrow> bool" where
  "collect_inv objects st \<longleftrightarrow> list_all (chunk_from objects) (fst st) \<and>
    (\<forall>oi si ci. snd st (oi, si) = Some ci \<longrightarrow> ci < length (fst st) \<and>
      c_obj_idx (fst st ! ci) = oi \<and> c_shdr_idx (fst st ! ci) = si)"

lemma section_bytes_length: "section_bytes obj si sh = Inr bs \<Longrightarrow> length bs = unat (sh_size sh)"
  by (auto simp: section_bytes_def read_at_def elim!: bind_resE split: if_split_asm option.split_asm)

lemma collect_section_inv:
  assumes "oi < length objects" and "collect_inv objects st"
    and "collect_section oi (objects ! oi) si st = Inr st'"
  shows "collect_inv objects st'"
proof -
  obtain chunks m where st: "st = (chunks, m)" by (cases st)
  have "st' = st \<or> (\<exists>c. st' = (chunks @ [c], m((oi, si) \<mapsto> length chunks)) \<and> chunk_from objects c \<and>
      c_obj_idx c = oi \<and> c_shdr_idx c = si)"
    using assms(1,3)
    by (auto simp: collect_section_def st Let_def chunk_from_def elim!: bind_resE split: option.split_asm if_split_asm)
  then show ?thesis
    using assms(2) by (auto simp: collect_inv_def st nth_append less_Suc_eq split: if_splits)
qed

lemma collect_chunks_inv:
  assumes "collect_chunks objects = Inr st"
  shows "collect_inv objects st"
  using assms unfolding collect_chunks_def
proof (rule fold_res_invariant)
  show "collect_inv objects ([], Map.empty)" by (simp add: collect_inv_def)
next
  fix x :: "nat \<times> InputObject" and s s'
  assume x: "x \<in> set (enumerate 0 objects)" and s: "collect_inv objects s"
    "(case x of (oi, obj) \<Rightarrow> fold_res (collect_section oi obj) (section_indices obj)) s = Inr s'"
  obtain oi obj where oi: "x = (oi, obj)" "oi < length objects" "obj = objects ! oi"
    using x unfolding enumerate_upt set_map set_upt by auto
  then have "fold_res (collect_section oi (objects ! oi)) (section_indices (objects ! oi)) s = Inr s'"
    using s(2) by simp
  then show "collect_inv objects s'"
    by (rule fold_res_invariant) (use s(1) oi collect_section_inv in auto)
qed

lemma collect_chunks_size:
  "collect_chunks objects = Inr (chunks, m) \<Longrightarrow> ci < length chunks \<Longrightarrow>
    length (c_data (chunks ! ci)) = unat (c_size (chunks ! ci))"
  using collect_chunks_inv [of objects "(chunks, m)"] section_bytes_length
  by (auto simp: collect_inv_def list_all_length chunk_from_def)

section \<open>The image of a linked program\<close>

lemma link_objects_Inr:
  assumes "link_objects objects = Inr lk" and "collect_chunks objects = Inr (chunks, m)" and "L = make_layout chunks"
  shows "data_only (l_chunks L) (lk_chunks lk)" and "lk_osecs lk = l_osecs L" and "lk_memsz lk = l_memsz L"
    and "write_output (lk_entry lk) (l_filesz L) (l_memsz L) (l_osecs L) (lk_chunks lk) = Inr (lk_image lk)"
    and "lk_entry lk = entry_point (lk_globals lk)"
  using assms
  by (auto simp: link_objects_def Let_def elim!: bind_resE intro: apply_relocations_data_only split: prod.split_asm)

text \<open>
  What an executable file means, after the ELF specification and independent of how the linker lays a file out: its
  program headers are \<^verbatim>\<open>e_phnum\<close> entries of \<^verbatim>\<open>e_phentsize\<close> bytes from \<^verbatim>\<open>e_phoff\<close> on, and a loadable entry maps \<^verbatim>\<open>p_filesz\<close>
  bytes from \<^verbatim>\<open>p_offset\<close> to \<^verbatim>\<open>p_vaddr\<close> and fills the segment with zeros up to \<^verbatim>\<open>p_memsz\<close>. \<open>elf_memory file a\<close> is the byte
  at address \<open>a\<close> of the started program, \<open>None\<close> if nothing is mapped there or the file is not accepted.
\<close>

definition elf_phdrs :: "u8 list \<Rightarrow> Elf64_Phdr list" where
  "elf_phdrs file =
  (let h = decode_ehdr file
   in map (\<lambda>i. decode_phdr (drop (unat (e_phoff h) + i * unat (e_phentsize h)) file)) [0..<unat (e_phnum h)])"

definition elf_executable :: "u8 list \<Rightarrow> bool" where
  "elf_executable file \<longleftrightarrow>
  (let h = decode_ehdr file
   in 64 \<le> length file \<and> take 7 (e_ident h) = [0x7F, 0x45, 0x4C, 0x46, 2, 1, 1] \<and> e_type h = 2 \<and> e_machine h = 62 \<and>
      e_version h = 1 \<and> e_phentsize h = 56 \<and> unat (e_phoff h) + unat (e_phnum h) * 56 \<le> length file)"

definition elf_loadable :: "u8 list \<Rightarrow> Elf64_Phdr \<Rightarrow> bool" where
  "elf_loadable file p \<longleftrightarrow>
    p_type p = 1 \<and> unat (p_filesz p) \<le> unat (p_memsz p) \<and> unat (p_offset p) + unat (p_filesz p) \<le> length file \<and>
    unat (p_vaddr p) mod unat (p_align p) = unat (p_offset p) mod unat (p_align p)"

definition elf_memory :: "u8 list \<Rightarrow> nat \<Rightarrow> u8 option" where
  "elf_memory file a =
  (if elf_executable file then
     case find (\<lambda>p. elf_loadable file p \<and> unat (p_vaddr p) \<le> a \<and> a < unat (p_vaddr p) + unat (p_memsz p)) (elf_phdrs file) of
       None \<Rightarrow> None
     | Some p \<Rightarrow>
         let k = a - unat (p_vaddr p)
         in Some (if k < unat (p_filesz p) then file ! (unat (p_offset p) + k) else 0)
   else None)"

definition header_segments :: "u64 \<Rightarrow> u64 \<Rightarrow> u64 \<Rightarrow> (nat \<times> u8 list) list" where
  "header_segments entry filesz memsz =
    [(0, encode_ehdr (output_ehdr entry)), (sizeof_Ehdr, encode_phdr (load_phdr filesz memsz)),
     (sizeof_Ehdr + sizeof_Phdr, encode_phdr stack_phdr)]"

lemma write_output_segments:
  "write_output entry filesz memsz osecs chunks =
    fold_res copy_to (header_segments entry filesz memsz @ concat (map (os_segments chunks) osecs))
      (replicate (unat filesz) 0)"
proof -
  have c: "fold_res copy_to (x # xs) = (\<lambda>out. bind_res (copy_to x out) (fold_res copy_to xs))" for x xs
    by (rule ext) simp
  have "fold_res (write_section chunks) osecs = fold_res copy_to (concat (map (os_segments chunks) osecs))"
    by (rule ext) (rule write_sections_segments)
  then show ?thesis by (simp add: write_output_def header_segments_def c)
qed

lemma sorted_wrt_concat:
  assumes "\<And>x. x \<in> set xs \<Longrightarrow> sorted_wrt R (f x)" and "sorted_wrt (\<lambda>x y. \<forall>a \<in> set (f x). \<forall>b \<in> set (f y). R a b) xs"
  shows "sorted_wrt R (concat (map f xs))"
  using assms by (induction xs) (auto simp: sorted_wrt_append)

lemma output_segments:
  assumes ok: "layout_ok chunks L" and dat: "data_only (l_chunks L) chunks'"
    and len: "\<forall>ci < length chunks. length (c_data (chunks ! ci)) = unat (c_size (chunks ! ci))"
  shows "sorted_wrt (\<lambda>a b. seg_end a \<le> fst b) (concat (map (os_segments chunks') (l_osecs L)))"
    and "s \<in> set (concat (map (os_segments chunks') (l_osecs L))) \<Longrightarrow> 176 \<le> fst s \<and> seg_end s \<le> unat (l_filesz L)"
proof -
  let ?osecs = "l_osecs L"
  have inv: "sections_inv chunks ?osecs" and oo: "offsets_only [0..<length chunks] chunks (l_chunks L)"
    and l2: "length (l_chunks L) = length chunks"
    using ok by (auto simp: layout_ok_def offsets_only_def)
  have ch: "length (c_data (chunks' ! ci)) = unat (c_size (l_chunks L ! ci)) \<and> c_offset (chunks' ! ci) = c_offset (l_chunks L ! ci)"
    if "os \<in> set ?osecs" "ci \<in> set (os_chunk_ids os)" for os ci
  proof -
    have "ci < length chunks" using that sections_inv_ids(1) [OF inv that(1)] by simp
    then show ?thesis using dat l2 len offsets_only_fields(1,5) [OF oo] by (simp add: data_only_def)
  qed
  have seg: "unat (os_foff os) \<le> fst s \<and> seg_end s \<le> unat (os_foff os) + unat (os_filesz os) \<and>
      176 \<le> unat (os_foff os) \<and> unat (os_foff os) + unat (os_filesz os) \<le> unat (l_filesz L) \<and> \<not> os_is_bss os"
    if os: "os \<in> set ?osecs" and s: "s \<in> set (os_segments chunks' os)" for os s
  proof -
    obtain i where i: "i < length ?osecs" "os = ?osecs ! i" using os by (metis in_set_conv_nth)
    obtain ci where ci: "ci \<in> set (os_chunk_ids os)" "\<not> os_is_bss os"
      "s = (unat (os_foff os) + unat (c_offset (chunks' ! ci)), c_data (chunks' ! ci))"
      using s by (auto simp: os_segments_def split: if_splits)
    have "chunk_end (l_chunks L ! ci) \<le> unat (os_size os)"
      using laid_outD(2) [OF layout_okD(2) [OF ok i(1)]] ci(1) i(2) by simp
    then show ?thesis
      using layout_okD(1,6,7) [OF ok i(1)] i(2) ci ch [OF os ci(1)] by simp
  qed
  show "176 \<le> fst s \<and> seg_end s \<le> unat (l_filesz L)" if "s \<in> set (concat (map (os_segments chunks') ?osecs))"
  proof -
    obtain os where "os \<in> set ?osecs" "s \<in> set (os_segments chunks' os)" using \<open>s \<in> _\<close> by auto
    then show ?thesis using seg [of os s] by linarith
  qed
  show "sorted_wrt (\<lambda>a b. seg_end a \<le> fst b) (concat (map (os_segments chunks') ?osecs))"
  proof (rule sorted_wrt_concat)
    fix os assume os: "os \<in> set ?osecs"
    then obtain i where i: "i < length ?osecs" "os = ?osecs ! i" by (metis in_set_conv_nth)
    have "sorted_wrt (\<lambda>ci cj. chunk_end (l_chunks L ! ci) \<le> unat (c_offset (l_chunks L ! cj))) (os_chunk_ids os)"
      using layout_okD(2) [OF ok i(1)] i(2) by (simp add: laid_out_def)
    then have "sorted_wrt (\<lambda>ci cj. unat (c_offset (chunks' ! ci)) + length (c_data (chunks' ! ci)) \<le>
        unat (c_offset (chunks' ! cj))) (os_chunk_ids os)"
      by (rule sorted_wrt_mono_rel [rotated]) (simp add: ch [OF os])
    then show "sorted_wrt (\<lambda>a b. seg_end a \<le> fst b) (os_segments chunks' os)"
      by (simp add: os_segments_def sorted_wrt_map sorted_wrt_filter)
  next
    have "sorted_wrt (\<lambda>a b. \<not> os_is_bss a \<longrightarrow> \<not> os_is_bss b \<longrightarrow>
        unat (os_foff a) + unat (os_filesz a) \<le> unat (os_foff b)) ?osecs"
      using ok by (simp add: layout_ok_def placed_def)
    then show "sorted_wrt (\<lambda>x y. \<forall>a \<in> set (os_segments chunks' x). \<forall>b \<in> set (os_segments chunks' y). seg_end a \<le> fst b) ?osecs"
    proof (rule sorted_wrt_mono_rel [rotated], intro ballI)
      fix x y a b
      assume "x \<in> set ?osecs" "y \<in> set ?osecs" "a \<in> set (os_segments chunks' x)" "b \<in> set (os_segments chunks' y)"
        and le: "\<not> os_is_bss x \<longrightarrow> \<not> os_is_bss y \<longrightarrow> unat (os_foff x) + unat (os_filesz x) \<le> unat (os_foff y)"
      then have "seg_end a \<le> unat (os_foff x) + unat (os_filesz x)" "unat (os_foff y) \<le> fst b"
        "\<not> os_is_bss x" "\<not> os_is_bss y" using seg by blast+
      then show "seg_end a \<le> fst b" using le by linarith
    qed
  qed
qed

text \<open>Writing stays inside the file, and what the output file holds.\<close>

lemma write_output_Inr:
  assumes ok: "layout_ok chunks L" and dat: "data_only (l_chunks L) chunks'"
    and len: "\<forall>ci < length chunks. length (c_data (chunks ! ci)) = unat (c_size (chunks ! ci))"
  shows "\<exists>img. write_output entry (l_filesz L) memsz (l_osecs L) chunks' = Inr img \<and>
    length img = unat (l_filesz L) \<and>
    (\<forall>s \<in> set (header_segments entry (l_filesz L) memsz @ concat (map (os_segments chunks') (l_osecs L))).
      take (length (snd s)) (drop (fst s) img) = snd s)"
proof -
  let ?segs = "concat (map (os_segments chunks') (l_osecs L))"
  let ?hs = "header_segments entry (l_filesz L) memsz"
  note os = output_segments [OF ok dat len]
  have f: "176 \<le> unat (l_filesz L)" using ok by (simp add: layout_ok_def)
  have hs: "sorted_wrt (\<lambda>a b. seg_end a \<le> fst b) ?hs" "\<forall>s \<in> set ?hs. seg_end s \<le> 176"
    by (simp_all add: header_segments_def output_ehdr_def)
  have "sorted_wrt (\<lambda>a b. seg_end a \<le> fst b) (?hs @ ?segs)"
    unfolding sorted_wrt_append using os hs by (meson order_trans)
  moreover have "0 \<le> fst s \<and> seg_end s \<le> length (replicate (unat (l_filesz L)) (0 :: u8))" if "s \<in> set (?hs @ ?segs)" for s
    using that os(2) hs(2) f by (auto simp del: set_concat dest: order_trans)
  ultimately show ?thesis
    unfolding write_output_segments using copy_segments [of "?hs @ ?segs" 0 "replicate (unat (l_filesz L)) 0"]
    by (simp only: length_replicate) blast
qed

lemma output_image:
  assumes "layout_ok chunks L" and "data_only (l_chunks L) chunks'"
    and "\<forall>ci < length chunks. length (c_data (chunks ! ci)) = unat (c_size (chunks ! ci))"
    and "write_output entry (l_filesz L) memsz (l_osecs L) chunks' = Inr img"
  shows "length img = unat (l_filesz L)"
    and "s \<in> set (header_segments entry (l_filesz L) memsz) \<Longrightarrow> take (length (snd s)) (drop (fst s) img) = snd s"
    and "s \<in> set (concat (map (os_segments chunks') (l_osecs L))) \<Longrightarrow>
      take (length (snd s)) (drop (fst s) img) = snd s"
  using write_output_Inr [OF assms(1-3), of entry memsz] assms(4) by auto

lemma take_drop_eq: "take n (drop i xs) = ys \<Longrightarrow> n = length ys \<Longrightarrow> drop i xs = ys @ drop (i + n) xs"
  by (metis append_take_drop_id drop_drop add.commute)

text \<open>The headers of a linked file, decoded.\<close>

lemma linked_headers:
  assumes "collect_chunks objects = Inr (chunks, m)" and "link_objects objects = Inr lk"
    and "chunks_ok chunks" and "chunks_fit chunks"
  shows "decode_ehdr (lk_image lk) = output_ehdr (entry_point (lk_globals lk))"
    and "decode_phdr (drop 64 (lk_image lk)) = load_phdr (of_nat (length (lk_image lk))) (lk_memsz lk)"
    and "decode_phdr (drop 120 (lk_image lk)) = stack_phdr"
    and "length (lk_image lk) = unat (l_filesz (make_layout chunks))" "176 \<le> length (lk_image lk)"
proof -
  define L where "L = make_layout chunks"
  note lk = link_objects_Inr [OF assms(2,1) L_def]
  have ok: "layout_ok chunks L" using make_layout_ok(1) [OF assms(3,4)] by (simp add: L_def)
  have len: "\<forall>ci < length chunks. length (c_data (chunks ! ci)) = unat (c_size (chunks ! ci))"
    using collect_chunks_size [OF assms(1)] by blast
  note img = output_image [OF ok lk(1) len lk(4)]
  have fs: "of_nat (length (lk_image lk)) = l_filesz L" using img(1) by simp
  have i16: "length (e_ident (output_ehdr (lk_entry lk))) = 16" by (simp add: output_ehdr_def)
  have e: "drop 0 (lk_image lk) = encode_ehdr (output_ehdr (lk_entry lk)) @ drop (0 + 64) (lk_image lk)"
    using img(2) [of "(0, encode_ehdr (output_ehdr (lk_entry lk)))"] i16
    by (intro take_drop_eq) (simp_all add: header_segments_def)
  have p: "drop 64 (lk_image lk) = encode_phdr (load_phdr (l_filesz L) (l_memsz L)) @ drop (64 + 56) (lk_image lk)"
    using img(2) [of "(64, encode_phdr (load_phdr (l_filesz L) (l_memsz L)))"]
    by (intro take_drop_eq) (simp_all add: header_segments_def)
  have q: "drop 120 (lk_image lk) = encode_phdr stack_phdr @ drop (120 + 56) (lk_image lk)"
    using img(2) [of "(120, encode_phdr stack_phdr)"]
    by (intro take_drop_eq) (simp_all add: header_segments_def)
  show "decode_ehdr (lk_image lk) = output_ehdr (entry_point (lk_globals lk))"
    using e decode_encode_ehdr [OF i16] lk(5) by (metis drop_0)
  show "decode_phdr (drop 64 (lk_image lk)) = load_phdr (of_nat (length (lk_image lk))) (lk_memsz lk)"
    unfolding fs lk(3) by (subst p) (rule decode_encode_phdr)
  show "decode_phdr (drop 120 (lk_image lk)) = stack_phdr"
    by (subst q) (rule decode_encode_phdr)
  show "length (lk_image lk) = unat (l_filesz (make_layout chunks))" "176 \<le> length (lk_image lk)"
    using img(1) ok by (simp_all add: layout_ok_def L_def)
qed

lemma linked_memory:
  assumes "collect_chunks objects = Inr (chunks, m)" and "link_objects objects = Inr lk"
    and "chunks_ok chunks" and "chunks_fit chunks" and "aligns_dvd_base chunks"
    and "unat BASE_ADDR \<le> a" "a < unat BASE_ADDR + unat (lk_memsz lk)"
  shows "elf_memory (lk_image lk) a =
    Some (if a - unat BASE_ADDR < length (lk_image lk) then lk_image lk ! (a - unat BASE_ADDR) else 0)"
proof -
  note h = linked_headers [OF assms(1-4)]
  have n: "length (lk_image lk) \<le> unat (lk_memsz lk)"
    using make_layout_sizes [OF assms(3-5) refl] h(4) link_objects_Inr(3) [OF assms(2,1) refl] by simp
  then have "length (lk_image lk) < 2 ^ 64" using order_le_less_trans [OF _ unsigned_less] by fastforce
  then have un: "unat (of_nat (length (lk_image lk)) :: u64) = length (lk_image lk)" by (simp add: unat_of_nat_less)
  have ph: "elf_phdrs (lk_image lk) = [load_phdr (of_nat (length (lk_image lk))) (lk_memsz lk), stack_phdr]"
    by (simp add: elf_phdrs_def h(1) output_ehdr_def num_phdrs_def upt_rec h(2,3))
  have "elf_executable (lk_image lk)" using h(5) by (simp add: elf_executable_def h(1) output_ehdr_def num_phdrs_def)
  moreover have "elf_loadable (lk_image lk) (load_phdr (of_nat (length (lk_image lk))) (lk_memsz lk))"
    using n un by (simp add: elf_loadable_def load_phdr_def BASE_ADDR_def PAGE_SIZE_def)
  ultimately show ?thesis
    using assms(6,7) un by (simp add: elf_memory_def ph load_phdr_def Let_def)
qed

text \<open>
  C23. The linked image is right: when all alignments are powers of two that divide the base address,
  the sizes of the chunks with their alignments sum to less than \<open>2 ^ 63\<close>, and chunks that share a name
  with a zero-initialised one are writable data, then in the memory that the headers of the output
  file describe every byte of every chunk is found at the chunk's address plus its index; chunks of a
  section with zero-initialised parts read as zero, all others as their relocated bytes. No chunk is
  overwritten by another or by the headers.
\<close>

theorem linked_image_correct:
  assumes "collect_chunks objects = Inr (chunks, m)" and "link_objects objects = Inr lk"
    and "chunks_ok chunks" and "chunks_fit chunks" and "bss_writable chunks" and "aligns_dvd_base chunks"
    and "ci < length chunks" and "k < unat (c_size (chunks ! ci))"
  shows "\<exists>a. chunk_vaddr (lk_osecs lk) (index_map (lk_osecs lk)) (lk_chunks lk ! ci) = Some a \<and>
    elf_memory (lk_image lk) (unat a + k) =
      Some (if \<exists>d \<in> set chunks. c_name d = c_name (chunks ! ci) \<and> c_type d = SHT_NOBITS then 0
            else c_data (lk_chunks lk ! ci) ! k)"
proof -
  define L where "L = make_layout chunks"
  note lk = link_objects_Inr [OF assms(2,1) L_def]
  have ok: "layout_ok chunks L" using make_layout_ok(1) [OF assms(3,4)] by (simp add: L_def)
  have inv: "sections_inv chunks (l_osecs L)" and oo: "offsets_only [0..<length chunks] chunks (l_chunks L)"
    using ok by (simp_all add: layout_ok_def)
  have l2: "length (l_chunks L) = length chunks" using oo by (simp add: offsets_only_def)
  obtain i where "chunk_at chunks L ci i" using chunk_place [OF assms(3) ok assms(7)] by blast
  note i = this [unfolded chunk_at_def]
  let ?os = "l_osecs L ! i" and ?c = "l_chunks L ! ci" and ?c' = "lk_chunks lk ! ci"
  have il: "i < length (l_osecs L)" and mem: "ci \<in> set (os_chunk_ids ?os)" using i by blast+
  have dc: "c_name ?c' = c_name ?c" "c_offset ?c' = c_offset ?c" "c_type ?c' = c_type (chunks ! ci)"
    "length (c_data ?c') = unat (c_size (chunks ! ci))"
    using lk(1) l2 assms(7) offsets_only_fields [OF oo assms(7)] collect_chunks_size [OF assms(1,7)]
    by (simp_all add: data_only_def)
  define a where "a = os_vaddr ?os + c_offset ?c"
  have av: "chunk_vaddr (lk_osecs lk) (index_map (lk_osecs lk)) ?c' = Some a"
  proof -
    have "chunk_vaddr (l_osecs L) (index_map (l_osecs L)) ?c' = chunk_vaddr (l_osecs L) (index_map (l_osecs L)) ?c"
      by (simp only: chunk_vaddr_def dc(1,2))
    then show ?thesis using i by (simp add: lk(2) a_def)
  qed
  have ua: "unat a = unat (os_vaddr ?os) + unat (c_offset ?c)" using i by (simp add: a_def)
  have ids: "os_chunk_ids ?os = filter (\<lambda>ci. c_name (chunks ! ci) = os_name ?os) [0..<length chunks]"
    and sf: "section_facts chunks ?os"
    using sections_inv_ids [OF inv] il by simp_all
  then have nm: "os_name ?os = c_name (chunks ! ci)" using mem by simp
  have bss: "os_is_bss ?os \<longleftrightarrow> (\<exists>d \<in> set chunks. c_name d = c_name (chunks ! ci) \<and> c_type d = SHT_NOBITS)"
  proof -
    have "os_is_bss ?os \<longleftrightarrow> list_ex (\<lambda>ci. c_type (chunks ! ci) = SHT_NOBITS) (os_chunk_ids ?os)"
      using sf by (simp only: section_facts_def)
    also have "\<dots> \<longleftrightarrow> (\<exists>cj < length chunks. c_name (chunks ! cj) = c_name (chunks ! ci) \<and> c_type (chunks ! cj) = SHT_NOBITS)"
      unfolding ids nm by (auto simp: list_ex_iff)
    also have "\<dots> \<longleftrightarrow> (\<exists>d \<in> set chunks. c_name d = c_name (chunks ! ci) \<and> c_type d = SHT_NOBITS)"
      by (metis in_set_conv_nth)
    finally show ?thesis .
  qed
  have co: "if os_is_bss ?os then unat BASE_ADDR + unat (l_filesz L) \<le> unat (os_vaddr ?os)
      else unat (os_vaddr ?os) = unat BASE_ADDR + unat (os_foff ?os)"
    using make_layout_correspond [OF assms(3-6) L_def] il by (simp add: list_all_length)
  have len: "\<forall>ci < length chunks. length (c_data (chunks ! ci)) = unat (c_size (chunks ! ci))"
    using collect_chunks_size [OF assms(1)] by blast
  note img = output_image [OF ok lk(1) len lk(4)]
  note mem_at = linked_memory [OF assms(1-4,6), of "unat a + k"]
  show ?thesis
  proof (cases "os_is_bss ?os")
    case True
    have "unat a + k < unat BASE_ADDR + unat (l_memsz L)"
      using layout_okD(5) [OF ok il] i assms(8) ua by linarith
    moreover have "unat BASE_ADDR + length (lk_image lk) \<le> unat a + k" using co True ua img(1) by simp
    ultimately have "\<not> unat a + k < unat BASE_ADDR" "\<not> unat a + k - unat BASE_ADDR < length (lk_image lk)"
      "unat a + k - unat BASE_ADDR < unat (lk_memsz lk)" unfolding lk(3) by linarith+
    then have "elf_memory (lk_image lk) (unat a + k) = Some 0" using mem_at by simp
    then show ?thesis using av bss True by auto
  next
    case False
    have nt: "c_type (chunks ! ci) \<noteq> SHT_NOBITS" using False bss assms(7) by auto
    let ?s = "(unat (os_foff ?os) + unat (c_offset ?c'), c_data ?c')"
    have sm: "?s \<in> set (concat (map (os_segments (lk_chunks lk)) (l_osecs L)))"
      using il mem False nt dc(3) by (auto simp: os_segments_def intro!: bexI [of _ ?os])
    have e: "take (length (c_data ?c')) (drop (unat (os_foff ?os) + unat (c_offset ?c')) (lk_image lk)) = c_data ?c'"
      using img(3) [OF sm] by simp
    have "seg_end ?s \<le> length (lk_image lk)"
      using output_segments(2) [OF ok lk(1) len sm] img(1) by simp
    then have lt: "unat (os_foff ?os) + unat (c_offset ?c') + k < length (lk_image lk)" using assms(8) dc(4) by simp
    have "unat a + k = unat BASE_ADDR + (unat (os_foff ?os) + unat (c_offset ?c') + k)"
      using co False ua dc(2) by simp
    moreover have "unat a + k < unat BASE_ADDR + unat (lk_memsz lk)"
      using lt make_layout_sizes [OF assms(3,4,6) L_def] img(1) calculation unfolding lk(3) by linarith
    ultimately have "elf_memory (lk_image lk) (unat a + k) = Some (lk_image lk ! (unat (os_foff ?os) + unat (c_offset ?c') + k))"
      using lt mem_at by (simp add: add.assoc)
    also have "lk_image lk ! (unat (os_foff ?os) + unat (c_offset ?c') + k) = c_data ?c' ! k"
    proof -
      have "c_data ?c' ! k = take (length (c_data ?c')) (drop (unat (os_foff ?os) + unat (c_offset ?c')) (lk_image lk)) ! k"
        by (simp only: e)
      then show ?thesis using assms(8) dc(4) \<open>seg_end ?s \<le> length (lk_image lk)\<close> by simp
    qed
    finally show ?thesis using av bss False by auto
  qed
qed

text \<open>
  C24. The output file starts with valid headers, byte for byte: the magic number of a 64-bit little-endian ELF file,
  type executable, machine x86-64, version 1, as entry point the value of \<^verbatim>\<open>_start\<close> (zero without it), and two program
  headers of 56 bytes from byte 64 on. The first is a loadable segment with read, write and execute permission that maps the
  whole file from offset 0 to \<^verbatim>\<open>0x400000\<close>, with page alignment, and in memory extends over every output section; the second is
  a \<^verbatim>\<open>PT_GNU_STACK\<close> entry with read and write permission only. It is assumed that alignments are powers of two and that the sizes
  of the chunks with their alignments sum to less than \<open>2 ^ 63\<close>.
\<close>

theorem output_headers_decode:
  assumes "collect_chunks objects = Inr (chunks, m)" and "link_objects objects = Inr lk"
    and "chunks_ok chunks" and "chunks_fit chunks"
  shows "take 16 (lk_image lk) = [0x7F, 0x45, 0x4C, 0x46, 2, 1, 1, 0, 0, 0, 0, 0, 0, 0, 0, 0] \<and>
    (\<exists>h p q. decode_ehdr (lk_image lk) = h \<and> decode_phdr (drop 64 (lk_image lk)) = p \<and>
      decode_phdr (drop 120 (lk_image lk)) = q \<and>
      e_type h = 2 \<and> e_machine h = 62 \<and> e_version h = 1 \<and>
      e_entry h = (case RBT.lookup (lk_globals lk) ''_start'' of Some g \<Rightarrow> sy_value g | None \<Rightarrow> 0) \<and>
      e_phoff h = 64 \<and> e_ehsize h = 64 \<and> e_phentsize h = 56 \<and> e_phnum h = 2 \<and> e_shnum h = 0 \<and>
      p_type p = 1 \<and> p_flags p = 7 \<and> p_offset p = 0 \<and> p_vaddr p = 0x400000 \<and> p_align p = 0x1000 \<and>
      unat (p_filesz p) = length (lk_image lk) \<and> p_memsz p = lk_memsz lk \<and>
      (\<forall>os \<in> set (lk_osecs lk). unat (p_vaddr p) + 176 \<le> unat (os_vaddr os) \<and>
        unat (os_vaddr os) + unat (os_size os) \<le> unat (p_vaddr p) + unat (p_memsz p)) \<and>
      p_type q = 0x6474E551 \<and> p_flags q = 6)"
proof -
  define L where "L = make_layout chunks"
  note h = linked_headers [OF assms] and lk = link_objects_Inr [OF assms(2,1) L_def]
  have ok: "layout_ok chunks L" using make_layout_ok(1) [OF assms(3,4)] by (simp add: L_def)
  have un: "unat (of_nat (length (lk_image lk)) :: u64) = length (lk_image lk)"
    using h(4) by (simp add: unat_of_nat_less unsigned_less)
  have "e_ident (decode_ehdr (lk_image lk)) = take 16 (lk_image lk)" by (simp add: decode_ehdr_def)
  then have id: "take 16 (lk_image lk) = [0x7F, 0x45, 0x4C, 0x46, 2, 1, 1, 0, 0, 0, 0, 0, 0, 0, 0, 0]"
    by (simp add: h(1) output_ehdr_def)
  have sec: "unat BASE_ADDR + 176 \<le> unat (os_vaddr os) \<and>
      unat (os_vaddr os) + unat (os_size os) \<le> unat BASE_ADDR + unat (lk_memsz lk)" if "os \<in> set (lk_osecs lk)" for os
    using that layout_okD(4,5) [OF ok] unfolding lk(2,3) by (metis in_set_conv_nth)
  have "\<forall>os \<in> set (lk_osecs lk). unat (0x400000 :: u64) + 176 \<le> unat (os_vaddr os) \<and>
      unat (os_vaddr os) + unat (os_size os) \<le> unat (0x400000 :: u64) + unat (lk_memsz lk)"
    using sec unfolding BASE_ADDR_def by blast
  then show ?thesis
    using id un
    by (simp add: h(1-3) output_ehdr_def load_phdr_def stack_phdr_def entry_point_def num_phdrs_def BASE_ADDR_def PAGE_SIZE_def)
qed

section \<open>A sample program\<close>

text \<open>An object file with one code section and its section name table.\<close>

definition sample_object :: InputObject where
  "sample_object = \<lparr>filename = ''a.o'', buf =
    encode_ehdr \<lparr>e_ident = ELFMAG @ [2, 1, 1, 0, 0, 0, 0, 0, 0, 0, 0, 0], e_type = ET_REL,
      e_machine = EM_X86_64, e_version = 1, e_entry = 0, e_phoff = 0, e_shoff = 64, e_flags = 0,
      e_ehsize = 64, e_phentsize = 0, e_phnum = 0, e_shentsize = 64, e_shnum = 3, e_shstrndx = 2\<rparr> @
    replicate 64 0 @
    encode_shdr \<lparr>sh_name = 1, sh_type = SHT_PROGBITS, sh_flags = 6, sh_addr = 0, sh_offset = 256,
      sh_size = 6, sh_link = 0, sh_info = 0, sh_addralign = 2 ^ 4, sh_entsize = 0\<rparr> @
    encode_shdr \<lparr>sh_name = 0, sh_type = 3, sh_flags = 0, sh_addr = 0, sh_offset = 262,
      sh_size = 7, sh_link = 0, sh_info = 0, sh_addralign = 1, sh_entsize = 0\<rparr> @
    [0xE8, 0, 0, 0, 0, 0xC3] @ [0, 0x2E, 0x74, 0x65, 0x78, 0x74, 0]\<rparr>"

lemma sample_ehdr:
  "e_shoff (ehdr sample_object) = 64" "shnum sample_object = 3" "e_shstrndx (ehdr sample_object) = 2"
proof -
  have "ehdr sample_object = decode_ehdr (encode_ehdr \<lparr>e_ident = ELFMAG @ [2, 1, 1, 0, 0, 0, 0, 0, 0, 0, 0, 0],
      e_type = ET_REL, e_machine = EM_X86_64, e_version = 1, e_entry = 0, e_phoff = 0, e_shoff = 64, e_flags = 0,
      e_ehsize = 64, e_phentsize = 0, e_phnum = 0, e_shentsize = 64, e_shnum = 3, e_shstrndx = 2\<rparr> @ [])"
    by (simp add: ehdr_def sample_object_def)
  then show "e_shoff (ehdr sample_object) = 64" "shnum sample_object = 3" "e_shstrndx (ehdr sample_object) = 2"
    by (simp_all add: decode_encode_ehdr [where bs = "[]", simplified] shnum_def)
qed

lemma sample_buf:
  "buf sample_object =
    encode_ehdr \<lparr>e_ident = ELFMAG @ [2, 1, 1, 0, 0, 0, 0, 0, 0, 0, 0, 0], e_type = ET_REL,
      e_machine = EM_X86_64, e_version = 1, e_entry = 0, e_phoff = 0, e_shoff = 64, e_flags = 0,
      e_ehsize = 64, e_phentsize = 0, e_phnum = 0, e_shentsize = 64, e_shnum = 3, e_shstrndx = 2\<rparr> @
    replicate 64 0 @
    encode_shdr \<lparr>sh_name = 1, sh_type = SHT_PROGBITS, sh_flags = 6, sh_addr = 0, sh_offset = 256,
      sh_size = 6, sh_link = 0, sh_info = 0, sh_addralign = 2 ^ 4, sh_entsize = 0\<rparr> @
    encode_shdr \<lparr>sh_name = 0, sh_type = 3, sh_flags = 0, sh_addr = 0, sh_offset = 262,
      sh_size = 7, sh_link = 0, sh_info = 0, sh_addralign = 1, sh_entsize = 0\<rparr> @
    [0xE8, 0, 0, 0, 0, 0xC3] @ [0, 0x2E, 0x74, 0x65, 0x78, 0x74, 0]"
  by (simp add: sample_object_def)

lemma sample_shdr:
  "shdr sample_object 1 = Inr (Some \<lparr>sh_name = 1, sh_type = SHT_PROGBITS, sh_flags = 6, sh_addr = 0,
    sh_offset = 256, sh_size = 6, sh_link = 0, sh_info = 0, sh_addralign = 2 ^ 4, sh_entsize = 0\<rparr>)"
  "shdr sample_object 2 = Inr (Some \<lparr>sh_name = 0, sh_type = 3, sh_flags = 0, sh_addr = 0, sh_offset = 262,
      sh_size = 7, sh_link = 0, sh_info = 0, sh_addralign = 1, sh_entsize = 0\<rparr>)"
  using decode_encode_shdr [where bs = "[]"]
  by (simp_all add: shdr_def sample_ehdr read_at_def sample_buf)

definition sample_chunk :: Chunk where
  "sample_chunk = \<lparr>c_obj_idx = 0, c_shdr_idx = 1, c_name = ''.text'', c_size = 6, c_align = 2 ^ 4, c_flags = 6,
    c_type = SHT_PROGBITS, c_data = [0xE8, 0, 0, 0, 0, 0xC3], c_offset = 0\<rparr>"

lemma sample_indices: "section_indices sample_object = [1, 2]"
  by (simp add: section_indices_def sample_ehdr upt_rec)

lemma sample_name: "sec_name sample_object 1 = Inr ''.text''"
  by (simp add: sec_name_def shstrtab_def sample_shdr sample_ehdr c_string_def sample_buf char_of_def bit_Suc_0_iff)

lemma sample_collect: "collect_chunks [sample_object] = Inr ([sample_chunk], [(0, 1) \<mapsto> 0])"
  by (simp add: collect_chunks_def collect_section_def sample_indices sample_shdr sample_name section_bytes_def
      sec_data_def read_at_def sample_buf is_alloc_section_type_def sample_chunk_def)

lemma sample_ok: "chunks_ok [sample_chunk]" "chunks_fit [sample_chunk]" "bss_writable [sample_chunk]"
  "aligns_dvd_base [sample_chunk]"
  using pow2I [of 4]
  by (simp_all add: chunks_ok_def chunks_fit_def bss_writable_def aligns_dvd_base_def sample_chunk_def BASE_ADDR_def)

lemma sample_links: "\<exists>lk. link_objects [sample_object] = Inr lk"
proof -
  let ?L = "make_layout [sample_chunk]"
  have sy: "load_symbols [sample_object] osecs om chunks m = Inr ([[]], RBT.empty)" for osecs om chunks m
    by (simp add: load_symbols_def load_object_symbols_def sample_indices sample_shdr)
  have "RBT.entries (RBT.empty :: globals) = []"
    by (simp only: map_of_eq_empty_iff [symmetric] RBT.map_of_entries RBT.lookup_empty)
  then have ch: "check_unresolved RBT.empty = Inr RBT.empty" by (simp add: check_unresolved_def)
  have re: "apply_relocations [sample_object] osecs om m syms chunks = Inr chunks" for osecs om m syms chunks
    by (simp add: apply_relocations_def relocate_section_def sample_indices sample_shdr)
  have len: "\<forall>ci < length [sample_chunk]. length (c_data ([sample_chunk] ! ci)) = unat (c_size ([sample_chunk] ! ci))"
    by (simp add: sample_chunk_def)
  obtain img where "write_output (entry_point RBT.empty) (l_filesz ?L) (l_memsz ?L) (l_osecs ?L) (l_chunks ?L) = Inr img"
    using write_output_Inr [OF make_layout_ok(1) [OF sample_ok(1,2)] data_only_refl len] by blast
  then show ?thesis by (simp add: link_objects_def sample_collect sy ch re Let_def)
qed

theorem linked_image_correct_witness:
  "\<exists>lk a. link_objects [sample_object] = Inr lk \<and>
    chunk_vaddr (lk_osecs lk) (index_map (lk_osecs lk)) (lk_chunks lk ! 0) = Some a \<and>
    elf_memory (lk_image lk) (unat a + 5) = Some (c_data (lk_chunks lk ! 0) ! 5)"
proof -
  obtain lk where "link_objects [sample_object] = Inr lk" using sample_links by blast
  with linked_image_correct [OF sample_collect this sample_ok, of 0 5] show ?thesis
    by (auto simp: sample_chunk_def)
qed

theorem output_headers_decode_witness:
  "\<exists>lk. link_objects [sample_object] = Inr lk \<and>
    take 16 (lk_image lk) = [0x7F, 0x45, 0x4C, 0x46, 2, 1, 1, 0, 0, 0, 0, 0, 0, 0, 0, 0] \<and>
    e_machine (decode_ehdr (lk_image lk)) = 62 \<and> p_vaddr (decode_phdr (drop 64 (lk_image lk))) = 0x400000 \<and>
    p_flags (decode_phdr (drop 120 (lk_image lk))) = 6"
proof -
  obtain lk where lk: "link_objects [sample_object] = Inr lk" using sample_links by blast
  from output_headers_decode [OF sample_collect lk sample_ok(1,2)] lk show ?thesis by auto
qed

end
