(* ===== verification/Bitonic_Sort.thy ===== *)
theory Bitonic_Sort
  imports Prelude "HOL-Library.Multiset"
begin

text \<open>
  The bitonic sorting network of \<^verbatim>\<open>src/Algorithm/parallel_sort.cpp\<close>. A range is the list of its elements;
  the two halves a \<^verbatim>\<open>cut\<close> makes are disjoint, so the jobs that \<^verbatim>\<open>parallel\<close> and \<^verbatim>\<open>parallel_for\<close> start touch
  disjoint elements and their interleaving does not matter: each job is a function on its half.

  The network is correct for every linear order. By the zero-one principle it is enough to sort lists
  of truth values, and there a bitonic list is one whose true positions form an interval of the
  circle; a stage of the network maps such a list to two, one of them constant.
\<close>

section \<open>The network\<close>

datatype direction = Incr | Decr

fun before :: "direction \<Rightarrow> 'a::linorder \<Rightarrow> 'a \<Rightarrow> bool" where
  "before Incr a b \<longleftrightarrow> a < b"
| "before Decr a b \<longleftrightarrow> a > b"

definition cut :: "'a list \<Rightarrow> 'a list \<times> 'a list" where
  "cut rng = (let pivot = length rng div 2 in (take pivot rng, drop pivot rng))"

definition perform :: "direction \<Rightarrow> 'a::linorder \<times> 'a \<Rightarrow> 'a \<times> 'a" where
  "perform dir p = (let (lhs, rhs) = p in if \<not> before dir lhs rhs then (rhs, lhs) else (lhs, rhs))"

text \<open>The comparisons of one stage: \<^verbatim>\<open>zip\<close> stops at the shorter half.\<close>

definition perform_all :: "direction \<Rightarrow> 'a::linorder list \<times> 'a list \<Rightarrow> 'a list \<times> 'a list" where
  "perform_all dir p =
  (let (lo, hi) = p; ps = map (perform dir) (zip lo hi)
   in (map fst ps @ drop (length ps) lo, map snd ps @ drop (length ps) hi))"

lemma length_perform_all:
  "length (fst (perform_all dir (lo, hi))) = length lo" "length (snd (perform_all dir (lo, hi))) = length hi"
  by (simp_all add: perform_all_def Let_def)

function bitonic_merge :: "direction \<Rightarrow> 'a::linorder list \<Rightarrow> 'a list" where
  "bitonic_merge dir rng =
  (if length rng < 2 then rng
   else let p = perform_all dir (cut rng)
     in bitonic_merge dir (fst p) @ bitonic_merge dir (snd p))"
  by auto
termination
  by (relation "measure (\<lambda>(dir, rng). length rng)") (auto simp: cut_def Let_def length_perform_all)

function bitonic_sort :: "direction \<Rightarrow> 'a::linorder list \<Rightarrow> 'a list" where
  "bitonic_sort dir rng =
  (if length rng < 2 then rng
   else bitonic_merge dir (bitonic_sort Incr (fst (cut rng)) @ bitonic_sort Decr (snd (cut rng))))"
  by auto
termination
  by (relation "measure (\<lambda>(dir, rng). length rng)") (auto simp: cut_def Let_def)

declare bitonic_merge.simps [simp del] bitonic_sort.simps [simp del]

definition has_single_bit :: "nat \<Rightarrow> bool" where
  "has_single_bit n \<longleftrightarrow> n \<in> set (map (\<lambda>k. 2 ^ k) [0..<64])"

text \<open>\<open>None\<close> is the failed assertion.\<close>

definition parallel_sort :: "'a::linorder list \<Rightarrow> 'a list option" where
  "parallel_sort rng =
  (if length rng < 2 then Some rng
   else if has_single_bit (length rng) then Some (bitonic_sort Incr rng)
   else None)"

section \<open>Elements are preserved\<close>

lemma mset_perform_all: "mset (fst (perform_all dir (lo, hi))) + mset (snd (perform_all dir (lo, hi))) = mset lo + mset hi"
proof -
  have "mset (map fst (map (perform dir) (zip lo hi))) + mset (map snd (map (perform dir) (zip lo hi))) =
      mset (take (length hi) lo) + mset (take (length lo) hi)"
    by (induction lo hi rule: list_induct2') (auto simp: perform_def)
  moreover have "mset (take n xs) + mset (drop n xs) = mset xs" for n and xs :: "'a list"
    by (metis append_take_drop_id mset_append)
  ultimately show ?thesis
    by (simp add: perform_all_def Let_def min_def) (smt (verit) add.assoc add.commute append_Nil2 drop_all le_cases mset_append take_all)
qed

lemma mset_bitonic_merge: "mset (bitonic_merge dir xs) = mset xs"
proof (induction dir xs rule: bitonic_merge.induct)
  case (1 dir xs)
  show ?case
  proof (cases "length xs < 2")
    case True
    then show ?thesis by (simp add: bitonic_merge.simps)
  next
    case False
    let ?p = "perform_all dir (cut xs)"
    have "mset (fst ?p) + mset (snd ?p) = mset xs"
      by (simp add: cut_def Let_def mset_perform_all) (metis append_take_drop_id mset_append)
    then show ?thesis
      using 1 [OF False refl] False by (subst bitonic_merge.simps) (simp add: Let_def)
  qed
qed

lemma mset_bitonic_sort: "mset (bitonic_sort dir xs) = mset xs"
proof (induction dir xs rule: bitonic_sort.induct)
  case (1 dir xs)
  show ?case
  proof (cases "length xs < 2")
    case False
    have "mset (fst (cut xs)) + mset (snd (cut xs)) = mset xs"
      by (simp add: cut_def Let_def) (metis append_take_drop_id mset_append)
    then show ?thesis
      using 1 [OF False] False by (subst bitonic_sort.simps) (simp add: mset_bitonic_merge)
  qed (simp add: bitonic_sort.simps)
qed

lemma length_bitonic [simp]:
  "length (bitonic_merge dir xs) = length xs" "length (bitonic_sort dir xs) = length xs"
  by (metis mset_bitonic_merge size_mset) (metis mset_bitonic_sort size_mset)

section \<open>The zero-one principle\<close>

text \<open>Every comparison takes a minimum and a maximum, so a monotone map commutes with the network.\<close>

lemma perform_min_max:
  "perform Incr (a, b) = (min a b, max a b)" "perform Decr (a, b) = (max a b, min a b)"
  by (auto simp: perform_def min_def max_def)

lemma perform_mono:
  assumes "mono f"
  shows "map_prod f f (perform dir p) = perform dir (map_prod f f p)"
  using assms by (cases dir; cases p) (simp_all add: perform_min_max min_of_mono max_of_mono)

lemma perform_all_mono:
  assumes "mono f"
  shows "map_prod (map f) (map f) (perform_all dir p) = perform_all dir (map_prod (map f) (map f) p)"
proof -
  have "map (\<lambda>q. f (fst (perform dir q))) qs = map (\<lambda>q. fst (perform dir (map_prod f f q))) qs"
    "map (\<lambda>q. f (snd (perform dir q))) qs = map (\<lambda>q. snd (perform dir (map_prod f f q))) qs" for qs
    by (simp_all flip: perform_mono [OF assms])
  then show ?thesis
    by (cases p) (simp add: perform_all_def Let_def drop_map zip_map_map comp_def map_prod_def)
qed

lemma cut_map: "cut (map f xs) = map_prod (map f) (map f) (cut xs)"
  by (simp add: cut_def Let_def take_map drop_map)

lemma bitonic_merge_mono:
  assumes "mono f"
  shows "map f (bitonic_merge dir xs) = bitonic_merge dir (map f xs)"
proof (induction dir xs rule: bitonic_merge.induct)
  case (1 dir xs)
  show ?case
  proof (cases "length xs < 2")
    case False
    have "perform_all dir (cut (map f xs)) = map_prod (map f) (map f) (perform_all dir (cut xs))"
      by (simp add: cut_map perform_all_mono [OF assms])
    then show ?thesis
      using False 1 [OF False refl] by (simp add: bitonic_merge.simps [of dir xs] bitonic_merge.simps [of dir "map f xs"] Let_def)
  qed (simp add: bitonic_merge.simps)
qed

lemma bitonic_sort_mono:
  assumes "mono f"
  shows "map f (bitonic_sort dir xs) = bitonic_sort dir (map f xs)"
proof (induction dir xs rule: bitonic_sort.induct)
  case (1 dir xs)
  show ?case
  proof (cases "length xs < 2")
    case False
    then show ?thesis
      using 1 [OF False]
      by (simp add: bitonic_sort.simps [of dir xs] bitonic_sort.simps [of dir "map f xs"] bitonic_merge_mono [OF assms] cut_map)
  qed (simp add: bitonic_sort.simps)
qed

text \<open>The order a direction sorts by.\<close>

fun ordered :: "direction \<Rightarrow> 'a::linorder \<Rightarrow> 'a \<Rightarrow> bool" where
  "ordered Incr a b \<longleftrightarrow> a \<le> b"
| "ordered Decr a b \<longleftrightarrow> a \<ge> b"

lemma ordered_eq: "ordered Incr = (\<le>)" "ordered Decr = (\<ge>)"
  by (simp_all add: fun_eq_iff)

lemma zero_one_principle:
  assumes "\<And>bs :: bool list. length bs = length xs \<Longrightarrow> sorted (bitonic_sort Incr bs)"
  shows "sorted (bitonic_sort Incr xs)"
proof -
  let ?ys = "bitonic_sort Incr xs"
  have "?ys ! i \<le> ?ys ! j" if "i < j" "j < length ?ys" for i j
  proof (rule ccontr)
    let ?f = "\<lambda>z. ?ys ! j < z"
    assume "\<not> ?ys ! i \<le> ?ys ! j"
    moreover have "mono ?f" by (auto simp: mono_def)
    then have "sorted (map ?f ?ys)" by (simp add: bitonic_sort_mono assms)
    then have "map ?f ?ys ! i \<le> map ?f ?ys ! j" using that by (intro sorted_nth_mono) auto
    ultimately show False using that by auto
  qed
  then show ?thesis by (simp add: sorted_iff_nth_mono_less)
qed

section \<open>Bitonic lists of truth values\<close>

text \<open>The true positions form an interval of the circle of positions.\<close>

definition bitonic :: "bool list \<Rightarrow> bool" where
  "bitonic bs \<longleftrightarrow> (\<exists>t m. \<forall>i < length bs. bs ! i \<longleftrightarrow> (i + t) mod length bs < m)"

lemma sorted_bools_nth:
  assumes "sorted bs" "i < length bs"
  shows "bs ! i \<longleftrightarrow> length (filter Not bs) \<le> i"
  using assms
proof (induction bs arbitrary: i)
  case (Cons b bs)
  show ?case
  proof (cases b)
    case True
    then have "filter Not bs = []" using Cons.prems(1) by (auto simp: filter_empty_conv)
    moreover have "(b # bs) ! i" using True Cons.prems by (cases i) (auto simp: all_set_conv_all_nth)
    ultimately show ?thesis using True by simp
  next
    case False
    then show ?thesis using Cons by (cases i) auto
  qed
qed simp

lemma rsorted_bools_nth:
  assumes "sorted_wrt (\<ge>) bs" "i < length bs"
  shows "bs ! i \<longleftrightarrow> i < length (filter id bs)"
  using assms
proof (induction bs arbitrary: i)
  case (Cons b bs)
  show ?case
  proof (cases b)
    case False
    then have "filter id (b # bs) = []" using Cons.prems(1) by (auto simp: filter_empty_conv)
    moreover have "\<not> (b # bs) ! i" using False Cons.prems by (cases i) (auto simp: all_set_conv_all_nth)
    ultimately show ?thesis by (simp only: list.size not_less_zero)
  next
    case True
    then show ?thesis using Cons by (cases i) auto
  qed
qed simp

lemma bitonic_append:
  assumes "sorted as" "sorted_wrt (\<ge>) bs"
  shows "bitonic (as @ bs)"
proof -
  define n p q where "n = length (as @ bs)" and "p = length (filter Not as)" and "q = length (filter id bs)"
  have pq: "p \<le> length as" "q \<le> length bs" by (simp_all add: p_def q_def)
  have "(as @ bs) ! i \<longleftrightarrow> (i + (n - p)) mod n < length as + q - p" if "i < n" for i
  proof -
    have "(as @ bs) ! i \<longleftrightarrow> p \<le> i \<and> i < length as + q"
      using assms that pq by (cases "i < length as")
        (auto simp: n_def nth_append sorted_bools_nth rsorted_bools_nth simp flip: p_def q_def)
    also have "\<dots> \<longleftrightarrow> (i + (n - p)) mod n < length as + q - p"
      using that pq by (cases "p \<le> i") (auto simp: n_def mod_if)
    finally show ?thesis .
  qed
  then show ?thesis unfolding bitonic_def n_def by blast
qed

text \<open>One stage on a bitonic list: position \<open>i\<close> of the halves meets \<open>i\<close> and \<open>i + n\<close> of the list.\<close>

lemma mod_double:
  fixes j n :: nat
  assumes "0 < n"
  shows "{j mod (2 * n), (j + n) mod (2 * n)} = {j mod n, j mod n + n}"
proof -
  have 1: "j mod (2 * n) = (if even (j div n) then 0 else n) + j mod n" for j
    using mod_mult2_eq [of j n 2] by (auto simp: mult.commute even_iff_mod_2_eq_zero odd_iff_mod_2_eq_one)
  have "(j + n) mod (2 * n) = (if even (j div n) then n else 0) + j mod n"
    using assms by (subst 1) (simp add: div_add_self2)
  then show ?thesis by (auto simp: 1)
qed

lemma perform_all_nth:
  assumes "length lo = n" "length hi = n" "i < n"
  shows "(fst (perform_all dir (lo, hi)) ! i, snd (perform_all dir (lo, hi)) ! i) = perform dir (lo ! i, hi ! i)"
  using assms by (simp add: perform_all_def Let_def)

lemma perform_bools:
  "perform Incr (a, b) = (a \<and> b, a \<or> b)" "perform Decr (a, b) = (a \<or> b, a \<and> b)"
  by (auto simp: perform_def)

lemma bitonic_stage:
  assumes "length bs = 2 * n" "0 < n" "bitonic bs" "perform_all dir (cut bs) = (lo, hi)"
  shows "bitonic lo" "bitonic hi" "length lo = n" "length hi = n" "\<forall>a \<in> set lo. \<forall>b \<in> set hi. ordered dir a b"
proof -
  obtain t m where tm: "\<And>i. i < 2 * n \<Longrightarrow> bs ! i \<longleftrightarrow> (i + t) mod (2 * n) < m"
    using assms(1,3) unfolding bitonic_def by auto
  have c: "cut bs = (take n bs, drop n bs)" using assms(1) by (simp add: cut_def)
  show len: "length lo = n" "length hi = n"
    using length_perform_all [of dir "take n bs" "drop n bs"] assms(1,4) c by auto
  define A where "A r = (r < m - n)" for r
  define B where "B r = (r < m)" for r
  have ab: "bs ! i \<and> bs ! (i + n) \<longleftrightarrow> A ((i + t) mod n)" "bs ! i \<or> bs ! (i + n) \<longleftrightarrow> B ((i + t) mod n)" if "i < n" for i
  proof -
    have "bs ! i \<longleftrightarrow> (i + t) mod (2 * n) < m" "bs ! (i + n) \<longleftrightarrow> (i + t + n) mod (2 * n) < m"
      using that tm [of i] tm [of "i + n"] by (simp_all add: ac_simps)
    then show "bs ! i \<and> bs ! (i + n) \<longleftrightarrow> A ((i + t) mod n)" "bs ! i \<or> bs ! (i + n) \<longleftrightarrow> B ((i + t) mod n)"
      using mod_double [OF assms(2), of "i + t"] by (auto simp: A_def B_def doubleton_eq_iff)
  qed
  have nth: "(lo ! i, hi ! i) = perform dir (bs ! i, bs ! (i + n))" if "i < n" for i
    using perform_all_nth [of "take n bs" n "drop n bs" i dir] assms(1,4) c that by (simp add: ac_simps)
  obtain P Q where PQ: "{P, Q} = {A, B}" "\<And>i. i < n \<Longrightarrow> lo ! i \<longleftrightarrow> P ((i + t) mod n)" "\<And>i. i < n \<Longrightarrow> hi ! i \<longleftrightarrow> Q ((i + t) mod n)"
    "dir = Incr \<longrightarrow> P = A \<and> Q = B" "dir = Decr \<longrightarrow> P = B \<and> Q = A"
  proof (cases dir)
    case Incr
    then show ?thesis using nth ab that [of A B] by (auto simp: perform_bools)
  next
    case Decr
    then show ?thesis using nth ab that [of B A] by (auto simp: perform_bools)
  qed
  have "\<exists>m. \<forall>r. P r \<longleftrightarrow> r < m" "\<exists>m. \<forall>r. Q r \<longleftrightarrow> r < m"
    using PQ(1) by (auto simp: A_def B_def doubleton_eq_iff)
  then show "bitonic lo" "bitonic hi"
    using PQ(2,3) len unfolding bitonic_def by metis+
  have "A r \<Longrightarrow> r' < n \<Longrightarrow> B r'" for r r' by (simp add: A_def B_def)
  then show "\<forall>a \<in> set lo. \<forall>b \<in> set hi. ordered dir a b"
    using PQ len assms(2) by (cases dir) (auto simp: in_set_conv_nth)
qed

lemma bitonic_merge_sorts:
  assumes "length bs = 2 ^ k" "bitonic bs"
  shows "sorted_wrt (ordered dir) (bitonic_merge dir bs)"
  using assms
proof (induction k arbitrary: bs)
  case 0
  then show ?case by (cases bs) (auto simp: bitonic_merge.simps)
next
  case (Suc k)
  obtain lo hi where p: "perform_all dir (cut bs) = (lo, hi)" by fastforce
  note st = bitonic_stage [OF _ _ Suc.prems(2) p, of "2 ^ k"]
  have "bitonic_merge dir bs = bitonic_merge dir lo @ bitonic_merge dir hi"
    using Suc.prems(1) by (subst bitonic_merge.simps) (simp add: p)
  moreover have "set (bitonic_merge dir xs) = set xs" for xs :: "bool list"
    by (metis mset_bitonic_merge set_mset_mset)
  ultimately show ?case
    using Suc st by (simp add: sorted_wrt_append)
qed

lemma bitonic_sort_bools:
  assumes "length bs = 2 ^ k"
  shows "sorted_wrt (ordered dir) (bitonic_sort dir (bs :: bool list))"
  using assms
proof (induction k arbitrary: bs dir)
  case 0
  then show ?case by (cases bs) (auto simp: bitonic_sort.simps)
next
  case (Suc k)
  let ?lo = "bitonic_sort Incr (fst (cut bs))" and ?hi = "bitonic_sort Decr (snd (cut bs))"
  have "sorted_wrt (ordered Incr) ?lo" "sorted_wrt (ordered Decr) ?hi"
    using Suc by (simp_all add: cut_def Let_def)
  then have "bitonic (?lo @ ?hi)" by (intro bitonic_append) (simp_all add: ordered_eq)
  then show ?case
    using Suc.prems bitonic_merge_sorts [of "?lo @ ?hi" "Suc k" dir]
    by (subst bitonic_sort.simps) (simp add: cut_def Let_def)
qed

text \<open>
  C26. \<^verbatim>\<open>parallel_sort\<close> of \<^verbatim>\<open>Algorithm/parallel_sort.cpp\<close> sorts: on an empty or one-element range and on every range
  whose size is a power of two the bitonic network returns the sorted permutation of the input, for
  every linearly ordered element type; on any other size the assertion fails.
\<close>

theorem parallel_sort_sorts:
  "parallel_sort xs = (if length xs < 2 \<or> has_single_bit (length xs) then Some (sort xs) else None)"
proof (cases "length xs < 2")
  case True
  then show ?thesis by (cases xs) (auto simp: parallel_sort_def)
next
  case False
  have "bitonic_sort Incr xs = sort xs" if single: "has_single_bit (length xs)"
  proof -
    obtain k where "length xs = 2 ^ k" using single unfolding has_single_bit_def set_map by blast
    then have "sorted (bitonic_sort Incr bs)" if "length bs = length xs" for bs :: "bool list"
      using bitonic_sort_bools [of bs k Incr] that by (simp add: ordered_eq)
    then have "sorted (bitonic_sort Incr xs)" by (rule zero_one_principle)
    then show ?thesis
      by (intro properties_for_sort [symmetric]) (simp_all add: mset_bitonic_sort)
  qed
  with False show ?thesis by (simp add: parallel_sort_def)
qed

end
