(* ===== verification/Queue_Contract.thy ===== *)
theory Queue_Contract
  imports Prelude
begin

text \<open>
  What a queue promises to its callers, as a locale, and what follows for a caller that runs any
  sequence of operations on it. The queues of \<^verbatim>\<open>src/Concurrency\<close> interpret it: \<^verbatim>\<open>Fifo\<close> (a bounded ring),
  \<^verbatim>\<open>Queue\<close> (a deque under a mutex) and \<^verbatim>\<open>Queue_v2\<close> (a linked list with a dummy node).
  The lemmas on ring buffers that a bounded queue needs come first.
\<close>

section \<open>Ring buffers\<close>

text \<open>The \<open>len\<close> elements of a ring of size \<open>length b\<close> that start at index \<open>i\<close>.\<close>

definition ring :: "'a list \<Rightarrow> nat \<Rightarrow> nat \<Rightarrow> 'a list" where
  "ring b i len = map (\<lambda>j. b ! ((i + j) mod length b)) [0..<len]"

lemma length_ring [simp]: "length (ring b i len) = len"
  by (simp add: ring_def)

lemma ring_0 [simp]: "ring b i 0 = []"
  by (simp add: ring_def)

lemma ring_Suc: "ring b i (Suc len) = ring b i len @ [b ! ((i + len) mod length b)]"
  by (simp add: ring_def)

lemma ring_Cons: "ring b i (Suc len) = b ! (i mod length b) # ring b (Suc i mod length b) len"
proof -
  have "[0..<Suc len] = 0 # map Suc [0..<len]" by (simp add: map_Suc_upt upt_conv_Cons del: upt_Suc)
  moreover have "(Suc i mod length b + j) mod length b = (i + Suc j) mod length b" for j
    by (simp add: mod_add_left_eq)
  ultimately show ?thesis by (simp add: ring_def del: upt_Suc)
qed

lemma mod_add_inj:
  fixes i j k n :: nat
  assumes "j < k" "k < n"
  shows "(i + j) mod n \<noteq> (i + k) mod n"
proof
  assume "(i + j) mod n = (i + k) mod n"
  then have "n dvd (i + k) - (i + j)" using assms by (metis add_le_cancel_left less_imp_le mod_eq_dvd_iff_nat)
  then show False using assms by (auto dest: dvd_imp_le)
qed

lemma ring_update_outside:
  assumes "len \<le> k" "k < length b"
  shows "ring (b[(i + k) mod length b := v]) i len = ring b i len"
proof -
  have "(i + k) mod length b \<noteq> (i + j) mod length b" if "j < len" for j
    using mod_add_inj [of j k "length b" i] that assms by simp
  then show ?thesis unfolding ring_def length_list_update
    by (intro map_cong refl nth_list_update_neq) simp
qed

lemma ring_snoc:
  assumes "len < length b"
  shows "ring (b[(i + len) mod length b := v]) i (Suc len) = ring b i len @ [v]"
proof -
  have "(i + len) mod length b < length b" using assms by (intro mod_less_divisor) auto
  then show ?thesis
    using assms by (simp add: ring_Suc ring_update_outside)
qed

section \<open>The contract\<close>

datatype 'a queue_op = Push 'a | Try_pop

text \<open>
  A caller's run: the elements its pushes were accepted for, the elements its pops returned, and the
  queue it leaves.
\<close>

fun run_queue :: "('a \<Rightarrow> 'q \<Rightarrow> bool \<times> 'q) \<Rightarrow> ('q \<Rightarrow> 'a option \<times> 'q) \<Rightarrow> 'a queue_op list \<Rightarrow> 'q \<Rightarrow> 'a list \<times> 'a list \<times> 'q" where
  "run_queue push pop [] q = ([], [], q)"
| "run_queue push pop (Push x # ops) q =
    (let (ok, q1) = push x q; (acc, out, q2) = run_queue push pop ops q1
     in (if ok then x # acc else acc, out, q2))"
| "run_queue push pop (Try_pop # ops) q =
    (let (r, q1) = pop q; (acc, out, q2) = run_queue push pop ops q1
     in (acc, case r of None \<Rightarrow> out | Some x \<Rightarrow> x # out, q2))"

locale queue =
  fixes inv :: "'q \<Rightarrow> bool"
    and contents :: "'q \<Rightarrow> 'a list"
    and push :: "'a \<Rightarrow> 'q \<Rightarrow> bool \<times> 'q"
    and pop :: "'q \<Rightarrow> 'a option \<times> 'q"
  assumes push_inv: "inv q \<Longrightarrow> inv (snd (push x q))"
    and push_contents: "inv q \<Longrightarrow> contents (snd (push x q)) = (if fst (push x q) then contents q @ [x] else contents q)"
    and pop_inv: "inv q \<Longrightarrow> inv (snd (pop q))"
    and pop_result: "inv q \<Longrightarrow> fst (pop q) = (case contents q of [] \<Rightarrow> None | x # xs \<Rightarrow> Some x)"
    and pop_contents: "inv q \<Longrightarrow> contents (snd (pop q)) = tl (contents q)"
begin

lemma run_fifo:
  assumes "inv q" "run_queue push pop ops q = (acc, out, q')"
  shows "inv q' \<and> contents q @ acc = out @ contents q'"
  using assms
proof (induction ops arbitrary: q acc out)
  case (Cons op ops)
  show ?case
  proof (cases op)
    case (Push x)
    obtain ok q1 acc1 where "push x q = (ok, q1)" "run_queue push pop ops q1 = (acc1, out, q')"
      "acc = (if ok then x # acc1 else acc1)"
      using Cons.prems(2) Push by (auto split: prod.splits)
    then show ?thesis
      using Cons.IH [of q1 acc1 out] push_inv [OF Cons.prems(1), of x] push_contents [OF Cons.prems(1), of x] by auto
  next
    case Try_pop
    obtain r q1 out1 where r: "pop q = (r, q1)" "run_queue push pop ops q1 = (acc, out1, q')"
      "out = (case r of None \<Rightarrow> out1 | Some x \<Rightarrow> x # out1)"
      using Cons.prems(2) Try_pop by (auto split: prod.splits)
    then show ?thesis
      using Cons.IH [of q1 acc out1] pop_inv [OF Cons.prems(1)] pop_contents [OF Cons.prems(1)] pop_result [OF Cons.prems(1)]
      by (cases "contents q") auto
  qed
qed simp

text \<open>From an empty queue, what was popped is what was pushed first, in order.\<close>

lemma run_from_empty:
  assumes "inv q" "contents q = []" "run_queue push pop ops q = (acc, out, q')"
  shows "acc = out @ contents q'"
  using run_fifo [OF assms(1,3)] assms(2) by simp

end

section \<open>Queues that accept every push\<close>

text \<open>Such a queue is indistinguishable from a list with the same operations.\<close>

definition list_push :: "'a \<Rightarrow> 'a list \<Rightarrow> bool \<times> 'a list" where
  "list_push x xs = (True, xs @ [x])"

definition list_pop :: "'a list \<Rightarrow> 'a option \<times> 'a list" where
  "list_pop xs = (case xs of [] \<Rightarrow> (None, []) | x # xs \<Rightarrow> (Some x, xs))"

locale unbounded_queue = queue +
  assumes push_accepts: "inv q \<Longrightarrow> fst (push x q)"
begin

lemma run_as_list:
  assumes "inv q" "run_queue push pop ops q = (acc, out, q')"
  shows "run_queue list_push list_pop ops (contents q) = (acc, out, contents q')"
  using assms
proof (induction ops arbitrary: q acc out)
  case (Cons op ops)
  show ?case
  proof (cases op)
    case (Push x)
    obtain q1 acc1 where r: "push x q = (True, q1)" "run_queue push pop ops q1 = (acc1, out, q')" "acc = x # acc1"
      using Cons.prems Push push_accepts [OF Cons.prems(1), of x] by (auto split: prod.splits)
    then have "inv q1" "contents q1 = contents q @ [x]"
      using push_inv [OF Cons.prems(1), of x] push_contents [OF Cons.prems(1), of x] by auto
    then show ?thesis using Cons.IH [OF _ r(2)] r(3) Push by (simp add: list_push_def)
  next
    case Try_pop
    obtain res q1 out1 where r: "pop q = (res, q1)" "run_queue push pop ops q1 = (acc, out1, q')"
      "out = (case res of None \<Rightarrow> out1 | Some x \<Rightarrow> x # out1)"
      using Cons.prems(2) Try_pop by (auto split: prod.splits)
    then have "inv q1" "list_pop (contents q) = (res, contents q1)"
      using pop_inv [OF Cons.prems(1)] pop_result [OF Cons.prems(1)] pop_contents [OF Cons.prems(1)]
      by (auto simp: list_pop_def split: list.splits)
    then show ?thesis using Cons.IH [OF _ r(2)] r(3) Try_pop by simp
  qed
qed simp

end

end
