(* ===== verification/Fifo_Ring.thy ===== *)
theory Fifo_Ring
  imports Queue_Contract
begin

text \<open>
  The single-producer, single-consumer ring of \<^verbatim>\<open>src/Concurrency/Fifo.cpp\<close>: \<^verbatim>\<open>push\<close> and \<^verbatim>\<open>pop\<close> as functions,
  and the two threads as a transition system whose steps are the single accesses to \<^verbatim>\<open>_in\<close>, \<^verbatim>\<open>_out\<close> and
  \<^verbatim>\<open>_buffer\<close>. Steps interleave freely; the release store and acquire load on each index make the plain
  accesses to \<^verbatim>\<open>_buffer\<close> happen in this order.
\<close>

section \<open>The ring\<close>

record 'a fifo =
  fifo_buffer :: "'a list"
  fifo_in :: u64
  fifo_out :: u64

text \<open>The assertion of the constructor on the template argument \<^verbatim>\<open>SIZE\<close>.\<close>

definition fifo_size_ok :: "u64 \<Rightarrow> bool" where
  "fifo_size_ok SIZE \<longleftrightarrow> SIZE > 1 \<and> SIZE AND (SIZE - 1) = 0"

definition fifo_new :: "'a list \<Rightarrow> 'a fifo" where
  "fifo_new b = \<lparr>fifo_buffer = b, fifo_in = 0, fifo_out = 0\<rparr>"

definition fifo_mask :: "'a fifo \<Rightarrow> u64" where
  "fifo_mask f = of_nat (length (fifo_buffer f)) - 1"

definition fifo_push :: "'a \<Rightarrow> 'a fifo \<Rightarrow> bool \<times> 'a fifo" where
  "fifo_push elem f =
  (let i = fifo_in f; next_in = (i + 1) AND fifo_mask f
   in if next_in = fifo_out f then (False, f)
      else (True, f\<lparr>fifo_buffer := (fifo_buffer f)[unat i := elem], fifo_in := next_in\<rparr>))"

definition fifo_pop :: "'a fifo \<Rightarrow> 'a option \<times> 'a fifo" where
  "fifo_pop f =
  (let i = fifo_in f; out = fifo_out f
   in if i = out then (None, f)
      else (Some (fifo_buffer f ! unat out), f\<lparr>fifo_out := (out + 1) AND fifo_mask f\<rparr>))"

section \<open>Its elements\<close>

definition fifo_inv :: "'a fifo \<Rightarrow> bool" where
  "fifo_inv f \<longleftrightarrow> (\<exists>k. 0 < k \<and> k < 64 \<and> length (fifo_buffer f) = 2 ^ k) \<and>
    unat (fifo_in f) < length (fifo_buffer f) \<and> unat (fifo_out f) < length (fifo_buffer f)"

definition fifo_used :: "'a fifo \<Rightarrow> nat" where
  "fifo_used f = (let i = unat (fifo_in f); out = unat (fifo_out f)
     in if out \<le> i then i - out else i + length (fifo_buffer f) - out)"

definition fifo_contents :: "'a fifo \<Rightarrow> 'a list" where
  "fifo_contents f = ring (fifo_buffer f) (unat (fifo_out f)) (fifo_used f)"

lemma unat_next_index:
  assumes "fifo_inv f" "unat i < length (fifo_buffer f)"
  shows "unat ((i + 1) AND fifo_mask f) = Suc (unat i) mod length (fifo_buffer f)"
proof -
  obtain k where k: "0 < k" "k < 64" "length (fifo_buffer f) = 2 ^ k" using assms(1) by (auto simp: fifo_inv_def)
  have "(2::nat) ^ k \<le> 2 ^ 63" using k(2) by (intro power_increasing) auto
  then have "unat (i + 1) = Suc (unat i)" using assms(2) k(3) by (subst unat_add_less) auto
  moreover have "fifo_mask f = mask k" by (simp add: fifo_mask_def k(3) mask_eq_exp_minus_1)
  then have "(i + 1) AND fifo_mask f = take_bit k (i + 1)" by (simp add: take_bit_eq_mask)
  ultimately show ?thesis
    by (simp only: k(3) unsigned_take_bit_eq take_bit_eq_mod [where 'a = nat])
qed

text \<open>A size accepted by the constructor is a power of two above one.\<close>

lemma fifo_new_inv:
  assumes "length b < 2 ^ 64" "fifo_size_ok (of_nat (length b))"
  shows "fifo_inv (fifo_new b)" "fifo_contents (fifo_new b) = []"
proof -
  have len: "unat (of_nat (length b) :: u64) = length b" using assms(1) by (intro unat_of_nat_less) simp
  have "1 < length b" using assms(2) len by (simp add: fifo_size_ok_def word_less_nat_alt)
  moreover have "of_nat (length b) \<noteq> (0::u64)" using len \<open>1 < length b\<close> by (metis not_one_less_zero unat_0)
  then obtain k where "k < 64" "length b = 2 ^ k"
    using and_minus_one_pow2 [of "of_nat (length b) :: u64"] assms(2) len by (auto simp: fifo_size_ok_def)
  ultimately show "fifo_inv (fifo_new b)"
    by (auto simp: fifo_inv_def fifo_new_def intro!: exI [of _ k] gr0I)
  show "fifo_contents (fifo_new b) = []"
    by (simp add: fifo_contents_def fifo_new_def fifo_used_def)
qed

text \<open>The index arithmetic: how many elements there are after an index moved.\<close>

lemma fifo_used_less: "fifo_inv f \<Longrightarrow> fifo_used f < length (fifo_buffer f)"
  by (auto simp: fifo_inv_def fifo_used_def Let_def)

lemma fifo_in_index: "fifo_inv f \<Longrightarrow> (unat (fifo_out f) + fifo_used f) mod length (fifo_buffer f) = unat (fifo_in f)"
  by (auto simp: fifo_inv_def fifo_used_def Let_def mod_if)

lemma fifo_inv_two: "fifo_inv f \<Longrightarrow> 2 \<le> length (fifo_buffer f)"
  using power_increasing [of 1 _ "2::nat"] by (fastforce simp: fifo_inv_def)

text \<open>Whether the ring is full or empty is read off the indices.\<close>

lemma fifo_full_iff:
  assumes "fifo_inv f"
  shows "(fifo_in f + 1) AND fifo_mask f = fifo_out f \<longleftrightarrow> Suc (fifo_used f) = length (fifo_buffer f)"
proof -
  have "(fifo_in f + 1) AND fifo_mask f = fifo_out f \<longleftrightarrow>
      Suc (unat (fifo_in f)) mod length (fifo_buffer f) = unat (fifo_out f)"
    using unat_next_index [OF assms, of "fifo_in f"] assms by (auto simp: fifo_inv_def word_unat_eq_iff)
  also have "Suc (unat (fifo_in f)) mod length (fifo_buffer f) =
      (if Suc (unat (fifo_in f)) = length (fifo_buffer f) then 0 else Suc (unat (fifo_in f)))"
    using assms by (simp add: mod_Suc fifo_inv_def)
  finally show ?thesis
    using assms fifo_inv_two [OF assms] by (simp add: fifo_inv_def fifo_used_def Let_def) arith
qed

lemma fifo_empty_iff: "fifo_inv f \<Longrightarrow> fifo_in f = fifo_out f \<longleftrightarrow> fifo_used f = 0"
  by (auto simp: fifo_inv_def fifo_used_def Let_def word_unat_eq_iff)

text \<open>
  The three accesses that change the ring: writing the free slot at \<^verbatim>\<open>_in\<close> leaves the elements alone,
  moving \<^verbatim>\<open>_in\<close> appends that slot, moving \<^verbatim>\<open>_out\<close> removes the first element.
\<close>

lemma fifo_write_slot:
  assumes "fifo_inv f"
  shows "fifo_inv (f\<lparr>fifo_buffer := (fifo_buffer f)[unat (fifo_in f) := v]\<rparr>)"
    "fifo_contents (f\<lparr>fifo_buffer := (fifo_buffer f)[unat (fifo_in f) := v]\<rparr>) = fifo_contents f"
proof -
  show "fifo_inv (f\<lparr>fifo_buffer := (fifo_buffer f)[unat (fifo_in f) := v]\<rparr>)"
    using assms by (simp add: fifo_inv_def)
  show "fifo_contents (f\<lparr>fifo_buffer := (fifo_buffer f)[unat (fifo_in f) := v]\<rparr>) = fifo_contents f"
  proof -
    have "fifo_used (f\<lparr>fifo_buffer := (fifo_buffer f)[unat (fifo_in f) := v]\<rparr>) = fifo_used f"
      by (simp add: fifo_used_def Let_def)
    then show ?thesis
      using ring_update_outside [OF order_refl fifo_used_less [OF assms], of "unat (fifo_out f)" v] fifo_in_index [OF assms]
      by (simp add: fifo_contents_def)
  qed
qed

lemma fifo_publish:
  fixes f :: "'a fifo"
  assumes "fifo_inv f" "Suc (fifo_used f) < length (fifo_buffer f)"
  defines "f' \<equiv> f\<lparr>fifo_in := (fifo_in f + 1) AND fifo_mask f\<rparr>"
  shows "fifo_inv f'" "fifo_used f' = Suc (fifo_used f)" "fifo_contents f' = fifo_contents f @ [fifo_buffer f ! unat (fifo_in f)]"
proof -
  let ?n = "length (fifo_buffer f)"
  have nx: "unat ((fifo_in f + 1) AND fifo_mask f) = (if Suc (unat (fifo_in f)) = ?n then 0 else Suc (unat (fifo_in f)))"
    using assms(1) by (simp add: unat_next_index mod_Suc fifo_inv_def)
  show "fifo_inv f'"
    using assms(1) nx by (auto simp: f'_def fifo_inv_def)
  show used: "fifo_used f' = Suc (fifo_used f)"
    using assms(1,2) nx by (auto simp: f'_def fifo_used_def fifo_inv_def Let_def split: if_splits)
  show "fifo_contents f' = fifo_contents f @ [fifo_buffer f ! unat (fifo_in f)]"
    using fifo_in_index [OF assms(1)] used by (simp add: fifo_contents_def f'_def ring_Suc)
qed

lemma fifo_consume:
  fixes f :: "'a fifo"
  assumes "fifo_inv f" "0 < fifo_used f"
  defines "f' \<equiv> f\<lparr>fifo_out := (fifo_out f + 1) AND fifo_mask f\<rparr>"
  shows "fifo_inv f'" "Suc (fifo_used f') = fifo_used f" "fifo_contents f = fifo_buffer f ! unat (fifo_out f) # fifo_contents f'"
proof -
  let ?n = "length (fifo_buffer f)"
  have nx: "unat ((fifo_out f + 1) AND fifo_mask f) = (if Suc (unat (fifo_out f)) = ?n then 0 else Suc (unat (fifo_out f)))"
    and nm: "unat ((fifo_out f + 1) AND fifo_mask f) = Suc (unat (fifo_out f)) mod ?n"
    using assms(1) by (simp_all add: unat_next_index mod_Suc fifo_inv_def)
  show "fifo_inv f'"
    using assms(1) nx by (auto simp: f'_def fifo_inv_def)
  show used: "Suc (fifo_used f') = fifo_used f"
    using assms(1,2) nx by (auto simp: f'_def fifo_used_def fifo_inv_def Let_def split: if_splits)
  have "unat (fifo_out f) mod ?n = unat (fifo_out f)" using assms(1) by (simp add: fifo_inv_def)
  then show "fifo_contents f = fifo_buffer f ! unat (fifo_out f) # fifo_contents f'"
    using ring_Cons [of "fifo_buffer f" "unat (fifo_out f)" "fifo_used f'"] used nm
    by (simp add: fifo_contents_def f'_def)
qed

lemma fifo_contents_Nil_iff: "fifo_contents f = [] \<longleftrightarrow> fifo_used f = 0"
  by (metis fifo_contents_def length_0_conv length_ring)

lemma fifo_push_cases:
  assumes "fifo_inv f"
  shows "fst (fifo_push x f) \<longleftrightarrow> Suc (fifo_used f) < length (fifo_buffer f)"
    "fifo_inv (snd (fifo_push x f))"
    "fifo_contents (snd (fifo_push x f)) = (if fst (fifo_push x f) then fifo_contents f @ [x] else fifo_contents f)"
proof -
  let ?f = "f\<lparr>fifo_buffer := (fifo_buffer f)[unat (fifo_in f) := x]\<rparr>"
  have full: "fst (fifo_push x f) \<longleftrightarrow> Suc (fifo_used f) < length (fifo_buffer f)"
    using fifo_full_iff [OF assms] fifo_used_less [OF assms] by (auto simp: fifo_push_def Let_def)
  then show "fst (fifo_push x f) \<longleftrightarrow> Suc (fifo_used f) < length (fifo_buffer f)" .
  have push: "snd (fifo_push x f) = (if fst (fifo_push x f) then ?f\<lparr>fifo_in := (fifo_in ?f + 1) AND fifo_mask ?f\<rparr> else f)"
    by (simp add: fifo_push_def Let_def fifo_mask_def)
  have "unat (fifo_in f) < length (fifo_buffer f)" "fifo_used ?f = fifo_used f"
    using assms by (simp_all add: fifo_inv_def fifo_used_def Let_def)
  then show "fifo_inv (snd (fifo_push x f))"
    "fifo_contents (snd (fifo_push x f)) = (if fst (fifo_push x f) then fifo_contents f @ [x] else fifo_contents f)"
    unfolding push using full assms fifo_write_slot [OF assms, of x] fifo_publish [of ?f] by auto
qed

lemma fifo_pop_cases:
  assumes "fifo_inv f"
  shows "fifo_inv (snd (fifo_pop f))"
    "fst (fifo_pop f) = (case fifo_contents f of [] \<Rightarrow> None | x # xs \<Rightarrow> Some x)"
    "fifo_contents (snd (fifo_pop f)) = tl (fifo_contents f)"
proof -
  have "fifo_inv (snd (fifo_pop f)) \<and> fst (fifo_pop f) = (case fifo_contents f of [] \<Rightarrow> None | x # xs \<Rightarrow> Some x)
      \<and> fifo_contents (snd (fifo_pop f)) = tl (fifo_contents f)"
  proof (cases "fifo_in f = fifo_out f")
    case True
    then have "fifo_contents f = []" using fifo_empty_iff [OF assms] by (simp add: fifo_contents_Nil_iff)
    then show ?thesis using True assms by (simp add: fifo_pop_def)
  next
    case False
    then have "0 < fifo_used f" using fifo_empty_iff [OF assms] by simp
    from fifo_consume [OF assms this] show ?thesis using False by (simp add: fifo_pop_def Let_def)
  qed
  then show "fifo_inv (snd (fifo_pop f))"
    "fst (fifo_pop f) = (case fifo_contents f of [] \<Rightarrow> None | x # xs \<Rightarrow> Some x)"
    "fifo_contents (snd (fifo_pop f)) = tl (fifo_contents f)" by blast+
qed

interpretation fifoq: queue fifo_inv fifo_contents fifo_push fifo_pop
  by unfold_locales (simp_all add: fifo_push_cases fifo_pop_cases)

end
