(* ===== verification/Fifo_Threads.thy ===== *)
theory Fifo_Threads
  imports Fifo_Ring
begin

text \<open>
  The producer and the consumer of \<^verbatim>\<open>main\<close> in \<^verbatim>\<open>src/Concurrency/Fifo.cpp\<close>, running \<^verbatim>\<open>push\<close> and \<^verbatim>\<open>pop\<close> of \<^verbatim>\<open>Fifo\<close>
  at the same time. Every step is one access to a shared location; a thread's local variables are in
  its program counter. The properties hold for every interleaving.
\<close>

section \<open>Two threads\<close>

text \<open>\<^verbatim>\<open>push\<close> before its first load; with \<^verbatim>\<open>in\<close> loaded; after the check; with the slot written.\<close>

datatype push_pc = P_start | P_check u64 | P_write u64 | P_publish u64

text \<open>\<^verbatim>\<open>pop\<close> before its first load; with \<^verbatim>\<open>in\<close> loaded; with \<^verbatim>\<open>out\<close> loaded and compared; with the element moved out.\<close>

datatype 'a pop_pc = C_start | C_check u64 | C_read u64 | C_publish u64 'a

record 'a fifo_sys =
  rg :: "'a fifo"
  todo :: "'a list"
  push_at :: push_pc
  quota :: nat
  got :: "'a list"
  pop_at :: "'a pop_pc"

definition fifo_start :: "'a list \<Rightarrow> 'a list \<Rightarrow> 'a fifo_sys" where
  "fifo_start b vs = \<lparr>rg = fifo_new b, todo = vs, push_at = P_start, quota = length vs, got = [], pop_at = C_start\<rparr>"

text \<open>The producer retries a push that failed; \<open>None\<close> when all values are pushed.\<close>

definition producer_step :: "'a fifo_sys \<Rightarrow> 'a fifo_sys option" where
  "producer_step s =
  (case todo s of [] \<Rightarrow> None
   | c # cs \<Rightarrow> Some
     (case push_at s of
        P_start \<Rightarrow> s\<lparr>push_at := P_check (fifo_in (rg s))\<rparr>
      | P_check i \<Rightarrow>
          if (i + 1) AND fifo_mask (rg s) = fifo_out (rg s) then s\<lparr>push_at := P_start\<rparr>
          else s\<lparr>push_at := P_write i\<rparr>
      | P_write i \<Rightarrow>
          s\<lparr>rg := (rg s)\<lparr>fifo_buffer := (fifo_buffer (rg s))[unat i := c]\<rparr>, push_at := P_publish i\<rparr>
      | P_publish i \<Rightarrow>
          s\<lparr>rg := (rg s)\<lparr>fifo_in := (i + 1) AND fifo_mask (rg s)\<rparr>, todo := cs, push_at := P_start\<rparr>))"

text \<open>The consumer retries a pop that returned nothing; \<open>None\<close> when it has its number of values.\<close>

definition consumer_step :: "'a fifo_sys \<Rightarrow> 'a fifo_sys option" where
  "consumer_step s =
  (if quota s = 0 then None
   else Some
     (case pop_at s of
        C_start \<Rightarrow> s\<lparr>pop_at := C_check (fifo_in (rg s))\<rparr>
      | C_check i \<Rightarrow>
          if i = fifo_out (rg s) then s\<lparr>pop_at := C_start\<rparr>
          else s\<lparr>pop_at := C_read (fifo_out (rg s))\<rparr>
      | C_read out \<Rightarrow> s\<lparr>pop_at := C_publish out (fifo_buffer (rg s) ! unat out)\<rparr>
      | C_publish out v \<Rightarrow>
          s\<lparr>rg := (rg s)\<lparr>fifo_out := (out + 1) AND fifo_mask (rg s)\<rparr>,
            got := got s @ [v], quota := quota s - 1, pop_at := C_start\<rparr>))"

inductive fifo_step :: "'a fifo_sys \<Rightarrow> 'a fifo_sys \<Rightarrow> bool" where
  producer: "producer_step s = Some s' \<Longrightarrow> fifo_step s s'"
| consumer: "consumer_step s = Some s' \<Longrightarrow> fifo_step s s'"

inductive_cases fifo_stepE: "fifo_step s s'"

text \<open>
  A thread alone runs its operation as the function does.
\<close>

lemma producer_runs_push:
  assumes "todo s = c # cs" "push_at s = P_start"
  shows "producer_step s = Some s1 \<Longrightarrow> producer_step s1 = Some s2 \<Longrightarrow> \<not> fst (fifo_push c (rg s)) \<Longrightarrow> s2 = s"
    "producer_step s = Some s1 \<Longrightarrow> producer_step s1 = Some s2 \<Longrightarrow> producer_step s2 = Some s3 \<Longrightarrow> producer_step s3 = Some s4 \<Longrightarrow>
      fst (fifo_push c (rg s)) \<Longrightarrow> s4 = s\<lparr>rg := snd (fifo_push c (rg s)), todo := cs\<rparr>"
  using assms by (auto simp: producer_step_def fifo_push_def Let_def fifo_mask_def split: if_splits)

lemma consumer_runs_pop:
  assumes "0 < quota s" "pop_at s = C_start"
  shows "consumer_step s = Some s1 \<Longrightarrow> consumer_step s1 = Some s2 \<Longrightarrow> fst (fifo_pop (rg s)) = None \<Longrightarrow> s2 = s"
    "consumer_step s = Some s1 \<Longrightarrow> consumer_step s1 = Some s2 \<Longrightarrow> consumer_step s2 = Some s3 \<Longrightarrow> consumer_step s3 = Some s4 \<Longrightarrow>
      fst (fifo_pop (rg s)) = Some v \<Longrightarrow>
      s4 = s\<lparr>rg := snd (fifo_pop (rg s)), got := got s @ [v], quota := quota s - 1\<rparr>"
  using assms by (auto simp: consumer_step_def fifo_pop_def Let_def split: if_splits)

section \<open>The invariant of all interleavings\<close>

definition push_at_ok :: "'a fifo \<Rightarrow> 'a list \<Rightarrow> push_pc \<Rightarrow> bool" where
  "push_at_ok f cs pc =
  (case pc of P_start \<Rightarrow> True
   | P_check i \<Rightarrow> i = fifo_in f
   | P_write i \<Rightarrow> i = fifo_in f \<and> Suc (fifo_used f) < length (fifo_buffer f)
   | P_publish i \<Rightarrow> i = fifo_in f \<and> Suc (fifo_used f) < length (fifo_buffer f) \<and> cs \<noteq> [] \<and> fifo_buffer f ! unat i = hd cs)"

definition pop_at_ok :: "'a fifo \<Rightarrow> 'a pop_pc \<Rightarrow> bool" where
  "pop_at_ok f pc =
  (case pc of C_start \<Rightarrow> True
   | C_check i \<Rightarrow> i \<noteq> fifo_out f \<longrightarrow> 0 < fifo_used f
   | C_read out \<Rightarrow> out = fifo_out f \<and> 0 < fifo_used f
   | C_publish out v \<Rightarrow> out = fifo_out f \<and> 0 < fifo_used f \<and> v = fifo_buffer f ! unat out)"

definition fifo_sys_inv :: "'a list \<Rightarrow> 'a fifo_sys \<Rightarrow> bool" where
  "fifo_sys_inv vs s \<longleftrightarrow> fifo_inv (rg s) \<and> vs = got s @ fifo_contents (rg s) @ todo s \<and>
    length vs = length (got s) + quota s \<and>
    push_at_ok (rg s) (todo s) (push_at s) \<and> pop_at_ok (rg s) (pop_at s)"

lemma fifo_start_inv:
  assumes "length b < 2 ^ 64" "fifo_size_ok (of_nat (length b))"
  shows "fifo_sys_inv vs (fifo_start b vs)"
  using fifo_new_inv [OF assms] by (simp add: fifo_sys_inv_def fifo_start_def push_at_ok_def pop_at_ok_def)

lemma producer_step_inv:
  assumes "fifo_sys_inv vs s" "producer_step s = Some s'"
  shows "fifo_sys_inv vs s'"
proof -
  obtain c cs where cs: "todo s = c # cs" using assms(2) by (auto simp: producer_step_def split: list.splits)
  have inv: "fifo_inv (rg s)" and ok: "push_at_ok (rg s) (todo s) (push_at s)" "pop_at_ok (rg s) (pop_at s)"
    using assms(1) by (auto simp: fifo_sys_inv_def)
  show ?thesis
  proof (cases "push_at s")
    case P_start
    then show ?thesis using assms cs by (auto simp: producer_step_def fifo_sys_inv_def push_at_ok_def)
  next
    case (P_check i)
    then show ?thesis
      using assms cs fifo_full_iff [OF inv] fifo_used_less [OF inv]
      by (auto simp: producer_step_def fifo_sys_inv_def push_at_ok_def split: if_splits)
  next
    case (P_write i)
    let ?f = "(rg s)\<lparr>fifo_buffer := (fifo_buffer (rg s))[unat (fifo_in (rg s)) := c]\<rparr>"
    have i: "i = fifo_in (rg s)" "Suc (fifo_used (rg s)) < length (fifo_buffer (rg s))"
      using ok P_write by (auto simp: push_at_ok_def)
    have u: "fifo_used ?f = fifo_used (rg s)" by (simp add: fifo_used_def Let_def)
    have "pop_at_ok ?f (pop_at s)"
    proof -
      have "fifo_in (rg s) \<noteq> fifo_out (rg s)" if "0 < fifo_used (rg s)" using that fifo_empty_iff [OF inv] by simp
      then show ?thesis using ok(2) u by (auto simp: pop_at_ok_def word_unat_eq_iff split: pop_pc.splits)
    qed
    moreover have "push_at_ok ?f (todo s) (P_publish i)"
      using i u inv cs by (simp add: push_at_ok_def fifo_inv_def)
    ultimately show ?thesis
      using assms cs P_write i fifo_write_slot [OF inv, of c] by (auto simp: producer_step_def fifo_sys_inv_def)
  next
    case (P_publish i)
    let ?f = "(rg s)\<lparr>fifo_in := (fifo_in (rg s) + 1) AND fifo_mask (rg s)\<rparr>"
    have i: "i = fifo_in (rg s)" "Suc (fifo_used (rg s)) < length (fifo_buffer (rg s))" "fifo_buffer (rg s) ! unat i = c"
      using ok P_publish cs by (auto simp: push_at_ok_def)
    note pub = fifo_publish [OF inv i(2)]
    have "pop_at_ok ?f (pop_at s)"
      using ok(2) pub(2) by (auto simp: pop_at_ok_def split: pop_pc.splits)
    moreover have "push_at_ok ?f cs P_start" by (simp add: push_at_ok_def)
    ultimately show ?thesis
      using assms cs P_publish i pub by (auto simp: producer_step_def fifo_sys_inv_def)
  qed
qed

lemma consumer_step_inv:
  assumes "fifo_sys_inv vs s" "consumer_step s = Some s'"
  shows "fifo_sys_inv vs s'"
proof -
  have q: "0 < quota s" using assms(2) by (auto simp: consumer_step_def split: if_splits)
  have inv: "fifo_inv (rg s)" and ok: "push_at_ok (rg s) (todo s) (push_at s)" "pop_at_ok (rg s) (pop_at s)"
    using assms(1) by (auto simp: fifo_sys_inv_def)
  show ?thesis
  proof (cases "pop_at s")
    case (C_publish out v)
    let ?f = "(rg s)\<lparr>fifo_out := (fifo_out (rg s) + 1) AND fifo_mask (rg s)\<rparr>"
    have o: "out = fifo_out (rg s)" "0 < fifo_used (rg s)" "v = fifo_buffer (rg s) ! unat out"
      using ok(2) C_publish by (auto simp: pop_at_ok_def)
    note con = fifo_consume [OF inv o(2)]
    have "push_at_ok ?f (todo s) (push_at s)"
      using ok(1) con(2) by (auto simp: push_at_ok_def split: push_pc.splits)
    moreover have "pop_at_ok ?f C_start" by (simp add: pop_at_ok_def)
    ultimately show ?thesis
      using assms q C_publish o con by (auto simp: consumer_step_def fifo_sys_inv_def)
  qed (use assms q ok fifo_empty_iff [OF inv] in \<open>auto simp: consumer_step_def fifo_sys_inv_def pop_at_ok_def split: if_splits\<close>)
qed

lemma fifo_step_inv: "fifo_step s s' \<Longrightarrow> fifo_sys_inv vs s \<Longrightarrow> fifo_sys_inv vs s'"
  by (elim fifo_stepE) (auto intro: producer_step_inv consumer_step_inv)

lemma fifo_steps_inv: "fifo_step\<^sup>*\<^sup>* s s' \<Longrightarrow> fifo_sys_inv vs s \<Longrightarrow> fifo_sys_inv vs s'"
  by (induction rule: rtranclp_induct) (auto intro: fifo_step_inv)

section \<open>Completion\<close>

text \<open>
  In every state some thread has a step towards the end: the consumer when there is an element, the
  producer otherwise. The rank counts the accesses that thread still has to make.
\<close>

definition fifo_rank :: "'a fifo_sys \<Rightarrow> nat" where
  "fifo_rank s =
  (if 0 < fifo_used (rg s)
   then case pop_at s of C_publish _ _ \<Rightarrow> 0 | C_read _ \<Rightarrow> 1 | C_check i \<Rightarrow> (if i = fifo_out (rg s) then 4 else 2) | C_start \<Rightarrow> 3
   else case push_at s of P_publish _ \<Rightarrow> 0 | P_write _ \<Rightarrow> 1 | P_check _ \<Rightarrow> 2 | P_start \<Rightarrow> 3)"

lemma fifo_rank_le: "fifo_rank s \<le> 4"
  by (simp add: fifo_rank_def split: pop_pc.splits push_pc.splits)

definition fifo_distance :: "'a fifo_sys \<Rightarrow> nat" where
  "fifo_distance s = 5 * (quota s + length (todo s)) + fifo_rank s"

lemma consumer_progress:
  assumes "fifo_sys_inv vs s" "0 < fifo_used (rg s)"
  shows "\<exists>s'. consumer_step s = Some s' \<and> fifo_distance s' < fifo_distance s"
proof -
  have inv: "fifo_inv (rg s)" and ok: "pop_at_ok (rg s) (pop_at s)"
    and len: "length vs = length (got s) + quota s" "vs = got s @ fifo_contents (rg s) @ todo s"
    using assms(1) by (auto simp: fifo_sys_inv_def)
  have "fifo_contents (rg s) \<noteq> []" using assms(2) by (simp add: fifo_contents_Nil_iff)
  then have q: "0 < quota s" using len by (cases "quota s") auto
  show ?thesis
  proof (cases "pop_at s")
    case (C_publish out v)
    let ?s = "s\<lparr>rg := (rg s)\<lparr>fifo_out := (out + 1) AND fifo_mask (rg s)\<rparr>,
        got := got s @ [v], quota := quota s - 1, pop_at := C_start\<rparr>"
    have "consumer_step s = Some ?s" using q C_publish by (simp add: consumer_step_def)
    moreover have "fifo_distance ?s < fifo_distance s"
      using fifo_rank_le [of ?s] q by (simp add: fifo_distance_def)
    ultimately show ?thesis by blast
  qed (use assms q fifo_empty_iff [OF inv] in \<open>auto simp: consumer_step_def fifo_distance_def fifo_rank_def\<close>)
qed

lemma producer_progress:
  assumes "fifo_sys_inv vs s" "fifo_used (rg s) = 0" "todo s \<noteq> []"
  shows "\<exists>s'. producer_step s = Some s' \<and> fifo_distance s' < fifo_distance s"
proof -
  have inv: "fifo_inv (rg s)" and ok: "push_at_ok (rg s) (todo s) (push_at s)" using assms(1) by (auto simp: fifo_sys_inv_def)
  obtain c cs where cs: "todo s = c # cs" using assms(3) by (cases "todo s") auto
  show ?thesis
  proof (cases "push_at s")
    case (P_publish i)
    let ?s = "s\<lparr>rg := (rg s)\<lparr>fifo_in := (i + 1) AND fifo_mask (rg s)\<rparr>, todo := cs, push_at := P_start\<rparr>"
    have "producer_step s = Some ?s" using P_publish cs by (simp add: producer_step_def)
    moreover have "fifo_distance ?s < fifo_distance s"
      using fifo_rank_le [of ?s] cs by (simp add: fifo_distance_def)
    ultimately show ?thesis by blast
  next
    case (P_write i)
    have "fifo_used ((rg s)\<lparr>fifo_buffer := (fifo_buffer (rg s))[unat i := c]\<rparr>) = 0"
      using assms(2) unfolding fifo_used_def by (simp add: Let_def split: if_splits)
    then show ?thesis using assms(2) cs P_write by (simp add: producer_step_def fifo_distance_def fifo_rank_def)
  next
    case (P_check i)
    then show ?thesis
      using assms(2) cs ok fifo_full_iff [OF inv] fifo_inv_two [OF inv]
      by (auto simp: producer_step_def push_at_ok_def fifo_distance_def fifo_rank_def)
  qed (use assms(2) cs in \<open>auto simp: producer_step_def fifo_distance_def fifo_rank_def\<close>)
qed

lemma fifo_completes:
  assumes "fifo_sys_inv vs s"
  shows "\<exists>s'. fifo_step\<^sup>*\<^sup>* s s' \<and> got s' = vs \<and> quota s' = 0 \<and> todo s' = []"
  using assms
proof (induction "fifo_distance s" arbitrary: s rule: less_induct)
  case less
  have len: "length vs = length (got s) + quota s" "vs = got s @ fifo_contents (rg s) @ todo s"
    using less.prems by (auto simp: fifo_sys_inv_def)
  show ?case
  proof (cases "fifo_used (rg s) = 0 \<and> todo s = []")
    case True
    then have "vs = got s" using len(2) by (simp add: fifo_contents_def)
    moreover from this have "quota s = 0" using len(1) by simp
    ultimately show ?thesis using True by blast
  next
    case False
    then obtain s' where "fifo_step s s'" "fifo_distance s' < fifo_distance s"
      using producer_progress [OF less.prems] consumer_progress [OF less.prems]
      by (metis fifo_step.intros not_gr_zero)
    then show ?thesis
      using less.hyps [of s'] fifo_step_inv [OF _ less.prems] by (metis converse_rtranclp_into_rtranclp)
  qed
qed

section \<open>What the program relies on\<close>

text \<open>
  C27. For every interleaving of the producer and the consumer of \<^verbatim>\<open>Fifo.cpp\<close>, at every moment: the values
  received, those in the ring and those still to push are, in this order, the values of the producer;
  the ring holds fewer than \<^verbatim>\<open>SIZE\<close> elements and its indices are in bounds; and the producer never writes the slot
  the consumer is reading.
\<close>

theorem fifo_interleavings:
  assumes "length b < 2 ^ 64" "fifo_size_ok (of_nat (length b))" "fifo_step\<^sup>*\<^sup>* (fifo_start b vs) s"
  shows "vs = got s @ fifo_contents (rg s) @ todo s \<and>
    length (fifo_contents (rg s)) < length (fifo_buffer (rg s)) \<and>
    unat (fifo_in (rg s)) < length (fifo_buffer (rg s)) \<and> unat (fifo_out (rg s)) < length (fifo_buffer (rg s)) \<and>
    (push_at s = P_write i \<and> pop_at s = C_read j \<longrightarrow> i \<noteq> j)"
proof -
  have "fifo_sys_inv vs s" using fifo_steps_inv [OF assms(3) fifo_start_inv [OF assms(1,2)]] .
  then show ?thesis
    using fifo_used_less [of "rg s"] fifo_empty_iff [of "rg s"]
    by (auto simp: fifo_sys_inv_def fifo_inv_def fifo_contents_def push_at_ok_def pop_at_ok_def)
qed

theorem fifo_interleavings_witness:
  "\<exists>s. fifo_step\<^sup>*\<^sup>* (fifo_start [0, 0, 0, 0] [7::nat, 8]) s \<and> todo s = [8] \<and> pop_at s = C_read 0 \<and>
     [7, 8] = got s @ fifo_contents (rg s) @ todo s"
proof -
  let ?s0 = "fifo_start [0::nat, 0, 0, 0] [7, 8]"
  define s1 where "s1 = the (producer_step ?s0)"
  define s2 where "s2 = the (producer_step s1)"
  define s3 where "s3 = the (producer_step s2)"
  define s4 where "s4 = the (producer_step s3)"
  define s5 where "s5 = the (consumer_step s4)"
  define s6 where "s6 = the (consumer_step s5)"
  note defs = s1_def s2_def s3_def s4_def s5_def s6_def
  note ev = defs producer_step_def consumer_step_def fifo_start_def fifo_new_def fifo_mask_def
  have "fifo_step ?s0 s1" "fifo_step s1 s2" "fifo_step s2 s3" "fifo_step s3 s4"
    by (rule producer, simp add: ev)+
  moreover have "fifo_step s4 s5" "fifo_step s5 s6" by (rule consumer, simp add: ev)+
  ultimately have r: "fifo_step\<^sup>*\<^sup>* ?s0 s6" by (meson converse_rtranclp_into_rtranclp rtranclp.rtrancl_refl)
  have "todo s6 = [8]" "pop_at s6 = C_read 0" by (simp_all add: ev)
  moreover have "[7, 8] = got s6 @ fifo_contents (rg s6) @ todo s6"
    using fifo_interleavings [OF _ _ r] by (simp add: fifo_size_ok_def)
  ultimately show ?thesis using r by blast
qed

text \<open>
  C28. The two threads of \<^verbatim>\<open>Fifo.cpp\<close> cannot block each other: from every state that any interleaving
  reaches, the program can still run to the end, where both loops are done and the consumer has received every
  value in the producer's order.
\<close>

theorem fifo_can_finish:
  assumes "length b < 2 ^ 64" "fifo_size_ok (of_nat (length b))" "fifo_step\<^sup>*\<^sup>* (fifo_start b vs) s"
  shows "\<exists>s'. fifo_step\<^sup>*\<^sup>* s s' \<and> got s' = vs \<and> quota s' = 0 \<and> todo s' = []"
  using fifo_completes [OF fifo_steps_inv [OF assms(3) fifo_start_inv [OF assms(1,2)]]] .

theorem fifo_can_finish_witness:
  "\<exists>s'. fifo_step\<^sup>*\<^sup>* (fifo_start [0, 0] [7::nat, 8]) s' \<and> got s' = [7, 8] \<and> quota s' = 0 \<and> todo s' = []"
proof -
  have "fifo_size_ok (of_nat (length [0::nat, 0]))" by (simp add: fifo_size_ok_def)
  then show ?thesis using fifo_can_finish [of "[0, 0]" "[7, 8]" "fifo_start [0, 0] [7, 8]"] by simp
qed

section \<open>The assertions of main\<close>

definition fifo_count :: u64 where
  "fifo_count = 100000000"

text \<open>The producer pushes \<^verbatim>\<open>iota(1) | take(count)\<close>.\<close>

definition fifo_main :: "u64 list \<Rightarrow> u64 fifo_sys" where
  "fifo_main b = fifo_start b (map of_nat [1..<Suc (unat fifo_count)])"

text \<open>The consumer holds a value in an \<^verbatim>\<open>optional<int>\<close>: it is cut to 32 bits and sign-extended when it is used.\<close>

definition through_int :: "u64 \<Rightarrow> u64" where
  "through_int v = scast (ucast v :: i32)"

fun checkpoint1 :: "u64 \<Rightarrow> u64 list \<Rightarrow> bool" where
  "checkpoint1 prev [] = True"
| "checkpoint1 prev (v # vs) = (let val = through_int v in prev + 1 = val \<and> checkpoint1 val vs)"

definition g_value :: "u64 list \<Rightarrow> u64" where
  "g_value vs = sum_list (map through_int vs)"

lemma through_int_small:
  assumes "unat v < 2 ^ 31"
  shows "through_int v = v"
proof (rule word_unat_eq_iff [THEN iffD2])
  have "\<not> bit v 31"
  proof
    assume "bit v 31"
    then have "bit (unat v) 31" by (simp add: bit_unsigned_iff)
    then show False using assms by (simp add: bit_iff_odd)
  qed
  moreover have "\<not> bit v n" if "31 \<le> n" for n
  proof
    assume "bit v n"
    then have "odd (unat v div 2 ^ n)" by (simp add: bit_unsigned_iff flip: bit_iff_odd)
    moreover have "(2::nat) ^ 31 \<le> 2 ^ n" using that by (intro power_increasing) auto
    ultimately show False using assms by simp
  qed
  ultimately have "through_int v = v"
    unfolding through_int_def by (intro bit_word_eqI) (auto simp: bit_simps min_def)
  then show "unat (through_int v) = unat v" by simp
qed

lemma checkpoint1_iota:
  assumes "m + k < 2 ^ 31"
  shows "checkpoint1 (of_nat m) (map of_nat [Suc m..<Suc (m + k)])"
  using assms
proof (induction k arbitrary: m)
  case (Suc k)
  have "[Suc m..<Suc (m + Suc k)] = Suc m # [Suc (Suc m)..<Suc (Suc m + k)]" by (simp add: upt_conv_Cons del: upt_Suc)
  moreover have "through_int (of_nat (Suc m)) = of_nat (Suc m)"
    using Suc.prems by (intro through_int_small) (simp add: unat_of_nat_less del: of_nat_Suc)
  ultimately show ?case using Suc.IH [of "Suc m"] Suc.prems by (simp add: add.commute del: upt_Suc)
qed simp

lemma g_value_iota:
  assumes "k < 2 ^ 31"
  shows "g_value (map of_nat [1..<Suc k]) = of_nat (k * Suc k div 2)"
proof -
  have "map (through_int \<circ> of_nat) [1..<Suc k] = map of_nat [1..<Suc k]"
    using assms by (intro map_cong refl) (auto intro!: through_int_small simp: unat_of_nat_less)
  moreover have "sum_list [1..<Suc k] = k * Suc k div 2"
    by (induction k) (simp_all add: algebra_simps)
  moreover have "sum_list (map of_nat ns) = (of_nat (sum_list ns) :: u64)" for ns
    by (induction ns) simp_all
  ultimately show ?thesis by (simp only: g_value_def map_map)
qed

lemma fifo_main_inv:
  assumes "length b = 2 ^ 20"
  shows "fifo_sys_inv (map of_nat [1..<Suc (unat fifo_count)]) (fifo_main b)"
  unfolding fifo_main_def by (rule fifo_start_inv) (simp_all add: assms fifo_size_ok_def)

lemma iota_prefix:
  assumes "map of_nat [1..<Suc n] = xs @ ys"
  shows "xs = map of_nat [1..<Suc (length xs)]" "length xs \<le> n"
proof -
  show len: "length xs \<le> n" using arg_cong [OF assms, of length] by (simp del: upt_Suc)
  have "xs = take (length xs) (map of_nat [1..<Suc n])" using assms by simp
  also have "\<dots> = map of_nat [1..<Suc (length xs)]" using len by (simp add: take_map del: upt_Suc)
  finally show "xs = map of_nat [1..<Suc (length xs)]" .
qed

text \<open>
  C29. The two assertions of \<^verbatim>\<open>main\<close> in \<^verbatim>\<open>Fifo.cpp\<close> hold in every interleaving: every value the consumer takes is
  one more than the previous one, and when it has taken all of them \<^verbatim>\<open>g_value\<close> is \<^verbatim>\<open>(count + 1) * count / 2\<close>; neither
  the \<^verbatim>\<open>int\<close> the consumer holds a value in nor the sum overflows.
\<close>

theorem fifo_main_assertions:
  assumes "length b = 2 ^ 20" "fifo_step\<^sup>*\<^sup>* (fifo_main b) s"
  shows "checkpoint1 0 (got s) \<and> (quota s = 0 \<longrightarrow> g_value (got s) = (fifo_count + 1) * fifo_count div 2)"
proof -
  let ?n = "unat fifo_count"
  have n: "?n = 100000000" by (simp add: fifo_count_def)
  have inv: "fifo_sys_inv (map of_nat [1..<Suc ?n]) s" using fifo_steps_inv [OF assms(2) fifo_main_inv [OF assms(1)]] .
  then have "map of_nat [1..<Suc ?n] = got s @ fifo_contents (rg s) @ todo s" "?n = length (got s) + quota s"
    by (simp_all only: fifo_sys_inv_def length_map length_upt) simp
  note got = iota_prefix [OF this(1)] this(2)
  have "checkpoint1 (of_nat 0) (map of_nat [Suc 0..<Suc (0 + length (got s))])"
    using got(2) n by (intro checkpoint1_iota) simp
  then have "checkpoint1 0 (got s)" by (subst got(1)) (simp del: upt_Suc)
  moreover have "g_value (got s) = (fifo_count + 1) * fifo_count div 2" if "quota s = 0"
  proof -
    have len: "length (got s) = 100000000" using got(3) n that by linarith
    have "g_value (got s) = of_nat (length (got s) * Suc (length (got s)) div 2)"
      by (subst got(1)) (rule g_value_iota, simp add: len)
    then show ?thesis by (simp add: len fifo_count_def)
  qed
  ultimately show ?thesis by blast
qed

theorem fifo_main_assertions_witness:
  "\<exists>s. fifo_step\<^sup>*\<^sup>* (fifo_main (replicate (2 ^ 20) 0)) s \<and> quota s = 0 \<and> g_value (got s) = 5000000050000000"
proof -
  have len: "length (replicate (2 ^ 20) (0::u64)) = 2 ^ 20" by (rule length_replicate)
  obtain s where s: "fifo_step\<^sup>*\<^sup>* (fifo_main (replicate (2 ^ 20) 0)) s" "quota s = 0"
    using fifo_completes [OF fifo_main_inv [OF len]] by blast
  have "(fifo_count + 1) * fifo_count div 2 = 5000000050000000" by (simp add: fifo_count_def)
  then show ?thesis using fifo_main_assertions [OF len s(1)] s by auto
qed

end
