(* ===== verification/Locked_Queue.thy ===== *)
theory Locked_Queue
  imports Queue_Contract
begin

text \<open>
  The queue under one mutex of \<^verbatim>\<open>src/Concurrency/Queue.cpp\<close> (class \<^verbatim>\<open>Queue\<close>): its operations on the deque, and the
  threads that call them. A critical section is one step, as the mutex makes it; \<^verbatim>\<open>push\<close> releases the
  mutex before it notifies, and a waiter can be woken spuriously, so these are steps of their own.
\<close>

section \<open>The operations\<close>

definition queue_push :: "'a \<Rightarrow> 'a list \<Rightarrow> 'a list" where
  "queue_push value container = container @ [value]"

definition queue_try_pop :: "'a list \<Rightarrow> 'a option \<times> 'a list" where
  "queue_try_pop container = (if container = [] then (None, container) else (Some (hd container), tl container))"

text \<open>One evaluation of the predicate of \<^verbatim>\<open>wait\<close>: \<open>None\<close> when the caller has to sleep.\<close>

definition queue_wait_and_pop :: "'a list \<Rightarrow> ('a \<times> 'a list) option" where
  "queue_wait_and_pop container = (if container \<noteq> [] then Some (hd container, tl container) else None)"

definition queue_empty :: "'a list \<Rightarrow> bool" where
  "queue_empty container \<longleftrightarrow> container = []"

interpretation dequeq: unbounded_queue "\<lambda>_. True" "\<lambda>c. c" "\<lambda>x c. (True, queue_push x c)" queue_try_pop
  by unfold_locales (auto simp: queue_push_def queue_try_pop_def split: list.splits)

section \<open>The threads\<close>

text \<open>
  A thread is outside the queue, in \<^verbatim>\<open>push\<close> between unlocking and notifying, in a wait and about to test
  the predicate under the mutex, or asleep on the condition variable.
\<close>

datatype queue_thread = Idle | Notifying | Testing | Sleeping

record 'a queue_sys =
  container :: "'a list"
  threads :: "queue_thread list"
  pushed :: "'a list"
  popped :: "'a list"

definition queue_start :: "nat \<Rightarrow> 'a queue_sys" where
  "queue_start n = \<lparr>container = [], threads = replicate n Idle, pushed = [], popped = []\<rparr>"

definition thread_at :: "'a queue_sys \<Rightarrow> nat \<Rightarrow> queue_thread \<Rightarrow> bool" where
  "thread_at s t st \<longleftrightarrow> t < length (threads s) \<and> threads s ! t = st"

inductive queue_step :: "'a queue_sys \<Rightarrow> 'a queue_sys \<Rightarrow> bool" where
  push: "thread_at s t Idle \<Longrightarrow>
    queue_step s (s\<lparr>container := queue_push x (container s), pushed := pushed s @ [x], threads := (threads s)[t := Notifying]\<rparr>)"
| notify: "thread_at s t Notifying \<Longrightarrow> thread_at s u Sleeping \<Longrightarrow>
    queue_step s (s\<lparr>threads := (threads s)[t := Idle, u := Testing]\<rparr>)"
| notify_none: "thread_at s t Notifying \<Longrightarrow> Sleeping \<notin> set (threads s) \<Longrightarrow>
    queue_step s (s\<lparr>threads := (threads s)[t := Idle]\<rparr>)"
| try_pop: "thread_at s t Idle \<Longrightarrow> queue_try_pop (container s) = (Some x, c) \<Longrightarrow>
    queue_step s (s\<lparr>container := c, popped := popped s @ [x]\<rparr>)"
| wait_call: "thread_at s t Idle \<Longrightarrow> queue_step s (s\<lparr>threads := (threads s)[t := Testing]\<rparr>)"
| wait_sleep: "thread_at s t Testing \<Longrightarrow> queue_wait_and_pop (container s) = None \<Longrightarrow>
    queue_step s (s\<lparr>threads := (threads s)[t := Sleeping]\<rparr>)"
| wait_pop: "thread_at s t Testing \<Longrightarrow> queue_wait_and_pop (container s) = Some (x, c) \<Longrightarrow>
    queue_step s (s\<lparr>container := c, popped := popped s @ [x], threads := (threads s)[t := Idle]\<rparr>)"
| spurious: "thread_at s t Sleeping \<Longrightarrow> queue_step s (s\<lparr>threads := (threads s)[t := Testing]\<rparr>)"

text \<open>The threads that will look at the container or wake another thread.\<close>

definition active :: "queue_thread list \<Rightarrow> nat" where
  "active ts = count_list ts Testing + count_list ts Notifying"

definition queue_sys_inv :: "'a queue_sys \<Rightarrow> bool" where
  "queue_sys_inv s \<longleftrightarrow> pushed s = popped s @ container s \<and>
    (Sleeping \<in> set (threads s) \<longrightarrow> length (container s) \<le> active (threads s))"

lemma count_list_update:
  "t < length ts \<Longrightarrow> count_list (ts[t := v]) w + (if ts ! t = w then 1 else 0) = count_list ts w + (if v = w then 1 else 0)"
proof (induction ts arbitrary: t)
  case (Cons a ts)
  show ?case
  proof (cases t)
    case (Suc t')
    then show ?thesis using Cons.IH [of t'] Cons.prems by auto
  qed auto
qed simp

lemma active_update:
  assumes "t < length ts"
  shows "active (ts[t := v]) + (if ts ! t \<in> {Testing, Notifying} then 1 else 0) =
    active ts + (if v \<in> {Testing, Notifying} then 1 else 0)"
  using count_list_update [OF assms, of v Testing] count_list_update [OF assms, of v Notifying]
  by (auto simp: active_def split: if_splits)

lemma sleeping_update: "Sleeping \<in> set (ts[t := v]) \<Longrightarrow> v \<noteq> Sleeping \<Longrightarrow> Sleeping \<in> set ts"
  using set_update_subset_insert [of ts t v] by blast

lemma queue_step_inv:
  assumes "queue_step s s'" "queue_sys_inv s"
  shows "queue_sys_inv s'"
  using assms
proof (induction rule: queue_step.induct)
  case (push s t x)
  then show ?case
    using active_update [of t "threads s" Notifying]
    by (auto simp: queue_sys_inv_def thread_at_def queue_push_def dest: sleeping_update)
next
  case (notify s t u)
  have "t \<noteq> u" using notify.hyps by (auto simp: thread_at_def)
  then show ?case
    using notify active_update [of t "threads s" Idle] active_update [of u "(threads s)[t := Idle]" Testing]
    by (auto simp: queue_sys_inv_def thread_at_def in_set_conv_nth)
next
  case (notify_none s t)
  then show ?case by (auto simp: queue_sys_inv_def dest: sleeping_update)
next
  case (try_pop s t x c)
  then show ?case by (auto simp: queue_sys_inv_def queue_try_pop_def split: if_splits)
next
  case (wait_call s t)
  then show ?case
    using active_update [of t "threads s" Testing] by (auto simp: queue_sys_inv_def thread_at_def dest: sleeping_update)
next
  case (wait_sleep s t)
  then show ?case by (auto simp: queue_sys_inv_def queue_wait_and_pop_def split: if_splits)
next
  case (wait_pop s t x c)
  then show ?case
    using active_update [of t "threads s" Idle]
    by (auto simp: queue_sys_inv_def thread_at_def queue_wait_and_pop_def split: if_splits dest: sleeping_update)
next
  case (spurious s t)
  then show ?case
    using active_update [of t "threads s" Testing] by (auto simp: queue_sys_inv_def thread_at_def dest: sleeping_update)
qed

lemma queue_steps_inv: "queue_step\<^sup>*\<^sup>* s s' \<Longrightarrow> queue_sys_inv s \<Longrightarrow> queue_sys_inv s'"
  by (induction rule: rtranclp_induct) (auto intro: queue_step_inv)

lemma queue_start_inv: "queue_sys_inv (queue_start n)"
  by (simp add: queue_sys_inv_def queue_start_def)

text \<open>
  C30. The mutex-protected \<^verbatim>\<open>Queue\<close> under any number of threads, any schedule and spurious wake-ups: what was popped,
  followed by what is in the deque, is what was pushed, in order; and no wake-up is lost: while some
  thread sleeps in \<^verbatim>\<open>wait_and_pop\<close> there are at least as many threads about to test the predicate or about to
  notify as there are elements in the deque.
\<close>

theorem queue_fifo_and_wakeups:
  assumes "queue_step\<^sup>*\<^sup>* (queue_start n) s"
  shows "pushed s = popped s @ container s \<and>
    (Sleeping \<in> set (threads s) \<longrightarrow> length (container s) \<le> active (threads s))"
  using queue_steps_inv [OF assms queue_start_inv] by (simp add: queue_sys_inv_def)

theorem queue_fifo_and_wakeups_witness:
  "\<exists>s. queue_step\<^sup>*\<^sup>* (queue_start 2) s \<and> container s = [5::nat] \<and> threads s = [Sleeping, Notifying] \<and> 1 \<le> active (threads s)"
proof -
  define s1 :: "nat queue_sys" where "s1 = \<lparr>container = [], threads = [Testing, Idle], pushed = [], popped = []\<rparr>"
  define s2 :: "nat queue_sys" where "s2 = \<lparr>container = [], threads = [Sleeping, Idle], pushed = [], popped = []\<rparr>"
  define s3 :: "nat queue_sys" where "s3 = \<lparr>container = [5], threads = [Sleeping, Notifying], pushed = [5], popped = []\<rparr>"
  have "queue_step (queue_start 2) s1"
    using queue_step.wait_call [of "queue_start 2 :: nat queue_sys" 0] by (simp add: queue_start_def thread_at_def s1_def numeral_2_eq_2)
  moreover have "queue_step s1 s2"
    using queue_step.wait_sleep [of s1 0] by (simp add: thread_at_def s1_def s2_def queue_wait_and_pop_def)
  moreover have "queue_step s2 s3"
    using queue_step.push [of s2 1 5] by (simp add: thread_at_def s2_def s3_def queue_push_def)
  ultimately have r: "queue_step\<^sup>*\<^sup>* (queue_start 2) s3" by (meson converse_rtranclp_into_rtranclp rtranclp.rtrancl_refl)
  from queue_fifo_and_wakeups [OF this] have "1 \<le> active (threads s3)" by (simp add: s3_def)
  with r show ?thesis by (intro exI [of _ s3]) (simp add: s3_def)
qed

end
