(* ===== verification/Linked_Queue.thy ===== *)
theory Linked_Queue
  imports Locked_Queue
begin

text \<open>
  The linked queue with a dummy node of \<^verbatim>\<open>src/Concurrency/Queue.cpp\<close> (class \<^verbatim>\<open>Queue_v2\<close> and its helper). Nodes live in
  an explicit store, so that aliasing of \<^verbatim>\<open>_head\<close>, \<^verbatim>\<open>_tail\<close> and the \<^verbatim>\<open>next\<close> pointers, the transfer of ownership
  between \<^verbatim>\<open>unique_ptr\<close>s and the deletion of nodes are visible. An access through a null or dangling
  pointer makes an operation \<open>None\<close>.

  \<^verbatim>\<open>push\<close> runs under the tail mutex and is one step. A pop takes the head mutex, copies \<^verbatim>\<open>_tail\<close> under the tail mutex, and
  unlinks the head node with only the head mutex held: pushes can happen between these two steps. What it
  does after unlocking touches only the node it owns.
\<close>

section \<open>The store and the operations\<close>

type_synonym addr = nat

record 'a node =
  node_data :: "'a option"
  node_next :: "addr option"

record 'a queue_v2 =
  nodes :: "addr \<rightharpoonup> 'a node"
  v2_head :: "addr option"
  v2_tail :: addr
  v2_fresh :: addr

definition empty_node :: "'a node" where
  "empty_node = \<lparr>node_data = None, node_next = None\<rparr>"

definition v2_new :: "'a queue_v2" where
  "v2_new = \<lparr>nodes = [0 \<mapsto> empty_node], v2_head = Some 0, v2_tail = 0, v2_fresh = 1\<rparr>"

text \<open>
  Deleting what a \<^verbatim>\<open>unique_ptr\<close> owns deletes the rest of the list behind it; the fuel is the number of
  addresses given out, which bounds the length of a chain.
\<close>

fun delete_nodes :: "nat \<Rightarrow> addr option \<Rightarrow> (addr \<rightharpoonup> 'a node) \<Rightarrow> (addr \<rightharpoonup> 'a node)" where
  "delete_nodes (Suc n) (Some a) H = (case H a of None \<Rightarrow> H | Some nd \<Rightarrow> delete_nodes n (node_next nd) (H(a := None)))"
| "delete_nodes _ _ H = H"

definition v2_push :: "'a \<Rightarrow> 'a queue_v2 \<Rightarrow> 'a queue_v2 option" where
  "v2_push value q =
  (let dummy = v2_fresh q; H = (nodes q)(dummy \<mapsto> empty_node)
   in case H (v2_tail q) of None \<Rightarrow> None
      | Some nd \<Rightarrow>
          let H = delete_nodes (v2_fresh q) (node_next nd) H
          in Some (q\<lparr>nodes := H(v2_tail q \<mapsto> \<lparr>node_data = Some value, node_next = Some dummy\<rparr>),
                     v2_tail := dummy, v2_fresh := Suc dummy\<rparr>))"

definition get_tail_copy :: "'a queue_v2 \<Rightarrow> addr" where
  "get_tail_copy q = v2_tail q"

text \<open>\<^verbatim>\<open>pop_head\<close> after it copied the tail: the node it hands to its caller, if any.\<close>

definition pop_head :: "addr \<Rightarrow> 'a queue_v2 \<Rightarrow> (addr option \<times> 'a queue_v2) option" where
  "pop_head t q =
  (if v2_head q = Some t then Some (None, q)
   else case v2_head q of None \<Rightarrow> None
     | Some h \<Rightarrow>
         (case nodes q h of None \<Rightarrow> None
          | Some nd \<Rightarrow> Some (Some h, q\<lparr>v2_head := node_next nd, nodes := (nodes q)(h \<mapsto> nd\<lparr>node_next := None\<rparr>)\<rparr>)))"

text \<open>The rest of \<^verbatim>\<open>try_pop\<close>: the element, and \<^verbatim>\<open>old\<close> deleted on return.\<close>

definition take_data :: "addr option \<times> 'a queue_v2 \<Rightarrow> ('a option \<times> 'a queue_v2) option" where
  "take_data p =
  (case p of (None, q) \<Rightarrow> Some (None, q)
   | (Some old, q) \<Rightarrow>
       (case nodes q old of None \<Rightarrow> None
        | Some nd \<Rightarrow> (case node_data nd of None \<Rightarrow> None
            | Some x \<Rightarrow> Some (Some x, q\<lparr>nodes := delete_nodes (v2_fresh q) (Some old) (nodes q)\<rparr>))))"

definition v2_try_pop_at :: "addr \<Rightarrow> 'a queue_v2 \<Rightarrow> ('a option \<times> 'a queue_v2) option" where
  "v2_try_pop_at t q = Option.bind (pop_head t q) take_data"

definition v2_try_pop :: "'a queue_v2 \<Rightarrow> ('a option \<times> 'a queue_v2) option" where
  "v2_try_pop q = v2_try_pop_at (get_tail_copy q) q"

section \<open>The list in the store\<close>

text \<open>\<open>chain H as xs\<close>: the nodes at \<open>as\<close> are linked in this order, carry \<open>xs\<close>, and end with a dummy.\<close>

fun chain :: "(addr \<rightharpoonup> 'a node) \<Rightarrow> addr list \<Rightarrow> 'a list \<Rightarrow> bool" where
  "chain H [a] [] \<longleftrightarrow> H a = Some empty_node"
| "chain H (a # b # as) (x # xs) \<longleftrightarrow> H a = Some \<lparr>node_data = Some x, node_next = Some b\<rparr> \<and> chain H (b # as) xs"
| "chain _ _ _ \<longleftrightarrow> False"

text \<open>The store holds exactly the nodes of the list: no node leaks and none dangles.\<close>

definition v2_rep :: "'a queue_v2 \<Rightarrow> addr list \<Rightarrow> 'a list \<Rightarrow> bool" where
  "v2_rep q as xs \<longleftrightarrow> chain (nodes q) as xs \<and> distinct as \<and> dom (nodes q) = set as \<and> (\<forall>a \<in> set as. a < v2_fresh q) \<and>
    v2_head q = Some (hd as) \<and> v2_tail q = last as"

lemma chain_length: "chain H as xs \<Longrightarrow> length as = Suc (length xs)"
  by (induction H as xs rule: chain.induct) auto

lemma chain_cong: "(\<And>a. a \<in> set as \<Longrightarrow> H a = H' a) \<Longrightarrow> chain H as xs = chain H' as xs"
  by (induction H as xs rule: chain.induct) auto

lemma chain_append:
  assumes "chain H as xs" "distinct as" "d \<notin> set as"
  shows "chain (H(d \<mapsto> empty_node, last as \<mapsto> \<lparr>node_data = Some x, node_next = Some d\<rparr>)) (as @ [d]) (xs @ [x])"
  using assms
proof (induction H as xs rule: chain.induct)
  case (2 H a b as y ys)
  then have "last (b # as) \<noteq> a" by (metis distinct.simps(2) last_in_set list.distinct(1))
  then show ?case using 2 by auto
qed auto

lemma chain_last: "chain H as xs \<Longrightarrow> H (last as) = Some empty_node"
  by (induction H as xs rule: chain.induct) auto

lemma v2_new_rep: "v2_rep v2_new [0] []"
  by (simp add: v2_rep_def v2_new_def)

lemma delete_nodes_None [simp]: "delete_nodes n None H = H"
  by (cases n) simp_all

lemma v2_push_rep:
  assumes "v2_rep q as xs"
  shows "\<exists>q'. v2_push x q = Some q' \<and> v2_rep q' (as @ [v2_fresh q]) (xs @ [x]) \<and> v2_head q' = v2_head q"
proof -
  let ?d = "v2_fresh q"
  have c: "chain (nodes q) as xs" and d: "distinct as" and dom: "dom (nodes q) = set as"
    and fr: "\<forall>a \<in> set as. a < ?d" and ht: "v2_head q = Some (hd as)" "v2_tail q = last as"
    using assms by (auto simp: v2_rep_def)
  have ne: "as \<noteq> []" using chain_length [OF c] by auto
  have dn: "?d \<notin> set as" using fr by auto
  have l: "last as \<noteq> ?d" using dn ne by (metis last_in_set)
  define q' where "q' = q\<lparr>nodes := (nodes q)(?d \<mapsto> empty_node, last as \<mapsto> \<lparr>node_data = Some x, node_next = Some ?d\<rparr>),
      v2_tail := ?d, v2_fresh := Suc ?d\<rparr>"
  have "v2_push x q = Some q'"
    using chain_last [OF c] ht(2) l by (simp add: v2_push_def Let_def q'_def empty_node_def)
  moreover have "v2_rep q' (as @ [?d]) (xs @ [x])"
    using chain_append [OF c d dn, of x] d dn dom fr ht ne by (auto simp: v2_rep_def q'_def less_Suc_eq)
  ultimately show ?thesis by (auto simp: q'_def)
qed

text \<open>
  A pop with a copy of the tail taken earlier: the copy is a node of the list. It is the head when the
  list was empty, and any other node otherwise.
\<close>

lemma v2_try_pop_rep:
  assumes "v2_rep q as xs" "t \<in> set as"
  shows "\<exists>q'. v2_try_pop_at t q = (if t = hd as then Some (None, q) else Some (Some (hd xs), q')) \<and>
    (t \<noteq> hd as \<longrightarrow> xs \<noteq> [] \<and> v2_rep q' (tl as) (tl xs))"
proof (cases "t = hd as")
  case True
  then show ?thesis using assms by (simp add: v2_try_pop_at_def pop_head_def v2_rep_def take_data_def)
next
  case False
  have c: "chain (nodes q) as xs" using assms(1) by (simp add: v2_rep_def)
  obtain a b as' x xs' where as: "as = a # b # as'" "xs = x # xs'"
    using c False assms(2) by (cases "(nodes q, as, xs)" rule: chain.cases) auto
  have nd: "nodes q a = Some \<lparr>node_data = Some x, node_next = Some b\<rparr>" "chain (nodes q) (b # as') xs'"
    using c as by auto
  have fr: "v2_fresh q \<noteq> 0" using assms(1) as by (auto simp: v2_rep_def)
  define q' where "q' = q\<lparr>v2_head := Some b, nodes := (nodes q)(a := None)\<rparr>"
  have "v2_try_pop_at t q = Some (Some x, q')"
    using assms(1) as nd False fr
    by (cases "v2_fresh q") (auto simp: v2_try_pop_at_def pop_head_def take_data_def v2_rep_def q'_def)
  moreover have "chain ((nodes q)(a := None)) (b # as') xs'"
    using nd(2) assms(1) as by (subst chain_cong [of _ _ "nodes q"]) (auto simp: v2_rep_def)
  then have "v2_rep q' (b # as') xs'"
    using assms(1) as by (auto simp: v2_rep_def q'_def)
  ultimately show ?thesis using False as by auto
qed

section \<open>The elements, and the queue contract\<close>

fun walk :: "nat \<Rightarrow> (addr \<rightharpoonup> 'a node) \<Rightarrow> addr option \<Rightarrow> addr \<Rightarrow> 'a list" where
  "walk (Suc n) H (Some a) t =
    (if a = t then []
     else case H a of None \<Rightarrow> []
       | Some nd \<Rightarrow> (case node_data nd of None \<Rightarrow> [] | Some x \<Rightarrow> x # walk n H (node_next nd) t))"
| "walk _ _ _ _ = []"

definition v2_contents :: "'a queue_v2 \<Rightarrow> 'a list" where
  "v2_contents q = walk (v2_fresh q) (nodes q) (v2_head q) (v2_tail q)"

definition v2_inv :: "'a queue_v2 \<Rightarrow> bool" where
  "v2_inv q \<longleftrightarrow> (\<exists>as xs. v2_rep q as xs)"

lemma walk_chain:
  assumes "chain H as xs" "distinct as" "length as \<le> n"
  shows "walk n H (Some (hd as)) (last as) = xs"
  using assms
proof (induction H as xs arbitrary: n rule: chain.induct)
  case (1 H a)
  then show ?case by (cases n) auto
next
  case (2 H a b as x xs)
  then obtain m where m: "n = Suc m" by (cases n) auto
  have "a \<noteq> last (b # as)" using 2(3) by (metis distinct.simps(2) last_in_set list.distinct(1))
  then show ?case using 2 m by auto
qed auto

lemma v2_contents_rep:
  assumes "v2_rep q as xs"
  shows "v2_contents q = xs"
proof -
  have "set as \<subseteq> {..<v2_fresh q}" using assms by (auto simp: v2_rep_def)
  then have "length as \<le> v2_fresh q"
    using assms by (metis card_lessThan card_mono distinct_card finite_lessThan v2_rep_def)
  then show ?thesis using walk_chain assms by (auto simp: v2_rep_def v2_contents_def)
qed

lemma v2_try_pop_seq:
  assumes "v2_rep q as xs"
  shows "\<exists>q' as'. v2_try_pop q = Some (case xs of [] \<Rightarrow> None | x # _ \<Rightarrow> Some x, q') \<and> v2_rep q' as' (tl xs)"
proof -
  have as: "as \<noteq> []" "v2_tail q = last as" "length as = Suc (length xs)" "distinct as"
    using assms chain_length [of "nodes q" as xs] by (auto simp: v2_rep_def)
  have "last as = hd as \<longleftrightarrow> xs = []"
    using as by (cases as) auto
  then show ?thesis
    using v2_try_pop_rep [OF assms, of "last as"] as assms
    by (auto simp: v2_try_pop_def get_tail_copy_def split: list.splits)
qed

text \<open>An operation on a well-formed queue is defined; the contract speaks of its value.\<close>

interpretation linkedq: unbounded_queue v2_inv v2_contents
  "\<lambda>x q. (True, the (v2_push x q))" "\<lambda>q. the (v2_try_pop q)"
proof
  fix q :: "'a queue_v2" and x :: 'a
  assume "v2_inv q"
  then obtain as xs where r: "v2_rep q as xs" by (auto simp: v2_inv_def)
  note c = v2_contents_rep [OF r]
  from v2_push_rep [OF r, of x] obtain q' where q': "v2_push x q = Some q'" "v2_rep q' (as @ [v2_fresh q]) (xs @ [x])"
    by blast
  then show "v2_inv (snd (True, the (v2_push x q)))"
    "v2_contents (snd (True, the (v2_push x q))) = (if fst (True, the (v2_push x q)) then v2_contents q @ [x] else v2_contents q)"
    "fst (True, the (v2_push x q))"
    using c v2_contents_rep [OF q'(2)] by (auto simp: v2_inv_def)
  from v2_try_pop_seq [OF r] obtain p as' where p: "v2_try_pop q = Some (case xs of [] \<Rightarrow> None | x # _ \<Rightarrow> Some x, p)" "v2_rep p as' (tl xs)"
    by blast
  then show "v2_inv (snd (the (v2_try_pop q)))"
    "fst (the (v2_try_pop q)) = (case v2_contents q of [] \<Rightarrow> None | x # xs \<Rightarrow> Some x)"
    "v2_contents (snd (the (v2_try_pop q))) = tl (v2_contents q)"
    using c v2_contents_rep [OF p(2)] by (auto simp: v2_inv_def)
qed

section \<open>Threads\<close>

text \<open>
  \<open>popper\<close> is the tail copy of the thread that holds the head mutex; \<open>seen\<close> records what the queue held when that copy was
  taken.
\<close>

record 'a v2_sys =
  v2 :: "'a queue_v2"
  popper :: "addr option"
  seen :: "'a list"
  v2_pushed :: "'a list"
  v2_popped :: "'a list"

definition v2_start :: "'a v2_sys" where
  "v2_start = \<lparr>v2 = v2_new, popper = None, seen = [], v2_pushed = [], v2_popped = []\<rparr>"

inductive v2_step :: "'a v2_sys \<Rightarrow> 'a v2_sys \<Rightarrow> bool" where
  push: "v2_push x (v2 s) = Some q \<Longrightarrow> v2_step s (s\<lparr>v2 := q, v2_pushed := v2_pushed s @ [x]\<rparr>)"
| lock_head: "popper s = None \<Longrightarrow>
    v2_step s (s\<lparr>popper := Some (get_tail_copy (v2 s)), seen := v2_contents (v2 s)\<rparr>)"
| pop_none: "popper s = Some t \<Longrightarrow> v2_try_pop_at t (v2 s) = Some (None, q) \<Longrightarrow>
    v2_step s (s\<lparr>v2 := q, popper := None\<rparr>)"
| pop_some: "popper s = Some t \<Longrightarrow> v2_try_pop_at t (v2 s) = Some (Some x, q) \<Longrightarrow>
    v2_step s (s\<lparr>v2 := q, popper := None, v2_popped := v2_popped s @ [x]\<rparr>)"

text \<open>With a tail copy out, the list is what was seen, the copied node, and what was pushed since.\<close>

definition v2_sys_inv :: "'a v2_sys \<Rightarrow> bool" where
  "v2_sys_inv s \<longleftrightarrow> (\<exists>as xs. v2_rep (v2 s) as xs \<and> v2_pushed s = v2_popped s @ xs \<and>
    (\<forall>t. popper s = Some t \<longrightarrow> length (seen s) < length as \<and> as ! length (seen s) = t \<and> seen s = take (length (seen s)) xs))"

lemma v2_start_inv: "v2_sys_inv v2_start"
  using v2_new_rep by (auto simp: v2_sys_inv_def v2_start_def)

text \<open>What a pop that holds the copy \<open>t\<close> does.\<close>

lemma v2_pop_outcome:
  assumes "v2_rep q as xs" "length sn < length as" "as ! length sn = t" "sn = take (length sn) xs"
  shows "\<exists>q'. v2_try_pop_at t q = (if sn = [] then Some (None, q) else Some (Some (hd sn), q')) \<and>
    (sn \<noteq> [] \<longrightarrow> xs \<noteq> [] \<and> hd xs = hd sn \<and> v2_rep q' (tl as) (tl xs))"
proof -
  have "distinct as" "as \<noteq> []" using assms(1,2) by (auto simp: v2_rep_def)
  then have "t = hd as \<longleftrightarrow> sn = []"
    using assms(2,3) nth_eq_iff_index_eq [of as "length sn" 0] by (auto simp: hd_conv_nth)
  moreover have "hd xs = hd sn" if "sn \<noteq> []" using that assms(4) by (metis hd_take length_greater_0_conv)
  ultimately show ?thesis
    using v2_try_pop_rep [OF assms(1), of t] assms(2,3) by (auto simp del: hd_take)
qed

lemma v2_step_inv:
  assumes "v2_step s s'" "v2_sys_inv s"
  shows "v2_sys_inv s'"
proof -
  obtain as xs where r: "v2_rep (v2 s) as xs" "v2_pushed s = v2_popped s @ xs"
    and t: "\<And>t. popper s = Some t \<Longrightarrow> length (seen s) < length as \<and> as ! length (seen s) = t \<and> seen s = take (length (seen s)) xs"
    using assms(2) unfolding v2_sys_inv_def by blast
  have len: "length as = Suc (length xs)" using r(1) chain_length by (auto simp: v2_rep_def)
  from assms(1) show ?thesis
  proof cases
    case (push x q)
    obtain q' where "v2_push x (v2 s) = Some q'" "v2_rep q' (as @ [v2_fresh (v2 s)]) (xs @ [x])"
      using v2_push_rep [OF r(1), of x] by blast
    then show ?thesis
      using push r(2) t len unfolding v2_sys_inv_def
      by (intro exI [of _ "as @ [v2_fresh (v2 s)]"] exI [of _ "xs @ [x]"]) (fastforce simp: nth_append)
  next
    case lock_head
    have "last as = as ! length xs" using len by (metis diff_Suc_1 last_conv_nth length_0_conv nat.distinct(1))
    then show ?thesis
      using lock_head r len v2_contents_rep [OF r(1)] unfolding v2_sys_inv_def
      by (intro exI [of _ as] exI [of _ xs]) (auto simp: get_tail_copy_def v2_rep_def)
  next
    case (pop_none t q)
    then have "q = v2 s" using v2_pop_outcome [OF r(1), of "seen s" t] t [of t] by (auto split: if_splits)
    then show ?thesis using pop_none r unfolding v2_sys_inv_def by auto
  next
    case (pop_some t x q)
    then have "x = hd xs" "xs \<noteq> []" "v2_rep q (tl as) (tl xs)"
      using v2_pop_outcome [OF r(1), of "seen s" t] t [of t] by (auto split: if_splits)
    then show ?thesis
      using pop_some r(2) unfolding v2_sys_inv_def by (intro exI [of _ "tl as"] exI [of _ "tl xs"]) auto
  qed
qed

lemma v2_steps_inv: "v2_step\<^sup>*\<^sup>* s s' \<Longrightarrow> v2_sys_inv s \<Longrightarrow> v2_sys_inv s'"
  by (induction rule: rtranclp_induct) (auto intro: v2_step_inv)

section \<open>What the program relies on\<close>

text \<open>
  C31. \<^verbatim>\<open>Queue_v2\<close> under any schedule of pushing and popping threads: it is a first-in first-out queue; no operation follows a
  null or dangling pointer; the nodes in memory are exactly the dummy and one per element; and a pop that
  copied the tail returns the element that was first when it made the copy, or nothing when the queue was
  empty then, whatever was pushed meanwhile.
\<close>

theorem queue_v2_interleavings:
  assumes "v2_step\<^sup>*\<^sup>* v2_start s"
  shows "v2_pushed s = v2_popped s @ v2_contents (v2 s) \<and>
    card (dom (nodes (v2 s))) = Suc (length (v2_contents (v2 s))) \<and>
    v2_push x (v2 s) \<noteq> None \<and>
    (popper s = Some t \<longrightarrow> (\<exists>q. v2_try_pop_at t (v2 s) = Some (case seen s of [] \<Rightarrow> None | y # _ \<Rightarrow> Some y, q)))"
proof -
  obtain as xs where r: "v2_rep (v2 s) as xs" "v2_pushed s = v2_popped s @ xs"
    and t: "popper s = Some t \<Longrightarrow> length (seen s) < length as \<and> as ! length (seen s) = t \<and> seen s = take (length (seen s)) xs"
    using v2_steps_inv [OF assms v2_start_inv] unfolding v2_sys_inv_def by blast
  have "card (dom (nodes (v2 s))) = Suc (length xs)"
    using r(1) chain_length [of _ as xs] by (auto simp: v2_rep_def distinct_card)
  moreover have "v2_push x (v2 s) \<noteq> None" using v2_push_rep [OF r(1), of x] by auto
  moreover have "\<exists>q. v2_try_pop_at t (v2 s) = Some (case seen s of [] \<Rightarrow> None | y # _ \<Rightarrow> Some y, q)" if pt: "popper s = Some t"
  proof -
    obtain q' where "v2_try_pop_at t (v2 s) = (if seen s = [] then Some (None, v2 s) else Some (Some (hd (seen s)), q'))"
      using v2_pop_outcome [OF r(1)] t [OF pt] by blast
    then show ?thesis by (cases "seen s") auto
  qed
  ultimately show ?thesis using r v2_contents_rep [OF r(1)] by simp
qed

theorem queue_v2_interleavings_witness:
  "\<exists>s. v2_step\<^sup>*\<^sup>* v2_start s \<and> v2_contents (v2 s) = [5::nat] \<and> popper s = Some 0 \<and>
     (\<exists>q. v2_try_pop_at 0 (v2 s) = Some (None, q))"
proof -
  define s1 :: "nat v2_sys" where "s1 = v2_start\<lparr>popper := Some 0, seen := []\<rparr>"
  define s2 where "s2 = s1\<lparr>v2 := the (v2_push 5 (v2 s1)), v2_pushed := v2_pushed s1 @ [5]\<rparr>"
  note ev = s1_def s2_def v2_start_def v2_new_def v2_push_def empty_node_def Let_def
  have "v2_step v2_start s1"
    using v2_step.lock_head [of "v2_start :: nat v2_sys"] by (simp add: ev get_tail_copy_def v2_contents_def)
  moreover have "v2_step s1 s2" unfolding s2_def by (rule v2_step.push) (simp add: ev)
  ultimately have r: "v2_step\<^sup>*\<^sup>* v2_start s2" by (meson converse_rtranclp_into_rtranclp rtranclp.rtrancl_refl)
  have "v2_contents (v2 s2) = [5]" "popper s2 = Some 0" "seen s2 = []" by (simp_all add: ev v2_contents_def numeral_2_eq_2)
  then show ?thesis using r queue_v2_interleavings [OF r, of 0 0] by (intro exI [of _ s2]) simp
qed

text \<open>
  C32. The two queues of \<^verbatim>\<open>Queue.cpp\<close> are interchangeable: any sequence of \<^verbatim>\<open>push\<close> and \<^verbatim>\<open>try_pop\<close> calls on a new \<^verbatim>\<open>Queue_v2\<close> gives
  the same results as on a new \<^verbatim>\<open>Queue\<close> and leaves the same elements.
\<close>

theorem queue_versions_agree:
  fixes ops :: "'a queue_op list"
  shows "(let (acc, out, q) = run_queue (\<lambda>x q. (True, the (v2_push x q))) (\<lambda>q. the (v2_try_pop q)) ops v2_new in (acc, out, v2_contents q)) =
   run_queue (\<lambda>x c. (True, queue_push x c)) queue_try_pop ops []"
proof -
  obtain acc out q where r: "run_queue (\<lambda>x q. (True, the (v2_push x q))) (\<lambda>q. the (v2_try_pop q)) ops v2_new = (acc, out, q)"
    by (metis prod_cases3)
  obtain acc' out' c where r': "run_queue (\<lambda>x c. (True, queue_push x c)) queue_try_pop ops [] = (acc', out', c)"
    by (metis prod_cases3)
  have "v2_inv (v2_new :: 'a queue_v2)" using v2_new_rep by (auto simp: v2_inv_def)
  from linkedq.run_as_list [OF this r] dequeq.run_as_list [OF TrueI r'] show ?thesis
    using v2_contents_rep [OF v2_new_rep, where 'a = 'a] r r' by simp
qed

end
