(* ===== verification/Spinlock.thy ===== *)
theory Spinlock
  imports Prelude
begin

text \<open>
  The six spinlocks of \<^verbatim>\<open>src/Concurrency/Spinlock.cpp\<close> and the counter test that runs on them. A step is one access to the
  lock word or to the shared counter; the acquire and release orders on the lock word keep a thread's accesses to the
  counter between its lock and its unlock, so steps interleave but are not reordered.
\<close>

section \<open>The locks\<close>

datatype version = V1 | V2 | V3 | V4 | V4_relaxed | V5 | V6

text \<open>\<open>V4_relaxed\<close> is the second overload of \<^verbatim>\<open>lock\<close> in V4.\<close>

text \<open>\<open>ATOMIC_FLAG_INIT\<close> is the clear flag, which V1 and V6 read as unlocked.\<close>

datatype lock_word = LOCKED | UNLOCKED

text \<open>
  The points of a thread in \<^verbatim>\<open>incr\<close>: the loop test; in \<^verbatim>\<open>lock\<close>, at its first exchange, in the load loop of V3, at the relaxed
  exchange of V4 and V5, at a yield, at the fence; in the critical section before and after the load of
  the counter; in \<^verbatim>\<open>unlock\<close>; done.
\<close>

datatype incr_pc = At_loop | At_exchange | At_load | At_retry | At_yield | At_fence | In_load | In_store u64 | At_unlock | Done

record incr_thread =
  at_pc :: incr_pc
  times :: nat

text \<open>\<^verbatim>\<open>exchange(LOCKED)\<close> and \<^verbatim>\<open>test_and_set\<close>: the old word and the new one.\<close>

definition test_and_set :: "lock_word \<Rightarrow> lock_word \<times> lock_word" where
  "test_and_set w = (w, LOCKED)"

definition try_lock :: "lock_word \<Rightarrow> bool \<times> lock_word" where
  "try_lock w = (let (old, w') = test_and_set w in (old \<noteq> LOCKED, w'))"

text \<open>
  The \<^verbatim>\<open>lock\<close> of each version, one access at a time: the point it continues at and the word it leaves. The critical
  section starts at \<open>In_load\<close>.
\<close>

text \<open>V1 spins on the flag, V2 on the exchange.\<close>

definition lock_V1 :: "incr_pc \<Rightarrow> lock_word \<Rightarrow> incr_pc \<times> lock_word" where
  "lock_V1 pc w =
  (case pc of
     At_exchange \<Rightarrow> (let (old, w') = test_and_set w in (if old = LOCKED then At_exchange else In_load, w'))
   | _ \<Rightarrow> (pc, w))"

definition lock_V2 :: "incr_pc \<Rightarrow> lock_word \<Rightarrow> incr_pc \<times> lock_word" where
  "lock_V2 pc w =
  (case pc of
     At_exchange \<Rightarrow> (let (old, w') = test_and_set w in (if old = LOCKED then At_exchange else In_load, w'))
   | _ \<Rightarrow> (pc, w))"

text \<open>V3 waits with plain loads until the word looks free.\<close>

definition lock_V3 :: "incr_pc \<Rightarrow> lock_word \<Rightarrow> incr_pc \<times> lock_word" where
  "lock_V3 pc w =
  (case pc of
     At_exchange \<Rightarrow> (let (old, w') = test_and_set w in (if old = LOCKED then At_load else In_load, w'))
   | At_load \<Rightarrow> (if w = LOCKED then At_load else At_exchange, w)
   | _ \<Rightarrow> (pc, w))"

text \<open>V4 retries with relaxed exchanges and a fence; its second overload has only that part.\<close>

definition lock_V4_relaxed :: "incr_pc \<Rightarrow> lock_word \<Rightarrow> incr_pc \<times> lock_word" where
  "lock_V4_relaxed pc w =
  (case pc of
     At_retry \<Rightarrow> (let (old, w') = test_and_set w in (if old = LOCKED then At_retry else At_fence, w'))
   | At_fence \<Rightarrow> (In_load, w)
   | _ \<Rightarrow> (pc, w))"

definition lock_V4 :: "incr_pc \<Rightarrow> lock_word \<Rightarrow> incr_pc \<times> lock_word" where
  "lock_V4 pc w =
  (case pc of
     At_exchange \<Rightarrow> (let (old, w') = test_and_set w in (if old = LOCKED then At_retry else In_load, w'))
   | At_retry \<Rightarrow> (let (old, w') = test_and_set w in (if old = LOCKED then At_retry else At_fence, w'))
   | At_fence \<Rightarrow> (In_load, w)
   | _ \<Rightarrow> (pc, w))"

text \<open>V5 yields between the retries, V6 between the attempts of V1.\<close>

definition lock_V5 :: "incr_pc \<Rightarrow> lock_word \<Rightarrow> incr_pc \<times> lock_word" where
  "lock_V5 pc w =
  (case pc of
     At_exchange \<Rightarrow> (let (old, w') = test_and_set w in (if old = LOCKED then At_retry else In_load, w'))
   | At_retry \<Rightarrow> (let (old, w') = test_and_set w in (if old = LOCKED then At_yield else At_fence, w'))
   | At_yield \<Rightarrow> (At_retry, w)
   | At_fence \<Rightarrow> (In_load, w)
   | _ \<Rightarrow> (pc, w))"

definition lock_V6 :: "incr_pc \<Rightarrow> lock_word \<Rightarrow> incr_pc \<times> lock_word" where
  "lock_V6 pc w =
  (case pc of
     At_exchange \<Rightarrow> (let (old, w') = test_and_set w in (if old = LOCKED then At_yield else In_load, w'))
   | At_yield \<Rightarrow> (At_exchange, w)
   | _ \<Rightarrow> (pc, w))"

fun lock_step :: "version \<Rightarrow> incr_pc \<Rightarrow> lock_word \<Rightarrow> incr_pc \<times> lock_word" where
  "lock_step V1 = lock_V1"
| "lock_step V2 = lock_V2"
| "lock_step V3 = lock_V3"
| "lock_step V4 = lock_V4"
| "lock_step V4_relaxed = lock_V4_relaxed"
| "lock_step V5 = lock_V5"
| "lock_step V6 = lock_V6"

fun lock_entry :: "version \<Rightarrow> incr_pc" where
  "lock_entry V4_relaxed = At_retry"
| "lock_entry _ = At_exchange"

lemmas lock_defs = lock_V1_def lock_V2_def lock_V3_def lock_V4_def lock_V4_relaxed_def lock_V5_def lock_V6_def test_and_set_def

definition unlock_word :: "lock_word \<Rightarrow> lock_word" where
  "unlock_word w = UNLOCKED"

section \<open>The counter test\<close>

record spin_sys =
  word :: lock_word
  counter :: u64
  workers :: "incr_thread list"

definition spin_start :: "nat \<Rightarrow> nat \<Rightarrow> spin_sys" where
  "spin_start n count = \<lparr>word = UNLOCKED, counter = 0, workers = replicate n \<lparr>at_pc = At_loop, times = count\<rparr>\<rparr>"

text \<open>One step of one thread; \<open>None\<close> when it is done.\<close>

definition incr_step :: "version \<Rightarrow> incr_thread \<Rightarrow> lock_word \<Rightarrow> u64 \<Rightarrow> (incr_thread \<times> lock_word \<times> u64) option" where
  "incr_step v th w val =
  (case at_pc th of
     At_loop \<Rightarrow>
       Some (if times th = 0 then th\<lparr>at_pc := Done\<rparr> else th\<lparr>at_pc := lock_entry v, times := times th - 1\<rparr>, w, val)
   | In_load \<Rightarrow> Some (th\<lparr>at_pc := In_store val\<rparr>, w, val)
   | In_store old \<Rightarrow> Some (th\<lparr>at_pc := At_unlock\<rparr>, w, old + 1)
   | At_unlock \<Rightarrow> Some (th\<lparr>at_pc := At_loop\<rparr>, unlock_word w, val)
   | Done \<Rightarrow> None
   | pc \<Rightarrow> (let (pc', w') = lock_step v pc w in Some (th\<lparr>at_pc := pc'\<rparr>, w', val)))"

inductive spin_step :: "version \<Rightarrow> spin_sys \<Rightarrow> spin_sys \<Rightarrow> bool" for v where
  thread: "t < length (workers s) \<Longrightarrow> incr_step v (workers s ! t) (word s) (counter s) = Some (th, w, val) \<Longrightarrow>
    spin_step v s \<lparr>word = w, counter = val, workers = (workers s)[t := th]\<rparr>"

section \<open>Mutual exclusion\<close>

fun critical_at :: "incr_pc \<Rightarrow> bool" where
  "critical_at At_fence = True"
| "critical_at In_load = True"
| "critical_at (In_store _) = True"
| "critical_at At_unlock = True"
| "critical_at _ = False"

definition critical :: "incr_thread \<Rightarrow> bool" where
  "critical th = critical_at (at_pc th)"

text \<open>The increments a thread has still to do.\<close>

fun pending_at :: "incr_pc \<Rightarrow> nat" where
  "pending_at At_loop = 0"
| "pending_at At_unlock = 0"
| "pending_at Done = 0"
| "pending_at _ = 1"

definition pending :: "incr_thread \<Rightarrow> nat" where
  "pending th = times th + pending_at (at_pc th)"

text \<open>A thread that has loaded the counter holds its current value; a thread that is done has no increment left.\<close>

fun loaded_at :: "u64 \<Rightarrow> nat \<Rightarrow> incr_pc \<Rightarrow> bool" where
  "loaded_at val n (In_store old) \<longleftrightarrow> old = val"
| "loaded_at val n Done \<longleftrightarrow> n = 0"
| "loaded_at val n _ \<longleftrightarrow> True"

definition loaded_ok :: "u64 \<Rightarrow> incr_thread \<Rightarrow> bool" where
  "loaded_ok val th = loaded_at val (times th) (at_pc th)"

lemma lock_entry_simps [simp]:
  "critical_at (lock_entry v) = False" "pending_at (lock_entry v) = 1" "loaded_at val n (lock_entry v)"
  by (cases v; simp)+

text \<open>The part of \<^verbatim>\<open>lock\<close> before the critical section: it is left exactly by taking a free word.\<close>

definition waiting_at :: "incr_pc \<Rightarrow> bool" where
  "waiting_at pc \<longleftrightarrow> pc \<in> {At_exchange, At_load, At_retry, At_yield}"

lemma lock_step_waiting:
  assumes "lock_step v pc w = (pc', w')" "waiting_at pc"
  shows "critical_at pc' \<longleftrightarrow> w = UNLOCKED \<and> w' = LOCKED" "\<not> critical_at pc' \<Longrightarrow> w' = w"
    "pending_at pc' = 1" "loaded_at val n pc'"
  using assms by (cases v; cases w; auto simp: waiting_at_def lock_defs split: if_splits)+

lemma lock_step_fence: "lock_step v At_fence w = (pc', w') \<Longrightarrow> pc' \<in> {At_fence, In_load} \<and> w' = w"
  by (cases v) (auto simp: lock_defs)

definition spin_inv :: "nat \<Rightarrow> spin_sys \<Rightarrow> bool" where
  "spin_inv N s \<longleftrightarrow>
    sum_list (map (of_bool \<circ> critical) (workers s)) = (of_bool (word s = LOCKED) :: nat) \<and>
    counter s + of_nat (sum_list (map pending (workers s))) = of_nat N \<and>
    (\<forall>th \<in> set (workers s). loaded_ok (counter s) th)"

text \<open>What one step of one thread changes; it enters the critical section only when the word was free.\<close>

lemma incr_step_effect:
  assumes "incr_step v th w val = Some (th', w', val')"
  shows "critical th \<Longrightarrow> w = LOCKED \<Longrightarrow> critical th' \<longleftrightarrow> w' = LOCKED"
    "\<not> critical th \<Longrightarrow> critical th' \<longleftrightarrow> w = UNLOCKED \<and> w' = LOCKED"
    "\<not> critical th \<Longrightarrow> \<not> critical th' \<Longrightarrow> w' = w"
    "loaded_ok val th \<Longrightarrow> val + of_nat (pending th) = val' + of_nat (pending th')"
    "loaded_ok val' th'"
    "\<not> critical th \<Longrightarrow> val' = val"
proof -
  note defs = incr_step_def unlock_word_def critical_def pending_def loaded_ok_def
  consider (wait) "waiting_at (at_pc th)" | (fence) "at_pc th = At_fence" | (other) "\<not> waiting_at (at_pc th)" "at_pc th \<noteq> At_fence"
    by blast
  then have "(critical th \<longrightarrow> w = LOCKED \<longrightarrow> critical th' = (w' = LOCKED)) \<and>
      (\<not> critical th \<longrightarrow> critical th' = (w = UNLOCKED \<and> w' = LOCKED)) \<and>
      (\<not> critical th \<longrightarrow> \<not> critical th' \<longrightarrow> w' = w) \<and>
      (loaded_ok val th \<longrightarrow> val + of_nat (pending th) = val' + of_nat (pending th')) \<and>
      loaded_ok val' th' \<and> (\<not> critical th \<longrightarrow> val' = val)"
  proof cases
    case wait
    obtain pc' where pc': "lock_step v (at_pc th) w = (pc', w')" "th' = th\<lparr>at_pc := pc'\<rparr>" "val' = val"
      using assms wait by (auto simp: incr_step_def waiting_at_def split: prod.splits)
    have "\<not> critical th" "pending_at (at_pc th) = 1" using wait by (auto simp: waiting_at_def critical_def)
    then show ?thesis using pc' lock_step_waiting [OF pc'(1) wait] by (auto simp: critical_def pending_def loaded_ok_def)
  next
    case fence
    then show ?thesis using assms lock_step_fence [of v w] by (auto simp: defs split: prod.splits)
  next
    case other
    then show ?thesis using assms by (cases "at_pc th"; cases w) (auto simp: defs waiting_at_def split: if_splits)
  qed
  then show "critical th \<Longrightarrow> w = LOCKED \<Longrightarrow> critical th' \<longleftrightarrow> w' = LOCKED"
    "\<not> critical th \<Longrightarrow> critical th' \<longleftrightarrow> w = UNLOCKED \<and> w' = LOCKED"
    "\<not> critical th \<Longrightarrow> \<not> critical th' \<Longrightarrow> w' = w"
    "loaded_ok val th \<Longrightarrow> val + of_nat (pending th) = val' + of_nat (pending th')"
    "loaded_ok val' th'"
    "\<not> critical th \<Longrightarrow> val' = val" by blast+
qed

lemma loaded_not_critical: "\<not> critical th \<Longrightarrow> loaded_ok a th = loaded_ok b th"
  unfolding critical_def loaded_ok_def by (cases "at_pc th") simp_all

lemma balance:
  fixes c S p v :: "'a::cancel_comm_monoid_add"
  assumes "c + p = v + p'" "S' + p = S + p'" "c + S = N"
  shows "v + S' = N"
proof -
  have "v + S' + (p + p') = (v + p') + (S' + p)" by (simp add: ac_simps)
  also have "\<dots> = (c + p) + (S + p')" by (simp only: assms)
  also have "\<dots> = N + (p + p')" by (simp add: ac_simps flip: assms(3))
  finally show ?thesis by simp
qed

lemma spin_step_inv:
  assumes "spin_step v s s'" "spin_inv N s"
  shows "spin_inv N s'"
  using assms(1)
proof cases
  case (thread t th w val)
  let ?old = "workers s ! t" and ?c = "of_bool \<circ> critical :: incr_thread \<Rightarrow> nat"
  note eff = incr_step_effect [OF thread(3)]
  have sum: "sum_list (map ?c (workers s)) = of_bool (word s = LOCKED)"
    and cnt: "counter s + of_nat (sum_list (map pending (workers s))) = of_nat N"
    and ld: "\<forall>th \<in> set (workers s). loaded_ok (counter s) th"
    using assms(2) by (auto simp: spin_inv_def)
  have lock: "word s = LOCKED" if "critical ?old"
    using sum_list_ge_nth [OF thread(2), of ?c] sum that by (cases "word s") auto
  have "sum_list (map ?c ((workers s)[t := th])) = of_bool (w = LOCKED)"
  proof (cases "critical ?old")
    case True
    then show ?thesis using sum_list_replace [OF thread(2), of ?c th] sum eff(1) lock by simp
  next
    case False
    then show ?thesis using sum_list_replace [OF thread(2), of ?c th] sum eff(2) [OF False] eff(3) [OF False] by (cases "critical th") auto
  qed
  moreover have "val + of_nat (sum_list (map pending ((workers s)[t := th]))) = of_nat N"
  proof -
    have "counter s + of_nat (pending ?old) = val + of_nat (pending th)"
      using eff(4) ld thread(2) by simp
    moreover have "of_nat (sum_list (map pending ((workers s)[t := th]))) + of_nat (pending ?old) =
        (of_nat (sum_list (map pending (workers s))) + of_nat (pending th) :: u64)"
      using arg_cong [OF sum_list_replace [OF thread(2), of pending th], of "of_nat :: nat \<Rightarrow> u64"] by simp
    ultimately show ?thesis using cnt by (rule balance)
  qed
  moreover have "loaded_ok val ((workers s)[t := th] ! u)" if "u < length (workers s)" for u
  proof (cases "u = t")
    case True
    then show ?thesis using eff(5) that by simp
  next
    case False
    have "\<not> critical (workers s ! u)" if "val \<noteq> counter s"
      using sum_list_ge_two [OF thread(2) \<open>u < length (workers s)\<close>, of ?c] False eff(6) sum that by (cases "word s") auto
    then show ?thesis
      using loaded_not_critical [of "workers s ! u" val "counter s"] ld that False by (cases "val = counter s") auto
  qed
  ultimately show ?thesis
    using thread(1) by (simp add: spin_inv_def all_set_conv_all_nth)
qed

lemma spin_steps_inv: "(spin_step v)\<^sup>*\<^sup>* s s' \<Longrightarrow> spin_inv N s \<Longrightarrow> spin_inv N s'"
  by (induction rule: rtranclp_induct) (auto intro: spin_step_inv)

lemma spin_start_inv: "spin_inv (n * count) (spin_start n count)"
  by (simp add: spin_inv_def spin_start_def critical_def pending_def loaded_ok_def sum_list_replicate)

lemma spin_steps_length: "(spin_step v)\<^sup>*\<^sup>* s s' \<Longrightarrow> length (workers s') = length (workers s)"
  by (induction rule: rtranclp_induct) (auto elim!: spin_step.cases)

text \<open>
  C33. Every one of the six spinlocks gives mutual exclusion to the counter test of \<^verbatim>\<open>Spinlock.cpp\<close>, in every interleaving: at
  most one thread is between the end of \<^verbatim>\<open>lock\<close> and the store of \<^verbatim>\<open>unlock\<close>, and when one is, the lock word is \<^verbatim>\<open>LOCKED\<close>; and no
  increment is lost: when all threads are done the counter is their number times the number of
  increments each made, the assertion at the end of \<^verbatim>\<open>test\<close>.
\<close>

theorem spinlock_mutual_exclusion:
  assumes "(spin_step v)\<^sup>*\<^sup>* (spin_start n count) s"
  shows "(t < n \<and> u < n \<and> critical (workers s ! t) \<and> critical (workers s ! u) \<longrightarrow> t = u \<and> word s = LOCKED) \<and>
    (set (map at_pc (workers s)) \<subseteq> {Done} \<longrightarrow> counter s = of_nat (n * count))"
proof -
  have inv: "spin_inv (n * count) s" using spin_steps_inv [OF assms spin_start_inv] .
  have len: "length (workers s) = n" using spin_steps_length [OF assms] by (simp add: spin_start_def)
  have "t = u \<and> word s = LOCKED" if "t < n" "u < n" "critical (workers s ! t)" "critical (workers s ! u)"
    using sum_list_ge_two [of t "workers s" u "of_bool \<circ> critical"] sum_list_ge_nth [of t "workers s" "of_bool \<circ> critical"]
      that len inv by (cases "word s") (auto simp: spin_inv_def)
  moreover have "counter s = of_nat (n * count)" if "set (map at_pc (workers s)) \<subseteq> {Done}"
  proof -
    have "pending th = 0" if "th \<in> set (workers s)" for th
    proof -
      have "at_pc th = Done" "loaded_ok (counter s) th"
        using \<open>set (map at_pc (workers s)) \<subseteq> {Done}\<close> that inv by (auto simp: spin_inv_def)
      then show ?thesis by (simp add: pending_def loaded_ok_def)
    qed
    then have "sum_list (map pending (workers s)) = 0" by (simp add: sum_list_eq_0_iff)
    moreover have "counter s + of_nat (sum_list (map pending (workers s))) = of_nat (n * count)"
      using inv unfolding spin_inv_def by blast
    ultimately show ?thesis by (simp del: sum_list_eq_0_iff)
  qed
  ultimately show ?thesis by blast
qed

theorem spinlock_mutual_exclusion_witness:
  "\<exists>s. (spin_step V4)\<^sup>*\<^sup>* (spin_start 1 1) s \<and> set (map at_pc (workers s)) \<subseteq> {Done} \<and> counter s = 1"
proof -
  define st where "st w val pc n = \<lparr>word = w, counter = val, workers = [\<lparr>at_pc = pc, times = n\<rparr>]\<rparr>" for w val pc n
  have one: "spin_step V4 (st w val pc n) (st w' val' pc' n')"
    if "incr_step V4 \<lparr>at_pc = pc, times = n\<rparr> w val = Some (\<lparr>at_pc = pc', times = n'\<rparr>, w', val')" for w val pc n w' val' pc' n'
    using spin_step.thread [of 0 "st w val pc n" V4] that by (simp add: st_def)
  note ev = incr_step_def lock_defs unlock_word_def
  have "spin_step V4 (st UNLOCKED 0 At_loop 1) (st UNLOCKED 0 At_exchange 0)" by (rule one) (simp add: ev)
  moreover have "spin_step V4 (st UNLOCKED 0 At_exchange 0) (st LOCKED 0 In_load 0)" by (rule one) (simp add: ev)
  moreover have "spin_step V4 (st LOCKED 0 In_load 0) (st LOCKED 0 (In_store 0) 0)" by (rule one) (simp add: ev)
  moreover have "spin_step V4 (st LOCKED 0 (In_store 0) 0) (st LOCKED 1 At_unlock 0)" by (rule one) (simp add: ev)
  moreover have "spin_step V4 (st LOCKED 1 At_unlock 0) (st UNLOCKED 1 At_loop 0)" by (rule one) (simp add: ev)
  moreover have "spin_step V4 (st UNLOCKED 1 At_loop 0) (st UNLOCKED 1 Done 0)" by (rule one) (simp add: ev)
  ultimately have "(spin_step V4)\<^sup>*\<^sup>* (st UNLOCKED 0 At_loop 1) (st UNLOCKED 1 Done 0)"
    by (meson converse_rtranclp_into_rtranclp rtranclp.rtrancl_refl)
  moreover have "st UNLOCKED 0 At_loop 1 = spin_start 1 1" by (simp add: st_def spin_start_def)
  ultimately have r: "(spin_step V4)\<^sup>*\<^sup>* (spin_start 1 1) (st UNLOCKED 1 Done 0)" by simp
  moreover have "set (map at_pc (workers (st UNLOCKED 1 Done 0))) \<subseteq> {Done}" by (simp add: st_def)
  moreover from this have "counter (st UNLOCKED 1 Done 0) = 1" using spinlock_mutual_exclusion [OF r, of 0 0] by simp
  ultimately show ?thesis by blast
qed

end
