(* ===== verification/Shared_Mutex.thy ===== *)
theory Shared_Mutex
  imports Prelude
begin

text \<open>
  The reader-writer spinlock of \<^verbatim>\<open>src/Concurrency/SharedMutex.cpp\<close> and the writers and readers of its \<^verbatim>\<open>main\<close>. A step is one load or
  compare-and-exchange on \<^verbatim>\<open>_n\<close>, or one access to \<^verbatim>\<open>val\<close>; a weak compare-and-exchange may fail although the value
  matches. \<^verbatim>\<open>_n\<close> and \<^verbatim>\<open>val\<close> are unbounded integers here: the invariant keeps the first within the number of threads and the second within
  the number of increments, so an \<^verbatim>\<open>int\<close> holds them in any program that starts fewer than \<open>2 ^ 31\<close> of each.
\<close>

section \<open>The threads\<close>

text \<open>
  A writer before its loop test, in \<^verbatim>\<open>lock\<close>, in the critical section (before and after the load of \<^verbatim>\<open>val\<close>), in \<^verbatim>\<open>unlock\<close>; a
  reader before its loop test, in the load loop and at the exchange of \<^verbatim>\<open>lockShared\<close>, and the same for
  \<^verbatim>\<open>unlockShared\<close>.
\<close>

datatype rw_pc = W_loop | W_lock | W_load | W_store int | W_unlock | R_loop
  | R_load | R_cas int | R_unload | R_uncas int | Rw_done

record rw_thread =
  rw_at :: rw_pc
  rounds :: nat

record rw_sys =
  n_word :: int
  shared_val :: int
  rw_threads :: "rw_thread list"

text \<open>\<^verbatim>\<open>compare_exchange_strong\<close> on the word: whether it succeeded, and the new word.\<close>

definition cas :: "int \<Rightarrow> int \<Rightarrow> int \<Rightarrow> bool \<times> int" where
  "cas expected desired n = (if n = expected then (True, desired) else (False, n))"

text \<open>
  The steps of a thread: \<open>weak\<close> says whether a weak exchange fails spuriously this time; \<open>None\<close> when the thread is
  done.
\<close>

definition rw_thread_step :: "bool \<Rightarrow> rw_thread \<Rightarrow> int \<Rightarrow> int \<Rightarrow> (rw_thread \<times> int \<times> int) option" where
  "rw_thread_step weak th n val =
  (case rw_at th of
     W_loop \<Rightarrow> Some (if rounds th = 0 then th\<lparr>rw_at := Rw_done\<rparr> else th\<lparr>rw_at := W_lock, rounds := rounds th - 1\<rparr>, n, val)
   | W_lock \<Rightarrow> (let (ok, n') = cas 0 (- 1) n in Some (th\<lparr>rw_at := if ok then W_load else W_lock\<rparr>, n', val))
   | W_load \<Rightarrow> Some (th\<lparr>rw_at := W_store val\<rparr>, n, val)
   | W_store old \<Rightarrow> Some (th\<lparr>rw_at := W_unlock\<rparr>, n, old + 1)
   | W_unlock \<Rightarrow> (let (ok, n') = cas (- 1) 0 n in Some (th\<lparr>rw_at := if ok then W_loop else W_unlock\<rparr>, n', val))
   | R_loop \<Rightarrow> Some (if rounds th = 0 then th\<lparr>rw_at := Rw_done\<rparr> else th\<lparr>rw_at := R_load, rounds := rounds th - 1\<rparr>, n, val)
   | R_load \<Rightarrow> Some (th\<lparr>rw_at := if n < 0 then R_load else R_cas n\<rparr>, n, val)
   | R_cas old \<Rightarrow>
       (let (ok, n') = (if weak then (False, n) else cas old (old + 1) n)
        in Some (th\<lparr>rw_at := if ok then R_unload else R_load\<rparr>, n', val))
   | R_unload \<Rightarrow> Some (th\<lparr>rw_at := if n \<le> 0 then R_unload else R_uncas n\<rparr>, n, val)
   | R_uncas old \<Rightarrow>
       (let (ok, n') = (if weak then (False, n) else cas old (old - 1) n)
        in Some (th\<lparr>rw_at := if ok then R_loop else R_unload\<rparr>, n', val))
   | Rw_done \<Rightarrow> None)"

inductive rw_step :: "rw_sys \<Rightarrow> rw_sys \<Rightarrow> bool" where
  thread: "t < length (rw_threads s) \<Longrightarrow>
    rw_thread_step weak (rw_threads s ! t) (n_word s) (shared_val s) = Some (th, n, val) \<Longrightarrow>
    rw_step s \<lparr>n_word = n, shared_val = val, rw_threads = (rw_threads s)[t := th]\<rparr>"

definition rw_start :: "nat \<Rightarrow> nat \<Rightarrow> nat \<Rightarrow> rw_sys" where
  "rw_start writers readers count = \<lparr>n_word = 0, shared_val = 0,
     rw_threads = replicate writers \<lparr>rw_at = W_loop, rounds = count\<rparr> @ replicate readers \<lparr>rw_at = R_loop, rounds = count\<rparr>\<rparr>"

section \<open>Who holds the lock\<close>

fun writes_at :: "rw_pc \<Rightarrow> bool" where
  "writes_at W_load = True"
| "writes_at (W_store _) = True"
| "writes_at W_unlock = True"
| "writes_at _ = False"

fun reads_at :: "rw_pc \<Rightarrow> bool" where
  "reads_at R_unload = True"
| "reads_at (R_uncas _) = True"
| "reads_at _ = False"

definition writers_in :: "rw_thread list \<Rightarrow> nat" where
  "writers_in ts = sum_list (map (\<lambda>th. of_bool (writes_at (rw_at th))) ts)"

definition readers_in :: "rw_thread list \<Rightarrow> nat" where
  "readers_in ts = sum_list (map (\<lambda>th. of_bool (reads_at (rw_at th))) ts)"

text \<open>Increments still to be made, by writers only; \<open>rounds\<close> of a reader does not count.\<close>

fun rw_pending_at :: "nat \<Rightarrow> rw_pc \<Rightarrow> nat" where
  "rw_pending_at k W_loop = k"
| "rw_pending_at k W_unlock = k"
| "rw_pending_at k W_lock = Suc k"
| "rw_pending_at k W_load = Suc k"
| "rw_pending_at k (W_store _) = Suc k"
| "rw_pending_at k _ = 0"

definition rw_pending :: "rw_thread \<Rightarrow> nat" where
  "rw_pending th = rw_pending_at (rounds th) (rw_at th)"

fun rw_local_at :: "int \<Rightarrow> rw_pc \<Rightarrow> bool" where
  "rw_local_at val (W_store old) \<longleftrightarrow> old = val"
| "rw_local_at val (R_cas old) \<longleftrightarrow> 0 \<le> old"
| "rw_local_at val (R_uncas old) \<longleftrightarrow> 0 < old"
| "rw_local_at val _ \<longleftrightarrow> True"

definition rw_inv :: "nat \<Rightarrow> rw_sys \<Rightarrow> bool" where
  "rw_inv N s \<longleftrightarrow>
    n_word s = (if writers_in (rw_threads s) = 0 then int (readers_in (rw_threads s)) else - 1) \<and>
    (writers_in (rw_threads s) = 0 \<or> writers_in (rw_threads s) = 1 \<and> readers_in (rw_threads s) = 0) \<and>
    shared_val s + int (sum_list (map rw_pending (rw_threads s))) = int N \<and>
    (\<forall>th \<in> set (rw_threads s). rw_local_at (shared_val s) (rw_at th))"

text \<open>What one step does, in the terms of the invariant.\<close>

lemma rw_thread_effect:
  assumes "rw_thread_step weak th n val = Some (th', n', val')" "rw_local_at val (rw_at th)"
  shows "\<not> writes_at (rw_at th) \<Longrightarrow> writes_at (rw_at th') \<Longrightarrow> n = 0 \<and> n' = - 1 \<and> \<not> reads_at (rw_at th) \<and> \<not> reads_at (rw_at th')"
    "writes_at (rw_at th) \<Longrightarrow> \<not> writes_at (rw_at th') \<Longrightarrow> n' = 0 \<and> \<not> reads_at (rw_at th')"
    "writes_at (rw_at th) \<Longrightarrow> writes_at (rw_at th') \<Longrightarrow> n' = n \<and> \<not> reads_at (rw_at th')"
    "\<not> writes_at (rw_at th) \<Longrightarrow> \<not> writes_at (rw_at th') \<Longrightarrow>
      n' = n + of_bool (reads_at (rw_at th')) - of_bool (reads_at (rw_at th)) \<and> (n' \<noteq> n \<longrightarrow> 0 \<le> n)"
    "val' + int (rw_pending th') = val + int (rw_pending th)"
    "rw_local_at val' (rw_at th')"
    "\<not> writes_at (rw_at th) \<Longrightarrow> val' = val"
    "writes_at (rw_at th) \<Longrightarrow> \<not> reads_at (rw_at th)"
  using assms
  by (cases "rw_at th"; auto simp: rw_thread_step_def cas_def rw_pending_def split: if_splits)+

lemma rw_local_other: "\<not> writes_at pc \<Longrightarrow> rw_local_at a pc = rw_local_at b pc"
  by (cases pc) simp_all

lemma holders_replace:
  assumes "t < length ts"
  shows "writers_in (ts[t := th]) + of_bool (writes_at (rw_at (ts ! t))) = writers_in ts + of_bool (writes_at (rw_at th))"
    "readers_in (ts[t := th]) + of_bool (reads_at (rw_at (ts ! t))) = readers_in ts + of_bool (reads_at (rw_at th))"
  unfolding writers_in_def readers_in_def
  using sum_list_replace [OF assms, of "\<lambda>th. of_bool (writes_at (rw_at th))" th]
    sum_list_replace [OF assms, of "\<lambda>th. of_bool (reads_at (rw_at th))" th] by (simp_all only:)

lemma writers_in_ge:
  "t < length ts \<Longrightarrow> writes_at (rw_at (ts ! t)) \<Longrightarrow> 1 \<le> writers_in ts"
  "t < length ts \<Longrightarrow> u < length ts \<Longrightarrow> t \<noteq> u \<Longrightarrow> writes_at (rw_at (ts ! t)) \<Longrightarrow> writes_at (rw_at (ts ! u)) \<Longrightarrow> 2 \<le> writers_in ts"
  unfolding writers_in_def
  using sum_list_ge_nth [of t ts "\<lambda>th. of_bool (writes_at (rw_at th))"]
    sum_list_ge_two [of t ts u "\<lambda>th. of_bool (writes_at (rw_at th))"] by simp_all

lemma rw_step_inv:
  assumes "rw_step s s'" "rw_inv N s"
  shows "rw_inv N s'"
  using assms(1)
proof cases
  case (thread t weak th n val)
  let ?ts = "rw_threads s" and ?old = "rw_threads s ! t"
  have word: "n_word s = (if writers_in ?ts = 0 then int (readers_in ?ts) else - 1)"
    and one: "writers_in ?ts = 0 \<or> writers_in ?ts = 1 \<and> readers_in ?ts = 0"
    and sum: "shared_val s + int (sum_list (map rw_pending ?ts)) = int N"
    and loc: "\<forall>th \<in> set ?ts. rw_local_at (shared_val s) (rw_at th)"
    using assms(2) by (auto simp: rw_inv_def)
  note eff = rw_thread_effect [OF thread(3) bspec [OF loc nth_mem [OF thread(2)]]]
  have W: "writers_in (?ts[t := th]) + of_bool (writes_at (rw_at ?old)) = writers_in ?ts + of_bool (writes_at (rw_at th))"
    and R: "readers_in (?ts[t := th]) + of_bool (reads_at (rw_at ?old)) = readers_in ?ts + of_bool (reads_at (rw_at th))"
    using holders_replace [OF thread(2), of th] .
  have held: "writers_in ?ts = 1" if "writes_at (rw_at ?old)"
    using writers_in_ge(1) [OF thread(2) that] one by auto
  have "n = (if writers_in (?ts[t := th]) = 0 then int (readers_in (?ts[t := th])) else - 1) \<and>
      (writers_in (?ts[t := th]) = 0 \<or> writers_in (?ts[t := th]) = 1 \<and> readers_in (?ts[t := th]) = 0)"
  proof (cases "writes_at (rw_at ?old)"; cases "writes_at (rw_at th)")
    assume "writes_at (rw_at ?old)" "writes_at (rw_at th)"
    then show ?thesis using W R eff(3,8) held word one by auto
  next
    assume "writes_at (rw_at ?old)" "\<not> writes_at (rw_at th)"
    then show ?thesis using W R eff(2,8) held word one by auto
  next
    assume "\<not> writes_at (rw_at ?old)" "writes_at (rw_at th)"
    then show ?thesis using W R eff(1) word one by (auto split: if_splits)
  next
    assume "\<not> writes_at (rw_at ?old)" "\<not> writes_at (rw_at th)"
    then show ?thesis using W R eff(4) word one by (cases "reads_at (rw_at ?old)"; cases "reads_at (rw_at th)") (auto split: if_splits)
  qed
  moreover have "val + int (sum_list (map rw_pending (?ts[t := th]))) = int N"
    using sum_list_replace [OF thread(2), of rw_pending th] eff(5) sum by linarith
  moreover have "rw_local_at val (rw_at (?ts[t := th] ! u))" if "u < length ?ts" for u
  proof (cases "u = t")
    case True
    then show ?thesis using eff(6) that by simp
  next
    case False
    have "\<not> writes_at (rw_at (?ts ! u))" if "val \<noteq> shared_val s"
    proof
      assume "writes_at (rw_at (?ts ! u))"
      moreover have "writes_at (rw_at ?old)" using eff(7) that by blast
      ultimately have "2 \<le> writers_in ?ts" using writers_in_ge(2) [OF thread(2) \<open>u < length ?ts\<close>] False by simp
      then show False using one by auto
    qed
    then show ?thesis
      using rw_local_other [of "rw_at (?ts ! u)" val "shared_val s"] loc that False by (cases "val = shared_val s") auto
  qed
  ultimately show ?thesis
    using thread(1) by (simp add: rw_inv_def all_set_conv_all_nth)
qed

lemma rw_steps_inv: "rw_step\<^sup>*\<^sup>* s s' \<Longrightarrow> rw_inv N s \<Longrightarrow> rw_inv N s'"
  by (induction rule: rtranclp_induct) (auto intro: rw_step_inv)

lemma rw_steps_length: "rw_step\<^sup>*\<^sup>* s s' \<Longrightarrow> length (rw_threads s') = length (rw_threads s)"
  by (induction rule: rtranclp_induct) (auto elim!: rw_step.cases)

lemma rw_start_inv: "rw_inv (w * count) (rw_start w r count)"
  by (auto simp: rw_inv_def rw_start_def writers_in_def readers_in_def rw_pending_def sum_list_replicate)

lemma holders_le: "readers_in ts \<le> length ts"
  unfolding readers_in_def by (induction ts) auto

text \<open>
  C34. \<^verbatim>\<open>SharedMutex\<close> keeps its contract in every interleaving of \<^verbatim>\<open>w\<close> writers and \<^verbatim>\<open>r\<close> readers, weak exchanges failing at will: \<^verbatim>\<open>_n\<close> is
  the number of readers that hold the lock, or \<open>-1\<close> when a writer holds it, and then no other thread does;
  it stays between \<open>-1\<close> and the number of threads, so the \<^verbatim>\<open>int\<close> does not overflow; and no increment of
  \<^verbatim>\<open>val\<close> is lost.
\<close>

theorem shared_mutex_contract:
  assumes "rw_step\<^sup>*\<^sup>* (rw_start w r count) s"
  shows "n_word s = (if writers_in (rw_threads s) = 0 then int (readers_in (rw_threads s)) else - 1) \<and>
    (writers_in (rw_threads s) = 0 \<or> writers_in (rw_threads s) = 1 \<and> readers_in (rw_threads s) = 0) \<and>
    - 1 \<le> n_word s \<and> n_word s \<le> int (w + r) \<and>
    (set (map rw_at (rw_threads s)) \<subseteq> {Rw_done} \<longrightarrow> shared_val s = int (w * count))"
proof -
  have inv: "rw_inv (w * count) s" using rw_steps_inv [OF assms rw_start_inv] .
  have len: "length (rw_threads s) = w + r" using rw_steps_length [OF assms] by (simp add: rw_start_def)
  have "shared_val s = int (w * count)" if "set (map rw_at (rw_threads s)) \<subseteq> {Rw_done}"
  proof -
    have "sum_list (map rw_pending (rw_threads s)) = 0"
      using that by (auto simp: sum_list_eq_0_iff rw_pending_def)
    moreover have "shared_val s + int (sum_list (map rw_pending (rw_threads s))) = int (w * count)"
      using inv unfolding rw_inv_def by blast
    ultimately show ?thesis by (simp del: sum_list_eq_0_iff)
  qed
  then show ?thesis using inv holders_le [of "rw_threads s"] len by (auto simp: rw_inv_def)
qed

theorem shared_mutex_contract_witness:
  "\<exists>s. rw_step\<^sup>*\<^sup>* (rw_start 1 1 1) s \<and> map rw_at (rw_threads s) = [W_lock, R_unload] \<and> n_word s = 1"
proof -
  define st where "st n pw kw pr kr = \<lparr>n_word = n, shared_val = 0, rw_threads = [\<lparr>rw_at = pw, rounds = kw\<rparr>, \<lparr>rw_at = pr, rounds = kr\<rparr>]\<rparr>"
    for n pw kw pr kr
  have rd: "rw_step (st n pw kw pr kr) (st n' pw kw pr' kr')"
    if "rw_thread_step False \<lparr>rw_at = pr, rounds = kr\<rparr> n 0 = Some (\<lparr>rw_at = pr', rounds = kr'\<rparr>, n', 0)" for n pw kw pr kr n' pr' kr'
    using rw_step.thread [of 1 "st n pw kw pr kr" False] that by (simp add: st_def)
  have wr: "rw_step (st n pw kw pr kr) (st n' pw' kw' pr kr)"
    if "rw_thread_step False \<lparr>rw_at = pw, rounds = kw\<rparr> n 0 = Some (\<lparr>rw_at = pw', rounds = kw'\<rparr>, n', 0)" for n pw kw pr kr n' pw' kw'
    using rw_step.thread [of 0 "st n pw kw pr kr" False] that by (simp add: st_def)
  have "rw_step (st 0 W_loop 1 R_loop 1) (st 0 W_lock 0 R_loop 1)" by (rule wr) (simp add: rw_thread_step_def)
  moreover have "rw_step (st 0 W_lock 0 R_loop 1) (st 0 W_lock 0 R_load 0)" by (rule rd) (simp add: rw_thread_step_def)
  moreover have "rw_step (st 0 W_lock 0 R_load 0) (st 0 W_lock 0 (R_cas 0) 0)" by (rule rd) (simp add: rw_thread_step_def)
  moreover have "rw_step (st 0 W_lock 0 (R_cas 0) 0) (st 1 W_lock 0 R_unload 0)" by (rule rd) (simp add: rw_thread_step_def cas_def)
  ultimately have "rw_step\<^sup>*\<^sup>* (st 0 W_loop 1 R_loop 1) (st 1 W_lock 0 R_unload 0)"
    by (meson converse_rtranclp_into_rtranclp rtranclp.rtrancl_refl)
  moreover have "st 0 W_loop 1 R_loop 1 = rw_start 1 1 1" by (simp add: st_def rw_start_def)
  ultimately have r: "rw_step\<^sup>*\<^sup>* (rw_start 1 1 1) (st 1 W_lock 0 R_unload 0)" by simp
  have at: "map rw_at (rw_threads (st 1 W_lock 0 R_unload 0)) = [W_lock, R_unload]" by (simp add: st_def)
  have "n_word (st 1 W_lock 0 R_unload 0) = 1"
    using shared_mutex_contract [OF r] by (simp add: writers_in_def readers_in_def) (simp add: st_def)
  with r at show ?thesis by (intro exI [of _ "st 1 W_lock 0 R_unload 0"]) simp
qed

end
