(* ===== verification/Bounded_Mpmc.thy ===== *)
theory Bounded_Mpmc
  imports Prelude
begin

text \<open>
  The bounded multi-producer multi-consumer queue of \<^verbatim>\<open>src/Concurrency/Bounded_mpmc.cpp\<close>. Every push and every pop takes a
  ticket; the sequence number of the ticket's slot says whose turn it is. A step is one access to \<^verbatim>\<open>_in\<close>, \<^verbatim>\<open>_out\<close> or a
  slot. Operations in flight are indexed by the number of their ticket, the value of the local variable \<^verbatim>\<open>in\<close> or \<^verbatim>\<open>out\<close>,
  so any number of threads is covered.
\<close>

section \<open>Tickets\<close>

text \<open>\<^verbatim>\<open>seq\<close> and \<^verbatim>\<open>idx\<close> take the ticket as an \<^verbatim>\<open>int\<close>; \<open>k\<close> is \<^verbatim>\<open>SHIFT\<close>, the exponent of \<^verbatim>\<open>SIZE\<close>.\<close>

definition mpmc_seq :: "nat \<Rightarrow> u64 \<Rightarrow> u64" where
  "mpmc_seq k t = scast (push_bit 1 (signed_drop_bit k (ucast t :: i32)) :: i32)"

definition mpmc_idx :: "nat \<Rightarrow> u64 \<Rightarrow> u64" where
  "mpmc_idx k t = scast (ucast t :: i32) AND (2 ^ k - 1)"

lemma no_high_bits:
  fixes v :: "'a::len word"
  assumes "unat v < 2 ^ m" "m \<le> n"
  shows "\<not> bit v n"
proof
  assume "bit v n"
  then have "bit (unat v) n" by (simp add: bit_unsigned_iff bit_imp_le_length)
  moreover have "(2::nat) ^ m \<le> 2 ^ n" using assms(2) by (intro power_increasing) auto
  then have "unat v div 2 ^ n = 0" using assms(1) by (intro div_less) linarith
  ultimately show False by (simp add: bit_iff_odd)
qed

lemma unat_scast_small:
  fixes v :: i32
  assumes "unat v < 2 ^ 31"
  shows "unat (scast v :: u64) = unat v"
proof -
  have "(scast v :: u64) = ucast v"
    using no_high_bits [OF assms] by (intro bit_word_eqI) (auto simp: bit_simps min_def)
  then show ?thesis using assms by (simp add: unsigned_ucast_eq take_bit_nat_eq_self)
qed

lemma ticket_int: "t < 2 ^ 31 \<Longrightarrow> unat (ucast (of_nat t :: u64) :: i32) = t"
  by (simp add: unsigned_ucast_eq unat_of_nat_less take_bit_nat_eq_self)

lemma unat_mpmc_seq:
  assumes "t < 2 ^ 31" "1 \<le> k"
  shows "unat (mpmc_seq k (of_nat t)) = 2 * (t div 2 ^ k)"
proof -
  let ?v = "ucast (of_nat t :: u64) :: i32"
  have v: "unat ?v = t" by (rule ticket_int [OF assms(1)])
  have sd: "signed_drop_bit k ?v = drop_bit k ?v"
    using no_high_bits [of ?v 31] v assms(1) by (intro bit_word_eqI) (auto simp: bit_simps)
  have "take_bit 32 t = t" using assms(1) by (simp add: take_bit_nat_eq_self)
  then have d: "unat (drop_bit k ?v) = t div 2 ^ k"
    unfolding unsigned_drop_bit_eq v by (simp add: drop_bit_eq_div)
  have "t div 2 ^ k \<le> t div 2 ^ 1" using assms(2) by (intro div_le_mono2 power_increasing) auto
  then have le: "2 * (t div 2 ^ k) < 2 ^ 31" using assms(1) by simp
  have "unat (push_bit 1 (drop_bit k ?v) :: i32) = 2 * (t div 2 ^ k)"
    unfolding unsigned_push_bit_eq d using le by (simp add: push_bit_eq_mult take_bit_nat_eq_self mult.commute)
  then show ?thesis using unat_scast_small [of "push_bit 1 (drop_bit k ?v)"] le by (simp add: mpmc_seq_def sd)
qed

lemma unat_mpmc_idx:
  assumes "t < 2 ^ 31" "k < 31"
  shows "unat (mpmc_idx k (of_nat t)) = t mod 2 ^ k"
proof -
  let ?v = "ucast (of_nat t :: u64) :: i32"
  have v: "unat (scast ?v :: u64) = t" using unat_scast_small [of ?v] ticket_int [OF assms(1)] assms(1) by simp
  have "mpmc_idx k (of_nat t) = take_bit k (scast ?v)" by (simp add: mpmc_idx_def take_bit_eq_mask mask_eq_exp_minus_1)
  then show ?thesis by (simp only: unsigned_take_bit_eq v take_bit_eq_mod [where 'a = nat])
qed

text \<open>
  From ticket \<open>2^31\<close> on the conversion to \<^verbatim>\<open>int\<close> gives another sequence number than the slot has after its last pop, here for the size
  \<^verbatim>\<open>1 << 20\<close> of \<^verbatim>\<open>main\<close>: the push waits for ever.
\<close>

lemma seq_after_two_gibi_tickets: "mpmc_seq 20 (2 ^ 31) \<noteq> mpmc_seq 20 (2 ^ 31 - 2 ^ 20) + 2"
  by code_simp

section \<open>Operations in flight\<close>

text \<open>
  A push that took a ticket waits for its turn, writes the value, stores the sequence number; a pop waits, moves the value
  out, stores the sequence number.
\<close>

datatype 'a push_phase = Push_wait 'a | Push_write 'a | Push_store 'a
datatype 'a pop_phase = Pop_wait | Pop_read | Pop_store 'a

text \<open>
  The slots and counters of the queue; the operations in flight by ticket number; the tickets for which a
  \<^verbatim>\<open>try_push\<close> or \<^verbatim>\<open>try_pop\<close> has found the slot ready; and, to state the properties, the values in the order of the push
  tickets, the number of pop tickets, and the results of the pops by ticket number.
\<close>

record 'a mpmc =
  slot_seq :: "u64 list"
  slot_val :: "'a list"
  m_in :: u64
  m_out :: u64
  pushing :: "nat \<rightharpoonup> 'a push_phase"
  popping :: "nat \<rightharpoonup> 'a pop_phase"
  seen_in :: "u64 set"
  seen_out :: "u64 set"
  pushes :: "'a list"
  pop_count :: nat
  results :: "nat \<rightharpoonup> 'a"

definition mpmc_new :: "'a list \<Rightarrow> 'a mpmc" where
  "mpmc_new vs = \<lparr>slot_seq = replicate (length vs) 0, slot_val = vs, m_in = 0, m_out = 0, pushing = Map.empty, popping = Map.empty,
     seen_in = {}, seen_out = {}, pushes = [], pop_count = 0, results = Map.empty\<rparr>"

abbreviation slot_of :: "nat \<Rightarrow> nat \<Rightarrow> nat" where
  "slot_of k t \<equiv> unat (mpmc_idx k (of_nat t))"

inductive mpmc_step :: "nat \<Rightarrow> 'a mpmc \<Rightarrow> 'a mpmc \<Rightarrow> bool" for k where
  push_ticket: "mpmc_step k s (s\<lparr>m_in := m_in s + 1, pushes := pushes s @ [x], pushing := (pushing s)(length (pushes s) \<mapsto> Push_wait x)\<rparr>)"
| push_turn: "pushing s t = Some (Push_wait x) \<Longrightarrow> mpmc_seq k (of_nat t) = slot_seq s ! slot_of k t \<Longrightarrow>
    mpmc_step k s (s\<lparr>pushing := (pushing s)(t \<mapsto> Push_write x)\<rparr>)"
| push_value: "pushing s t = Some (Push_write x) \<Longrightarrow>
    mpmc_step k s (s\<lparr>slot_val := (slot_val s)[slot_of k t := x], pushing := (pushing s)(t \<mapsto> Push_store x)\<rparr>)"
| push_done: "pushing s t = Some (Push_store x) \<Longrightarrow>
    mpmc_step k s (s\<lparr>slot_seq := (slot_seq s)[slot_of k t := mpmc_seq k (of_nat t) + 1], pushing := (pushing s)(t := None)\<rparr>)"
| pop_ticket: "mpmc_step k s (s\<lparr>m_out := m_out s + 1, pop_count := Suc (pop_count s), popping := (popping s)(pop_count s \<mapsto> Pop_wait)\<rparr>)"
| pop_turn: "popping s t = Some Pop_wait \<Longrightarrow> mpmc_seq k (of_nat t) + 1 = slot_seq s ! slot_of k t \<Longrightarrow>
    mpmc_step k s (s\<lparr>popping := (popping s)(t \<mapsto> Pop_read)\<rparr>)"
| pop_value: "popping s t = Some Pop_read \<Longrightarrow>
    mpmc_step k s (s\<lparr>popping := (popping s)(t \<mapsto> Pop_store (slot_val s ! slot_of k t))\<rparr>)"
| pop_done: "popping s t = Some (Pop_store v) \<Longrightarrow>
    mpmc_step k s (s\<lparr>slot_seq := (slot_seq s)[slot_of k t := mpmc_seq k (of_nat t) + 2], popping := (popping s)(t := None),
      results := (results s)(t \<mapsto> v)\<rparr>)"
| try_push_look: "mpmc_seq k w = slot_seq s ! unat (mpmc_idx k w) \<Longrightarrow> mpmc_step k s (s\<lparr>seen_in := insert w (seen_in s)\<rparr>)"
| try_push_cas: "w \<in> seen_in s \<Longrightarrow> w = m_in s \<Longrightarrow>
    mpmc_step k s (s\<lparr>m_in := w + 1, pushes := pushes s @ [x], pushing := (pushing s)(length (pushes s) \<mapsto> Push_write x)\<rparr>)"
| try_pop_look: "mpmc_seq k w + 1 = slot_seq s ! unat (mpmc_idx k w) \<Longrightarrow> mpmc_step k s (s\<lparr>seen_out := insert w (seen_out s)\<rparr>)"
| try_pop_cas: "w \<in> seen_out s \<Longrightarrow> w = m_out s \<Longrightarrow>
    mpmc_step k s (s\<lparr>m_out := w + 1, pop_count := Suc (pop_count s), popping := (popping s)(pop_count s \<mapsto> Pop_read)\<rparr>)"

section \<open>The invariant, ticket by ticket\<close>

text \<open>
  What ticket \<open>t\<close> of round \<open>r\<close> may be doing when its slot has sequence number \<open>q\<close> and value \<open>v\<close>: its push is before its turn, at
  it, or over; the same for its pop; the slot holds its value in between. \<open>P\<close> are the pushed values and \<open>c\<close> is the
  number of pop tickets.
\<close>

definition push_ok :: "'a list \<Rightarrow> nat \<Rightarrow> nat \<Rightarrow> nat \<Rightarrow> 'a \<Rightarrow> 'a push_phase option \<Rightarrow> bool" where
  "push_ok P t r q v ph =
  (case ph of
     None \<Rightarrow> if t < length P then 2 * r + 1 \<le> q else q \<le> 2 * r
   | Some (Push_wait x) \<Rightarrow> t < length P \<and> x = P ! t \<and> q \<le> 2 * r
   | Some (Push_write x) \<Rightarrow> t < length P \<and> x = P ! t \<and> q = 2 * r
   | Some (Push_store x) \<Rightarrow> t < length P \<and> x = P ! t \<and> q = 2 * r \<and> v = x)"

definition pop_ok :: "'a list \<Rightarrow> nat \<Rightarrow> nat \<Rightarrow> nat \<Rightarrow> nat \<Rightarrow> 'a pop_phase option \<Rightarrow> 'a option \<Rightarrow> bool" where
  "pop_ok P c t r q ph res =
  (case ph of
     None \<Rightarrow> if t < c then 2 * r + 2 \<le> q \<and> t < length P \<and> res = Some (P ! t) else q \<le> 2 * r + 1 \<and> res = None
   | Some Pop_wait \<Rightarrow> t < c \<and> q \<le> 2 * r + 1 \<and> res = None
   | Some Pop_read \<Rightarrow> t < c \<and> q = 2 * r + 1 \<and> res = None
   | Some (Pop_store w) \<Rightarrow> t < c \<and> q = 2 * r + 1 \<and> t < length P \<and> w = P ! t \<and> res = None)"

definition slot_ok :: "'a list \<Rightarrow> nat \<Rightarrow> nat \<Rightarrow> nat \<Rightarrow> nat \<Rightarrow> 'a \<Rightarrow> bool \<Rightarrow> bool \<Rightarrow> bool" where
  "slot_ok P c t r q v si so \<longleftrightarrow> (q = 2 * r + 1 \<longrightarrow> t < length P \<and> v = P ! t) \<and>
     (si \<and> length P \<le> t \<longrightarrow> q = 2 * r) \<and> (so \<and> c \<le> t \<longrightarrow> q = 2 * r + 1)"

definition ticket_ok :: "nat \<Rightarrow> 'a mpmc \<Rightarrow> nat \<Rightarrow> bool" where
  "ticket_ok k s t \<longleftrightarrow>
    (let r = t div 2 ^ k; q = unat (slot_seq s ! (t mod 2 ^ k)); v = slot_val s ! (t mod 2 ^ k)
     in push_ok (pushes s) t r q v (pushing s t) \<and> pop_ok (pushes s) (pop_count s) t r q (popping s t) (results s t) \<and>
        slot_ok (pushes s) (pop_count s) t r q v (of_nat t \<in> seen_in s) (of_nat t \<in> seen_out s))"

definition mpmc_inv :: "nat \<Rightarrow> 'a mpmc \<Rightarrow> bool" where
  "mpmc_inv k s \<longleftrightarrow> length (slot_seq s) = 2 ^ k \<and> length (slot_val s) = 2 ^ k \<and>
    m_in s = of_nat (length (pushes s)) \<and> m_out s = of_nat (pop_count s) \<and>
    (\<forall>t. pushing s t \<noteq> None \<longrightarrow> t < length (pushes s)) \<and> (\<forall>t. popping s t \<noteq> None \<longrightarrow> t < pop_count s) \<and>
    (\<forall>t < 2 ^ 31. ticket_ok k s t)"

lemmas ok_defs = push_ok_def pop_ok_def slot_ok_def

lemma ticket_eq: "t mod n = t' mod n \<Longrightarrow> t div n = t' div n \<Longrightarrow> t = (t' :: nat)"
  by (metis div_mult_mod_eq)

lemma mpmc_new_inv: "mpmc_inv k (mpmc_new vs)" if "length vs = 2 ^ k"
proof -
  have "replicate (2 ^ k) (0::u64) ! (t mod 2 ^ k) = 0" for t by simp
  then show ?thesis using that by (auto simp: mpmc_inv_def mpmc_new_def ticket_ok_def Let_def ok_defs)
qed

text \<open>A ticket of another round does not notice that the slot goes from one turn to the next.\<close>

lemma other_push_store:
  assumes "r' \<noteq> r" "push_ok P t' r' (2 * r) v ph" "pop_ok P c t' r' (2 * r) po res" "slot_ok P c t' r' (2 * r) v si so"
  shows "push_ok P t' r' (2 * r + 1) v' ph \<and> pop_ok P c t' r' (2 * r + 1) po res \<and> slot_ok P c t' r' (2 * r + 1) v' si so"
  using assms by (auto simp: ok_defs split: option.splits push_phase.splits pop_phase.splits if_splits) presburger+

lemma other_push_value:
  assumes "r' \<noteq> r" "push_ok P t' r' (2 * r) v ph" "pop_ok P c t' r' (2 * r) po res" "slot_ok P c t' r' (2 * r) v si so"
  shows "push_ok P t' r' (2 * r) v' ph \<and> pop_ok P c t' r' (2 * r) po res \<and> slot_ok P c t' r' (2 * r) v' si so"
  using assms by (auto simp: push_ok_def slot_ok_def split: option.splits push_phase.splits if_splits)

lemma other_pop_store:
  assumes "r' \<noteq> r" "push_ok P t' r' (2 * r + 1) v ph" "pop_ok P c t' r' (2 * r + 1) po res" "slot_ok P c t' r' (2 * r + 1) v si so"
  shows "push_ok P t' r' (2 * r + 2) v ph \<and> pop_ok P c t' r' (2 * r + 2) po res \<and> slot_ok P c t' r' (2 * r + 2) v si so"
  using assms by (auto simp: ok_defs split: option.splits push_phase.splits pop_phase.splits if_splits) presburger+

text \<open>A new ticket, a stored sequence number, a written value: what each does to every ticket.\<close>

lemma ticket_okD:
  assumes "ticket_ok k s t"
  shows "push_ok (pushes s) t (t div 2 ^ k) (unat (slot_seq s ! (t mod 2 ^ k))) (slot_val s ! (t mod 2 ^ k)) (pushing s t)"
    "pop_ok (pushes s) (pop_count s) t (t div 2 ^ k) (unat (slot_seq s ! (t mod 2 ^ k))) (popping s t) (results s t)"
    "slot_ok (pushes s) (pop_count s) t (t div 2 ^ k) (unat (slot_seq s ! (t mod 2 ^ k))) (slot_val s ! (t mod 2 ^ k))
      (of_nat t \<in> seen_in s) (of_nat t \<in> seen_out s)"
  using assms by (simp_all add: ticket_ok_def Let_def)

lemma ticket_okI:
  assumes "push_ok (pushes s) t (t div 2 ^ k) (unat (slot_seq s ! (t mod 2 ^ k))) (slot_val s ! (t mod 2 ^ k)) (pushing s t)"
    "pop_ok (pushes s) (pop_count s) t (t div 2 ^ k) (unat (slot_seq s ! (t mod 2 ^ k))) (popping s t) (results s t)"
    "slot_ok (pushes s) (pop_count s) t (t div 2 ^ k) (unat (slot_seq s ! (t mod 2 ^ k))) (slot_val s ! (t mod 2 ^ k))
      (of_nat t \<in> seen_in s) (of_nat t \<in> seen_out s)"
  shows "ticket_ok k s t"
  using assms by (simp add: ticket_ok_def Let_def)

lemma new_push_ticket:
  assumes "push_ok P t r q v ph" "pop_ok P c t r q po res" "slot_ok P c t r q v si so"
    "t = length P \<Longrightarrow> ph = None \<and> (ph' = Some (Push_wait x) \<or> si \<and> ph' = Some (Push_write x))" "t \<noteq> length P \<Longrightarrow> ph' = ph"
  shows "push_ok (P @ [x]) t r q v ph'" "pop_ok (P @ [x]) c t r q po res" "slot_ok (P @ [x]) c t r q v si so"
  using assms
  by (auto simp: ok_defs nth_append split: option.splits push_phase.splits pop_phase.splits if_splits)

lemma new_pop_ticket:
  assumes "pop_ok P c t r q po res" "slot_ok P c t r q v si so"
    "t = c \<Longrightarrow> po = None \<and> (po' = Some Pop_wait \<or> so \<and> po' = Some Pop_read)" "t \<noteq> c \<Longrightarrow> po' = po"
  shows "pop_ok P (Suc c) t r q po' res" "slot_ok P (Suc c) t r q v si so"
  using assms by (auto simp: ok_defs split: option.splits pop_phase.splits if_splits)

lemma unat_mpmc_seq_plus:
  assumes "t < 2 ^ 31" "1 \<le> k"
  shows "unat (mpmc_seq k (of_nat t) + 1) = 2 * (t div 2 ^ k) + 1" "unat (mpmc_seq k (of_nat t) + 2) = 2 * (t div 2 ^ k) + 2"
proof -
  have "t div 2 ^ k < 2 ^ 31" using assms(1) by (rule le_less_trans [OF div_le_dividend])
  then have "unat (mpmc_seq k (of_nat t)) < 2 ^ 33" using unat_mpmc_seq [OF assms] by simp
  then show "unat (mpmc_seq k (of_nat t) + 1) = 2 * (t div 2 ^ k) + 1" "unat (mpmc_seq k (of_nat t) + 2) = 2 * (t div 2 ^ k) + 2"
    using unat_mpmc_seq [OF assms] by (simp_all add: unat_add_less)
qed

lemma push_claim_inv:
  assumes "mpmc_inv k s" "length (pushes s) < 2 ^ 31" "ph = Push_wait x \<or> m_in s \<in> seen_in s \<and> ph = Push_write x"
  shows "mpmc_inv k (s\<lparr>m_in := m_in s + 1, pushes := pushes s @ [x], pushing := (pushing s)(length (pushes s) \<mapsto> ph)\<rparr>)"
    (is "mpmc_inv k ?s")
proof -
  have none: "pushing s (length (pushes s)) = None" and mi: "m_in s = of_nat (length (pushes s))"
    using assms(1) by (auto simp: mpmc_inv_def)
  have "ticket_ok k ?s t" if "t < 2 ^ 31" for t
  proof -
    have "ticket_ok k s t" using assms(1) that by (simp add: mpmc_inv_def)
    note ok = ticket_okD [OF this]
    show ?thesis
      by (rule ticket_okI) (use new_push_ticket [OF ok, of "pushing ?s t" x] assms(3) none mi in auto)
  qed
  then show ?thesis using assms(1) by (auto simp: mpmc_inv_def less_Suc_eq)
qed

lemma pop_claim_inv:
  assumes "mpmc_inv k s" "pop_count s < 2 ^ 31" "ph = Pop_wait \<or> m_out s \<in> seen_out s \<and> ph = Pop_read"
  shows "mpmc_inv k (s\<lparr>m_out := m_out s + 1, pop_count := Suc (pop_count s), popping := (popping s)(pop_count s \<mapsto> ph)\<rparr>)"
    (is "mpmc_inv k ?s")
proof -
  have none: "popping s (pop_count s) = None" and mo: "m_out s = of_nat (pop_count s)"
    using assms(1) by (auto simp: mpmc_inv_def)
  have "ticket_ok k ?s t" if "t < 2 ^ 31" for t
  proof -
    have "ticket_ok k s t" using assms(1) that by (simp add: mpmc_inv_def)
    note ok = ticket_okD [OF this]
    show ?thesis
      by (rule ticket_okI) (use ok new_pop_ticket [OF ok(2,3), of "popping ?s t"] assms(3) none mo in auto)
  qed
  then show ?thesis using assms(1) by (auto simp: mpmc_inv_def less_Suc_eq)
qed

text \<open>A step of the operation with ticket \<open>t\<close> changes only its own phase and its slot.\<close>

lemma slot_update_inv:
  assumes "mpmc_inv k s" "t < 2 ^ 31"
    "s' = s\<lparr>slot_seq := (slot_seq s)[t mod 2 ^ k := q], slot_val := (slot_val s)[t mod 2 ^ k := v],
        pushing := (pushing s)(t := ph), popping := (popping s)(t := po), results := (results s)(t := res)\<rparr>"
    "ph \<noteq> None \<Longrightarrow> t < length (pushes s)" "po \<noteq> None \<Longrightarrow> t < pop_count s"
    "push_ok (pushes s) t (t div 2 ^ k) (unat q) v ph" "pop_ok (pushes s) (pop_count s) t (t div 2 ^ k) (unat q) po res"
    "slot_ok (pushes s) (pop_count s) t (t div 2 ^ k) (unat q) v (of_nat t \<in> seen_in s) (of_nat t \<in> seen_out s)"
    "\<And>t' r' si so. r' \<noteq> t div 2 ^ k \<Longrightarrow>
      push_ok (pushes s) t' r' (unat (slot_seq s ! (t mod 2 ^ k))) (slot_val s ! (t mod 2 ^ k)) (pushing s t') \<Longrightarrow>
      pop_ok (pushes s) (pop_count s) t' r' (unat (slot_seq s ! (t mod 2 ^ k))) (popping s t') (results s t') \<Longrightarrow>
      slot_ok (pushes s) (pop_count s) t' r' (unat (slot_seq s ! (t mod 2 ^ k))) (slot_val s ! (t mod 2 ^ k)) si so \<Longrightarrow>
      push_ok (pushes s) t' r' (unat q) v (pushing s t') \<and>
      pop_ok (pushes s) (pop_count s) t' r' (unat q) (popping s t') (results s t') \<and>
      slot_ok (pushes s) (pop_count s) t' r' (unat q) v si so"
  shows "mpmc_inv k s'"
proof -
  have len: "length (slot_seq s) = 2 ^ k" "length (slot_val s) = 2 ^ k" using assms(1) by (auto simp: mpmc_inv_def)
  have "ticket_ok k s' t'" if "t' < 2 ^ 31" for t'
  proof -
    have "ticket_ok k s t'" using assms(1) that by (simp add: mpmc_inv_def)
    note ok = ticket_okD [OF this]
    consider "t' = t" | "t' \<noteq> t" "t' mod 2 ^ k = t mod 2 ^ k" | "t' \<noteq> t" "t' mod 2 ^ k \<noteq> t mod 2 ^ k" by blast
    then show ?thesis
    proof cases
      case 1
      then show ?thesis using assms(3,6-8) len by (intro ticket_okI) simp_all
    next
      case 2
      then have "t' div 2 ^ k \<noteq> t div 2 ^ k" using ticket_eq by metis
      then show ?thesis using assms(9) [of "t' div 2 ^ k" t'] ok 2 assms(3) len by (intro ticket_okI) simp_all
    next
      case 3
      then show ?thesis using ok assms(3) by (intro ticket_okI) simp_all
    qed
  qed
  then show ?thesis using assms(1,4,5) by (auto simp: mpmc_inv_def assms(3))
qed

lemma push_ok_in_flight: "push_ok P t r q v ph \<Longrightarrow> ph \<noteq> None \<Longrightarrow> t < length P"
  by (cases ph; cases "the ph") (auto simp: push_ok_def)

lemma pop_ok_in_flight: "pop_ok P c t r q po res \<Longrightarrow> po \<noteq> None \<Longrightarrow> t < c"
  by (cases po; cases "the po") (auto simp: pop_ok_def)

lemma phase_update_inv:
  assumes inv: "mpmc_inv k s" and t: "t < 2 ^ 31"
    and ph: "push_ok (pushes s) t (t div 2 ^ k) (unat (slot_seq s ! (t mod 2 ^ k))) (slot_val s ! (t mod 2 ^ k)) ph"
    and po: "pop_ok (pushes s) (pop_count s) t (t div 2 ^ k) (unat (slot_seq s ! (t mod 2 ^ k))) po (results s t)"
  shows "mpmc_inv k (s\<lparr>pushing := (pushing s)(t := ph), popping := (popping s)(t := po)\<rparr>)"
proof -
  have ok: "ticket_ok k s t" using inv t by (simp add: mpmc_inv_def)
  show ?thesis
  proof (rule slot_update_inv [OF inv t, where q = "slot_seq s ! (t mod 2 ^ k)" and v = "slot_val s ! (t mod 2 ^ k)" and ph = ph and po = po
        and res = "results s t"])
    show "ph \<noteq> None \<Longrightarrow> t < length (pushes s)" by (rule push_ok_in_flight [OF ph])
    show "po \<noteq> None \<Longrightarrow> t < pop_count s" by (rule pop_ok_in_flight [OF po])
  qed (simp_all add: ph po ticket_okD(3) [OF ok])
qed

lemma push_turn_inv:
  assumes "mpmc_inv k s" "t < 2 ^ 31" "1 \<le> k" "k < 31" "pushing s t = Some (Push_wait x)"
    "mpmc_seq k (of_nat t) = slot_seq s ! slot_of k t"
  shows "mpmc_inv k (s\<lparr>pushing := (pushing s)(t \<mapsto> Push_write x)\<rparr>)"
proof -
  have ok: "ticket_ok k s t" using assms(1,2) by (simp add: mpmc_inv_def)
  have "unat (slot_seq s ! (t mod 2 ^ k)) = 2 * (t div 2 ^ k)"
    using assms(6) unat_mpmc_idx [OF assms(2,4)] unat_mpmc_seq [OF assms(2,3)] by simp
  then have "push_ok (pushes s) t (t div 2 ^ k) (unat (slot_seq s ! (t mod 2 ^ k))) (slot_val s ! (t mod 2 ^ k)) (Some (Push_write x))"
    using ticket_okD(1) [OF ok] assms(5) by (simp add: push_ok_def)
  from phase_update_inv [OF assms(1,2) this ticket_okD(2) [OF ok]] show ?thesis by simp
qed

lemma push_value_inv:
  assumes "mpmc_inv k s" "t < 2 ^ 31" "k < 31" "pushing s t = Some (Push_write x)"
  shows "mpmc_inv k (s\<lparr>slot_val := (slot_val s)[slot_of k t := x], pushing := (pushing s)(t \<mapsto> Push_store x)\<rparr>)"
proof -
  have ok: "ticket_ok k s t" using assms(1,2) by (simp add: mpmc_inv_def)
  note o = ticket_okD [OF ok]
  have q: "unat (slot_seq s ! (t mod 2 ^ k)) = 2 * (t div 2 ^ k)" "t < length (pushes s)" "x = pushes s ! t"
    using o(1) assms(4) by (auto simp: push_ok_def)
  show ?thesis
  proof (rule slot_update_inv [OF assms(1,2), where q = "slot_seq s ! (t mod 2 ^ k)" and v = x and ph = "Some (Push_store x)"
        and po = "popping s t" and res = "results s t", unfolded q(1)])
    show "popping s t \<noteq> None \<Longrightarrow> t < pop_count s" by (rule pop_ok_in_flight [OF o(2)])
    show "slot_ok (pushes s) (pop_count s) t (t div 2 ^ k) (2 * (t div 2 ^ k)) x (of_nat t \<in> seen_in s) (of_nat t \<in> seen_out s)"
      using o(3) q by (simp add: slot_ok_def)
    show "push_ok (pushes s) t (t div 2 ^ k) (2 * (t div 2 ^ k)) x (Some (Push_store x))" using q by (simp add: push_ok_def)
    show "pop_ok (pushes s) (pop_count s) t (t div 2 ^ k) (2 * (t div 2 ^ k)) (popping s t) (results s t)" using o(2) q(1) by simp
  qed (erule (3) other_push_value | simp add: unat_mpmc_idx [OF assms(2,3)] q(2))+
qed

lemma push_done_inv:
  assumes "mpmc_inv k s" "t < 2 ^ 31" "1 \<le> k" "k < 31" "pushing s t = Some (Push_store x)"
  shows "mpmc_inv k (s\<lparr>slot_seq := (slot_seq s)[slot_of k t := mpmc_seq k (of_nat t) + 1], pushing := (pushing s)(t := None)\<rparr>)"
proof -
  have ok: "ticket_ok k s t" using assms(1,2) by (simp add: mpmc_inv_def)
  note o = ticket_okD [OF ok]
  have q: "unat (slot_seq s ! (t mod 2 ^ k)) = 2 * (t div 2 ^ k)" "t < length (pushes s)" "slot_val s ! (t mod 2 ^ k) = pushes s ! t"
    using o(1) assms(5) by (auto simp: push_ok_def)
  show ?thesis
  proof (rule slot_update_inv [OF assms(1,2), where q = "mpmc_seq k (of_nat t) + 1" and v = "slot_val s ! (t mod 2 ^ k)" and ph = None
        and po = "popping s t" and res = "results s t", unfolded q(1) unat_mpmc_seq_plus [OF assms(2,3)]])
    show "popping s t \<noteq> None \<Longrightarrow> t < pop_count s" by (rule pop_ok_in_flight [OF o(2)])
    show "slot_ok (pushes s) (pop_count s) t (t div 2 ^ k) (2 * (t div 2 ^ k) + 1) (slot_val s ! (t mod 2 ^ k)) (of_nat t \<in> seen_in s) (of_nat t \<in> seen_out s)"
      using o(3) q by (simp add: slot_ok_def)
    show "push_ok (pushes s) t (t div 2 ^ k) (2 * (t div 2 ^ k) + 1) (slot_val s ! (t mod 2 ^ k)) None" using q by (simp add: push_ok_def)
    show "pop_ok (pushes s) (pop_count s) t (t div 2 ^ k) (2 * (t div 2 ^ k) + 1) (popping s t) (results s t)"
      using o(2) q(1) by (auto simp: pop_ok_def split: option.splits pop_phase.splits if_splits)
  qed (erule (3) other_push_store | simp add: unat_mpmc_idx [OF assms(2,4)] q(2))+
qed

lemma pop_turn_inv:
  assumes "mpmc_inv k s" "t < 2 ^ 31" "1 \<le> k" "k < 31" "popping s t = Some Pop_wait"
    "mpmc_seq k (of_nat t) + 1 = slot_seq s ! slot_of k t"
  shows "mpmc_inv k (s\<lparr>popping := (popping s)(t \<mapsto> Pop_read)\<rparr>)"
proof -
  have ok: "ticket_ok k s t" using assms(1,2) by (simp add: mpmc_inv_def)
  have "unat (slot_seq s ! (t mod 2 ^ k)) = 2 * (t div 2 ^ k) + 1"
    using unat_mpmc_seq_plus(1) [OF assms(2,3)] unfolding assms(6) unat_mpmc_idx [OF assms(2,4)] .
  then have "pop_ok (pushes s) (pop_count s) t (t div 2 ^ k) (unat (slot_seq s ! (t mod 2 ^ k))) (Some Pop_read) (results s t)"
    using ticket_okD(2) [OF ok] assms(5) by (simp add: pop_ok_def)
  from phase_update_inv [OF assms(1,2) ticket_okD(1) [OF ok] this] show ?thesis by simp
qed

lemma pop_value_inv:
  assumes "mpmc_inv k s" "t < 2 ^ 31" "k < 31" "popping s t = Some Pop_read"
  shows "mpmc_inv k (s\<lparr>popping := (popping s)(t \<mapsto> Pop_store (slot_val s ! slot_of k t))\<rparr>)"
proof -
  have ok: "ticket_ok k s t" using assms(1,2) by (simp add: mpmc_inv_def)
  note o = ticket_okD [OF ok]
  have "pop_ok (pushes s) (pop_count s) t (t div 2 ^ k) (unat (slot_seq s ! (t mod 2 ^ k))) (Some (Pop_store (slot_val s ! slot_of k t))) (results s t)"
    using o(2,3) assms(4) unfolding unat_mpmc_idx [OF assms(2,3)] by (simp add: pop_ok_def slot_ok_def)
  from phase_update_inv [OF assms(1,2) o(1) this] show ?thesis by simp
qed

lemma pop_done_inv:
  assumes "mpmc_inv k s" "t < 2 ^ 31" "1 \<le> k" "k < 31" "popping s t = Some (Pop_store v)"
  shows "mpmc_inv k (s\<lparr>slot_seq := (slot_seq s)[slot_of k t := mpmc_seq k (of_nat t) + 2], popping := (popping s)(t := None),
      results := (results s)(t \<mapsto> v)\<rparr>)"
proof -
  have ok: "ticket_ok k s t" using assms(1,2) by (simp add: mpmc_inv_def)
  note o = ticket_okD [OF ok]
  have q: "unat (slot_seq s ! (t mod 2 ^ k)) = 2 * (t div 2 ^ k) + 1" "t < length (pushes s)" "v = pushes s ! t" "t < pop_count s"
    using o(2) assms(5) by (auto simp: pop_ok_def)
  show ?thesis
  proof (rule slot_update_inv [OF assms(1,2), where q = "mpmc_seq k (of_nat t) + 2" and v = "slot_val s ! (t mod 2 ^ k)" and ph = "pushing s t"
        and po = None and res = "Some v", unfolded q(1) unat_mpmc_seq_plus [OF assms(2,3)]])
    show "slot_ok (pushes s) (pop_count s) t (t div 2 ^ k) (2 * (t div 2 ^ k) + 2) (slot_val s ! (t mod 2 ^ k)) (of_nat t \<in> seen_in s) (of_nat t \<in> seen_out s)"
      using o(3) q by (simp add: slot_ok_def)
    show "push_ok (pushes s) t (t div 2 ^ k) (2 * (t div 2 ^ k) + 2) (slot_val s ! (t mod 2 ^ k)) (pushing s t)"
      using o(1) q(1,2) by (auto simp: push_ok_def split: option.splits push_phase.splits if_splits)
    show "pop_ok (pushes s) (pop_count s) t (t div 2 ^ k) (2 * (t div 2 ^ k) + 2) None (Some v)" using q by (simp add: pop_ok_def)
  qed (erule (3) other_pop_store | simp add: unat_mpmc_idx [OF assms(2,4)] q(2))+
qed

lemma look_inv:
  assumes "mpmc_inv k s" "1 \<le> k" "k < 31"
    "\<forall>w \<in> si - seen_in s. mpmc_seq k w = slot_seq s ! unat (mpmc_idx k w)"
    "\<forall>w \<in> so - seen_out s. mpmc_seq k w + 1 = slot_seq s ! unat (mpmc_idx k w)"
  shows "mpmc_inv k (s\<lparr>seen_in := si, seen_out := so\<rparr>)"
proof -
  have "ticket_ok k (s\<lparr>seen_in := si, seen_out := so\<rparr>) t" if t: "t < 2 ^ 31" for t
  proof -
    have ok: "ticket_ok k s t" using assms(1) t by (simp add: mpmc_inv_def)
    note o = ticket_okD [OF ok]
    have "unat (slot_seq s ! (t mod 2 ^ k)) = 2 * (t div 2 ^ k)" if "of_nat t \<in> si - seen_in s"
      using bspec [OF assms(4) that] unat_mpmc_idx [OF t assms(3)] unat_mpmc_seq [OF t assms(2)] by simp
    moreover have "unat (slot_seq s ! (t mod 2 ^ k)) = 2 * (t div 2 ^ k) + 1" if "of_nat t \<in> so - seen_out s"
      using unat_mpmc_seq_plus(1) [OF t assms(2)] unfolding bspec [OF assms(5) that] unat_mpmc_idx [OF t assms(3)] .
    ultimately have "slot_ok (pushes s) (pop_count s) t (t div 2 ^ k) (unat (slot_seq s ! (t mod 2 ^ k))) (slot_val s ! (t mod 2 ^ k))
        (of_nat t \<in> si) (of_nat t \<in> so)"
      using o(3) unfolding slot_ok_def by blast
    with o(1,2) show ?thesis by (intro ticket_okI) simp_all
  qed
  then show ?thesis using assms(1) by (simp add: mpmc_inv_def)
qed

lemma mpmc_step_mono: "length (pushes s) \<le> length (pushes s') \<and> pop_count s \<le> pop_count s'" if "mpmc_step k s s'"
  using that by cases simp_all

lemma in_flight_small:
  assumes "mpmc_inv k s" "length (pushes s) \<le> 2 ^ 31" "pop_count s \<le> 2 ^ 31"
  shows "pushing s t = Some ph \<Longrightarrow> t < 2 ^ 31" "popping s t = Some po \<Longrightarrow> t < 2 ^ 31"
proof -
  show "t < 2 ^ 31" if "pushing s t = Some ph"
  proof -
    have "t < length (pushes s)" using assms(1) that by (auto simp: mpmc_inv_def)
    then show ?thesis using assms(2) by linarith
  qed
  show "t < 2 ^ 31" if "popping s t = Some po"
  proof -
    have "t < pop_count s" using assms(1) that by (auto simp: mpmc_inv_def)
    then show ?thesis using assms(3) by linarith
  qed
qed

lemma mpmc_step_inv:
  assumes step: "mpmc_step k s s'" and inv: "mpmc_inv k s" and k: "1 \<le> k" "k < 31"
    and bound: "length (pushes s') \<le> 2 ^ 31" "pop_count s' \<le> 2 ^ 31"
  shows "mpmc_inv k s'"
proof -
  have "length (pushes s) \<le> 2 ^ 31" "pop_count s \<le> 2 ^ 31" using mpmc_step_mono [OF step] bound by linarith+
  note small = in_flight_small [OF inv this]
  from step show ?thesis
  proof cases
    case (push_ticket x)
    then show ?thesis using push_claim_inv [OF inv, of "Push_wait x" x] bound(1) by simp
  next
    case (push_turn t x)
    then show ?thesis using push_turn_inv [OF inv small(1) k] by simp
  next
    case (push_value t x)
    then show ?thesis using push_value_inv [OF inv small(1) k(2)] by simp
  next
    case (push_done t x)
    then show ?thesis using push_done_inv [OF inv small(1) k] by simp
  next
    case pop_ticket
    then show ?thesis using pop_claim_inv [OF inv, of Pop_wait] bound(2) by simp
  next
    case (pop_turn t)
    then show ?thesis using pop_turn_inv [OF inv small(2) k] by simp
  next
    case (pop_value t)
    then show ?thesis using pop_value_inv [OF inv small(2) k(2)] by simp
  next
    case (pop_done t v)
    then show ?thesis using pop_done_inv [OF inv small(2) k] by simp
  next
    case (try_push_look w)
    then show ?thesis using look_inv [OF inv k, of "insert w (seen_in s)" "seen_out s"] by (simp add: insert_Diff_if split: if_splits)
  next
    case (try_push_cas w x)
    then show ?thesis using push_claim_inv [OF inv, of "Push_write x" x] bound(1) by simp
  next
    case (try_pop_look w)
    then show ?thesis using look_inv [OF inv k, of "seen_in s" "insert w (seen_out s)"] by (simp add: insert_Diff_if split: if_splits)
  next
    case (try_pop_cas w)
    then show ?thesis using pop_claim_inv [OF inv, of Pop_read] bound(2) by simp
  qed
qed

lemma mpmc_steps_inv:
  assumes "(mpmc_step k)\<^sup>*\<^sup>* s s'" "mpmc_inv k s" "1 \<le> k" "k < 31" "length (pushes s') \<le> 2 ^ 31" "pop_count s' \<le> 2 ^ 31"
  shows "mpmc_inv k s'"
  using assms
proof (induction rule: rtranclp_induct)
  case (step u w)
  have "length (pushes u) \<le> 2 ^ 31" "pop_count u \<le> 2 ^ 31" using mpmc_step_mono [OF step.hyps(2)] step.prems(4,5) by linarith+
  then show ?case using step.IH step.prems by (intro mpmc_step_inv [OF step.hyps(2)]) auto
qed

section \<open>Order and exclusive access\<close>

text \<open>The operation with ticket \<open>t\<close> is between its turn and its store of the sequence number: it may access the value of its slot.\<close>

definition push_at :: "'a mpmc \<Rightarrow> nat \<Rightarrow> bool" where
  "push_at s t = (case pushing s t of Some (Push_write _) \<Rightarrow> True | Some (Push_store _) \<Rightarrow> True | _ \<Rightarrow> False)"

definition pop_at :: "'a mpmc \<Rightarrow> nat \<Rightarrow> bool" where
  "pop_at s t = (case popping s t of Some Pop_read \<Rightarrow> True | Some (Pop_store _) \<Rightarrow> True | _ \<Rightarrow> False)"

lemma push_atD:
  assumes "push_at s t" "ticket_ok k s t"
  shows "unat (slot_seq s ! (t mod 2 ^ k)) = 2 * (t div 2 ^ k)"
  using assms(1) ticket_okD(1) [OF assms(2)] by (auto simp: push_at_def push_ok_def split: option.splits push_phase.splits)

lemma pop_atD:
  assumes "pop_at s t" "ticket_ok k s t"
  shows "unat (slot_seq s ! (t mod 2 ^ k)) = 2 * (t div 2 ^ k) + 1"
  using assms(1) ticket_okD(2) [OF assms(2)] by (auto simp: pop_at_def pop_ok_def split: option.splits pop_phase.splits)

lemma finished_pop:
  assumes "ticket_ok k s t" "2 * (t div 2 ^ k) + 2 \<le> unat (slot_seq s ! (t mod 2 ^ k))"
  shows "t < pop_count s \<and> popping s t = None"
  using ticket_okD(2) [OF assms(1)] assms(2) by (auto simp: pop_ok_def split: option.splits pop_phase.splits if_splits)

lemma previous_round:
  assumes "2 ^ k \<le> (t::nat)"
  shows "(t - 2 ^ k) mod 2 ^ k = t mod 2 ^ k" "t div 2 ^ k = Suc ((t - 2 ^ k) div 2 ^ k)"
  using assms by (simp_all add: le_mod_geq le_div_geq)

lemma mpmc_inv_order:
  assumes inv: "mpmc_inv k s" and bound: "length (pushes s) \<le> 2 ^ 31" "pop_count s \<le> 2 ^ 31"
  shows "t < pop_count s \<Longrightarrow> popping s t = None \<Longrightarrow> t < length (pushes s) \<and> results s t = Some (pushes s ! t)"
    and "push_at s t \<Longrightarrow> 2 ^ k \<le> t \<Longrightarrow> t - 2 ^ k < pop_count s \<and> popping s (t - 2 ^ k) = None"
    and "push_at s t \<or> pop_at s t \<Longrightarrow> push_at s t' \<or> pop_at s t' \<Longrightarrow> t mod 2 ^ k = t' mod 2 ^ k \<Longrightarrow>
      t = t' \<and> \<not> (push_at s t \<and> pop_at s t)"
proof -
  have ok: "ticket_ok k s t" if "t < 2 ^ 31" for t using inv that by (simp add: mpmc_inv_def)
  have at: "ticket_ok k s t" "t < 2 ^ 31" if "push_at s t \<or> pop_at s t" for t
    using that in_flight_small [OF inv bound] ok by (auto simp: push_at_def pop_at_def split: option.splits)
  show "t < length (pushes s) \<and> results s t = Some (pushes s ! t)" if "t < pop_count s" "popping s t = None"
    using ticket_okD(2) [OF ok [of t]] that bound(2) by (simp add: pop_ok_def)
  show "t - 2 ^ k < pop_count s \<and> popping s (t - 2 ^ k) = None" if "push_at s t" "2 ^ k \<le> t"
  proof -
    have "t - 2 ^ k < 2 ^ 31" using at(2) [of t] that(1) by simp
    then show ?thesis
      using finished_pop [OF ok, of "t - 2 ^ k"] push_atD [OF that(1) at(1)] that(1) previous_round [OF that(2)] by simp
  qed
  show "t = t' \<and> \<not> (push_at s t \<and> pop_at s t)"
    if h: "push_at s t \<or> pop_at s t" "push_at s t' \<or> pop_at s t'" "t mod 2 ^ k = t' mod 2 ^ k"
  proof -
    have q: "push_at s u \<Longrightarrow> unat (slot_seq s ! (u mod 2 ^ k)) = 2 * (u div 2 ^ k)"
      "pop_at s u \<Longrightarrow> unat (slot_seq s ! (u mod 2 ^ k)) = 2 * (u div 2 ^ k) + 1" for u
      using push_atD pop_atD at(1) by blast+
    have half: "unat (slot_seq s ! (u mod 2 ^ k)) div 2 = u div 2 ^ k" if "push_at s u \<or> pop_at s u" for u using q [of u] that by auto
    have "t div 2 ^ k = t' div 2 ^ k" using half [OF h(1)] half [OF h(2)] h(3) by simp
    then have "t = t'" by (rule ticket_eq [OF h(3)])
    moreover have "\<not> (push_at s t \<and> pop_at s t)" using q [of t] by auto
    ultimately show ?thesis by blast
  qed
qed

text \<open>
  C40. Whatever the threads do, as long as at most \<open>2^31\<close> tickets of each kind are taken: a pop that is over returned the value of the
  push with the same ticket number, so the values come out in the order of the push tickets; a push that writes its slot does so
  after the pop of the value that was there before; and two operations never access the value of one slot at the same time.
\<close>

theorem mpmc_order_and_exclusion:
  assumes "length vs = 2 ^ k" "1 \<le> k" "k < 31" "(mpmc_step k)\<^sup>*\<^sup>* (mpmc_new vs) s" "length (pushes s) \<le> 2 ^ 31" "pop_count s \<le> 2 ^ 31"
  shows "(t < pop_count s \<and> popping s t = None \<longrightarrow> t < length (pushes s) \<and> results s t = Some (pushes s ! t)) \<and>
    (push_at s t \<and> 2 ^ k \<le> t \<longrightarrow> t - 2 ^ k < pop_count s \<and> popping s (t - 2 ^ k) = None) \<and>
    ((push_at s t \<or> pop_at s t) \<and> (push_at s t' \<or> pop_at s t') \<and> t mod 2 ^ k = t' mod 2 ^ k \<longrightarrow>
      t = t' \<and> \<not> (push_at s t \<and> pop_at s t))"
  using mpmc_inv_order [OF mpmc_steps_inv [OF assms(4) mpmc_new_inv [OF assms(1)] assms(2,3,5,6)] assms(5,6)] by blast

lemma first_ticket: "mpmc_seq (Suc 0) 0 = 0" "mpmc_idx (Suc 0) 0 = 0"
  by code_simp+

lemma push_then_pop:
  "\<exists>s. (mpmc_step 1)\<^sup>*\<^sup>* (mpmc_new [0, 0 :: nat]) s \<and> pushes s = [5] \<and> pop_count s = 1 \<and> popping s 0 = None"
proof -
  define s0 where "s0 = mpmc_new [0, 0 :: nat]"
  define s1 where "s1 = s0\<lparr>m_in := m_in s0 + 1, pushes := pushes s0 @ [5], pushing := (pushing s0)(length (pushes s0) \<mapsto> Push_wait 5)\<rparr>"
  define s2 where "s2 = s1\<lparr>pushing := (pushing s1)(0 \<mapsto> Push_write 5)\<rparr>"
  define s3 where "s3 = s2\<lparr>slot_val := (slot_val s2)[slot_of 1 0 := 5], pushing := (pushing s2)(0 \<mapsto> Push_store 5)\<rparr>"
  define s4 where "s4 = s3\<lparr>slot_seq := (slot_seq s3)[slot_of 1 0 := mpmc_seq 1 (of_nat 0) + 1], pushing := (pushing s3)(0 := None)\<rparr>"
  define s5 where "s5 = s4\<lparr>m_out := m_out s4 + 1, pop_count := Suc (pop_count s4), popping := (popping s4)(pop_count s4 \<mapsto> Pop_wait)\<rparr>"
  define s6 where "s6 = s5\<lparr>popping := (popping s5)(0 \<mapsto> Pop_read)\<rparr>"
  define s7 where "s7 = s6\<lparr>popping := (popping s6)(0 \<mapsto> Pop_store (slot_val s6 ! slot_of 1 0))\<rparr>"
  define s8 where "s8 = s7\<lparr>slot_seq := (slot_seq s7)[slot_of 1 0 := mpmc_seq 1 (of_nat 0) + 2], popping := (popping s7)(0 := None),
    results := (results s7)(0 \<mapsto> slot_val s6 ! slot_of 1 0)\<rparr>"
  note d = s0_def s1_def s2_def s3_def s4_def s5_def s6_def s7_def s8_def mpmc_new_def
  have "mpmc_step 1 s0 s1" unfolding s1_def by (rule mpmc_step.push_ticket)
  moreover have "mpmc_step 1 s1 s2" unfolding s2_def by (rule mpmc_step.push_turn) (simp_all add: d first_ticket)
  moreover have "mpmc_step 1 s2 s3" unfolding s3_def by (rule mpmc_step.push_value) (simp add: d)
  moreover have "mpmc_step 1 s3 s4" unfolding s4_def by (rule mpmc_step.push_done) (simp add: d)
  moreover have "mpmc_step 1 s4 s5" unfolding s5_def by (rule mpmc_step.pop_ticket)
  moreover have "mpmc_step 1 s5 s6" unfolding s6_def by (rule mpmc_step.pop_turn) (simp_all add: d first_ticket)
  moreover have "mpmc_step 1 s6 s7" unfolding s7_def by (rule mpmc_step.pop_value) (simp add: d)
  moreover have "mpmc_step 1 s7 s8" unfolding s8_def by (rule mpmc_step.pop_done) (simp add: d)
  ultimately have "(mpmc_step 1)\<^sup>*\<^sup>* s0 s8" by (meson converse_rtranclp_into_rtranclp rtranclp.rtrancl_refl)
  moreover have "pushes s8 = [5]" "pop_count s8 = 1" "popping s8 0 = None" by (simp_all add: d)
  ultimately show ?thesis unfolding s0_def by blast
qed

theorem mpmc_order_and_exclusion_witness:
  "\<exists>s. (mpmc_step 1)\<^sup>*\<^sup>* (mpmc_new [0, 0 :: nat]) s \<and> pushes s = [5] \<and> results s 0 = Some 5"
proof -
  obtain s where s: "(mpmc_step 1)\<^sup>*\<^sup>* (mpmc_new [0, 0 :: nat]) s" "pushes s = [5]" "pop_count s = 1" "popping s 0 = None"
    using push_then_pop by blast
  have "results s 0 = Some 5" using mpmc_order_and_exclusion [OF _ _ _ s(1), of 0 0] s(2-4) by simp
  with s(1,2) show ?thesis by blast
qed

end
