(* ===== verification/Cuckoo_Filter.thy ===== *)
theory Cuckoo_Filter
  imports Prelude "HOL-Library.Multiset"
begin

text \<open>
  The cuckoo filter of \<^verbatim>\<open>src/Algorithm/cuckoo_filter.cpp\<close>. The standard library's hashes are parameters of
  which nothing is assumed: \<open>ht\<close> is \<^verbatim>\<open>std::hash<T>\<close>, which makes fingerprints, \<open>hs\<close> is \<^verbatim>\<open>std::hash<std::string>\<close> on
  an item that is converted to a string, which selects buckets, and \<open>hf\<close> is \<^verbatim>\<open>std::hash<fbits>\<close>. The random choices
  of entries to evict are a parameter of each \<^verbatim>\<open>add\<close>; of them it is used only that they are below the number of
  entries of a bucket. \<open>None\<close> is a failed assertion. The static
  \<^verbatim>\<open>s_round\<close> of \<^verbatim>\<open>add\<close>, which all filters of one type share, is a field of the state.

  The filter refines a multiset: an entry stands for its fingerprint together with the pair of buckets it may be
  in, which an eviction does not change.
\<close>

section \<open>The filter\<close>

type_synonym fbits = u16

record cuckoo =
  buckets :: "fbits list list"
  s_round :: bool

definition magic_code :: fbits where
  "magic_code = 0x5a5a"

definition cuckoo_new :: "nat \<Rightarrow> cuckoo" where
  "cuckoo_new N = \<lparr>buckets = replicate N (replicate 4 magic_code), s_round = False\<rparr>"

text \<open>\<^verbatim>\<open>std::hash<T>()(x) & bitmask\<close> keeps the low sixteen bits.\<close>

definition fingerprint :: "('a \<Rightarrow> u64) \<Rightarrow> 'a \<Rightarrow> fbits" where
  "fingerprint ht x = ucast (ht x AND mask 16)"

definition hash_f :: "(fbits \<Rightarrow> u64) \<Rightarrow> nat \<Rightarrow> fbits \<Rightarrow> nat" where
  "hash_f hf N f = unat (hf f) mod N"

definition hash_x :: "('a \<Rightarrow> u64) \<Rightarrow> nat \<Rightarrow> 'a \<Rightarrow> nat" where
  "hash_x hs N x = unat (hs x) mod N"

text \<open>The loops over the four entries of a bucket; \<open>None\<close> is \<^verbatim>\<open>npos\<close>.\<close>

fun entry_from :: "fbits list \<Rightarrow> fbits \<Rightarrow> nat \<Rightarrow> nat option" where
  "entry_from [] f j = None"
| "entry_from (x # xs) f j = (if x = f then Some j else entry_from xs f (Suc j))"

definition bucket_has :: "fbits list list \<Rightarrow> nat \<Rightarrow> fbits \<Rightarrow> nat option" where
  "bucket_has bs i f = entry_from (bs ! i) f 0"

definition bucket_has_hole :: "fbits list list \<Rightarrow> nat \<Rightarrow> nat option" where
  "bucket_has_hole bs i = entry_from (bs ! i) magic_code 0"

definition set_entry :: "fbits list list \<Rightarrow> nat \<Rightarrow> nat \<Rightarrow> fbits \<Rightarrow> fbits list list" where
  "set_entry bs i e f = bs[i := (bs ! i)[e := f]]"

definition add_entry :: "fbits list list \<Rightarrow> nat \<Rightarrow> nat \<Rightarrow> fbits \<Rightarrow> fbits list list option" where
  "add_entry bs i e f = (if bs ! i ! e = magic_code then Some (set_entry bs i e f) else None)"

definition reset_entry :: "fbits list list \<Rightarrow> nat \<Rightarrow> nat \<Rightarrow> fbits list list" where
  "reset_entry bs i e = set_entry bs i e magic_code"

text \<open>The entry that the random engine picks, with the assertion of \<^verbatim>\<open>any_entry\<close>.\<close>

definition any_entry :: "fbits list list \<Rightarrow> nat \<Rightarrow> nat \<Rightarrow> fbits option" where
  "any_entry bs i e = (if bs ! i ! e \<noteq> magic_code then Some (bs ! i ! e) else None)"

text \<open>The eviction loop of \<^verbatim>\<open>add\<close>; \<open>dis retry\<close> is the random choice in the iteration that starts with \<open>retry\<close> left.\<close>

fun evict :: "(fbits \<Rightarrow> nat) \<Rightarrow> (nat \<Rightarrow> nat) \<Rightarrow> nat \<Rightarrow> nat \<Rightarrow> fbits \<Rightarrow> fbits list list \<Rightarrow> (bool \<times> fbits list list) option" where
  "evict hashf dis 0 i f bs = Some (False, bs)"
| "evict hashf dis (Suc retry) i f bs =
    (case any_entry bs i (dis retry) of None \<Rightarrow> None
     | Some old \<Rightarrow>
         let bs1 = set_entry bs i (dis retry) f; i1 = i XOR hashf old
         in case bucket_has_hole bs1 i1 of
              Some e \<Rightarrow> (case add_entry bs1 i1 e old of None \<Rightarrow> None | Some bs2 \<Rightarrow> Some (True, bs2))
            | None \<Rightarrow> evict hashf dis retry i1 old bs1)"

definition cuckoo_add :: "('a \<Rightarrow> u64) \<Rightarrow> ('a \<Rightarrow> u64) \<Rightarrow> (fbits \<Rightarrow> u64) \<Rightarrow> (nat \<Rightarrow> nat) \<Rightarrow> 'a \<Rightarrow> cuckoo \<Rightarrow> (bool \<times> cuckoo) option" where
  "cuckoo_add ht hs hf dis item c =
  (let N = length (buckets c); f = fingerprint ht item;
       i1 = hash_x hs N item; i2 = i1 XOR hash_f hf N f;
       rd = (\<not> s_round c);
       (t0, t1) = (if rd then (i2, i1) else (i1, i2));
       put = (\<lambda>bs. map_option (\<lambda>bs'. (True, c\<lparr>buckets := bs', s_round := rd\<rparr>)) bs)
   in case bucket_has_hole (buckets c) t0 of
        Some e \<Rightarrow> put (add_entry (buckets c) t0 e f)
      | None \<Rightarrow>
          (case bucket_has_hole (buckets c) t1 of
             Some e \<Rightarrow> put (add_entry (buckets c) t1 e f)
           | None \<Rightarrow> map_option (\<lambda>(ok, bs'). (ok, c\<lparr>buckets := bs', s_round := rd\<rparr>))
               (evict (hash_f hf N) dis 100 t0 f (buckets c))))"

text \<open>\<^verbatim>\<open>remove\<close>; \<open>None\<close> is its final \<^verbatim>\<open>assert(false)\<close>.\<close>

definition cuckoo_remove :: "('a \<Rightarrow> u64) \<Rightarrow> ('a \<Rightarrow> u64) \<Rightarrow> (fbits \<Rightarrow> u64) \<Rightarrow> 'a \<Rightarrow> cuckoo \<Rightarrow> cuckoo option" where
  "cuckoo_remove ht hs hf item c =
  (let N = length (buckets c); f = fingerprint ht item;
       i1 = hash_x hs N item; i2 = i1 XOR hash_f hf N f
   in case bucket_has (buckets c) i1 f of
        Some e \<Rightarrow> Some (c\<lparr>buckets := reset_entry (buckets c) i1 e\<rparr>)
      | None \<Rightarrow>
          (case bucket_has (buckets c) i2 f of
             Some e \<Rightarrow> Some (c\<lparr>buckets := reset_entry (buckets c) i2 e\<rparr>)
           | None \<Rightarrow> None))"

definition cuckoo_lookup :: "('a \<Rightarrow> u64) \<Rightarrow> ('a \<Rightarrow> u64) \<Rightarrow> (fbits \<Rightarrow> u64) \<Rightarrow> 'a \<Rightarrow> cuckoo \<Rightarrow> bool" where
  "cuckoo_lookup ht hs hf item c =
  (let N = length (buckets c); f = fingerprint ht item;
       i1 = hash_x hs N item; i2 = i1 XOR hash_f hf N f
   in bucket_has (buckets c) i1 f \<noteq> None \<or> bucket_has (buckets c) i2 f \<noteq> None)"

section \<open>The multiset of stored entries\<close>

text \<open>A fingerprint with the pair of buckets it may be in, seen from a bucket it is in.\<close>

definition key :: "(fbits \<Rightarrow> nat) \<Rightarrow> nat \<Rightarrow> fbits \<Rightarrow> nat set \<times> fbits" where
  "key hashf i f = ({i, i XOR hashf f}, f)"

definition entry_keys :: "(fbits \<Rightarrow> nat) \<Rightarrow> fbits list list \<Rightarrow> nat \<times> nat \<Rightarrow> (nat set \<times> fbits) multiset" where
  "entry_keys hashf bs p = (let f = bs ! fst p ! snd p in if f = magic_code then {#} else {#key hashf (fst p) f#})"

definition stored :: "(fbits \<Rightarrow> nat) \<Rightarrow> fbits list list \<Rightarrow> (nat set \<times> fbits) multiset" where
  "stored hashf bs = (\<Sum>p \<in> {..<length bs} \<times> {..<4}. entry_keys hashf bs p)"

text \<open>A table of the filter: a power of two of buckets of four entries, hashes below their number.\<close>

definition table_ok :: "(fbits \<Rightarrow> nat) \<Rightarrow> fbits list list \<Rightarrow> bool" where
  "table_ok hashf bs \<longleftrightarrow> (\<exists>k. length bs = 2 ^ k) \<and> (\<forall>b \<in> set bs. length b = 4) \<and> (\<forall>f. hashf f < length bs)"

lemma xor_below:
  fixes a b :: nat
  assumes "a < 2 ^ k" "b < 2 ^ k"
  shows "a XOR b < 2 ^ k"
  using assms by (metis take_bit_nat_eq_self_iff take_bit_xor)

lemma table_ok_xor: "table_ok hashf bs \<Longrightarrow> i < length bs \<Longrightarrow> i XOR hashf f < length bs"
  by (metis table_ok_def xor_below)

lemma key_other: "key hashf (i XOR hashf f) f = key hashf i f"
  by (auto simp: key_def xor.assoc)

lemma length_set_entry [simp]: "length (set_entry bs i e f) = length bs"
  by (simp add: set_entry_def)

lemma table_ok_set_entry: "table_ok hashf bs \<Longrightarrow> table_ok hashf (set_entry bs i e f)"
proof (cases "i < length bs")
  case True
  then have "length (bs ! i) = 4" if "table_ok hashf bs" using that by (simp add: table_ok_def)
  then show "table_ok hashf bs \<Longrightarrow> ?thesis"
    by (auto simp: table_ok_def set_entry_def dest!: set_update_subset_insert [THEN subsetD])
qed (simp add: set_entry_def list_update_beyond)

lemma set_entry_nth:
  assumes "table_ok hashf bs" "i < length bs" "e < 4" "i' < length bs" "e' < 4"
  shows "set_entry bs i e f ! i' ! e' = (if i' = i \<and> e' = e then f else bs ! i' ! e')"
  using assms by (auto simp: set_entry_def table_ok_def nth_list_update)

lemma sum_change_one:
  fixes g g' :: "'b \<Rightarrow> 'c::comm_monoid_add"
  assumes "finite A" "p \<in> A" "\<And>q. q \<in> A \<Longrightarrow> q \<noteq> p \<Longrightarrow> g' q = g q"
  shows "sum g' A + g p = sum g A + g' p"
proof -
  have "sum g' (A - {p}) = sum g (A - {p})" using assms(3) by (intro sum.cong) auto
  then show ?thesis by (simp add: sum.remove [OF assms(1,2)] ac_simps)
qed

lemma stored_set_entry:
  assumes "table_ok hashf bs" "i < length bs" "e < 4"
  shows "stored hashf (set_entry bs i e f) + entry_keys hashf bs (i, e) =
    stored hashf bs + (if f = magic_code then {#} else {#key hashf i f#})"
proof -
  let ?A = "{..<length bs} \<times> {..<4}"
  have "entry_keys hashf (set_entry bs i e f) q = entry_keys hashf bs q" if "q \<in> ?A" "q \<noteq> (i, e)" for q
  proof -
    have "set_entry bs i e f ! fst q ! snd q = bs ! fst q ! snd q"
      using that by (subst set_entry_nth [OF assms]) (auto simp: prod_eq_iff)
    then show ?thesis by (simp add: entry_keys_def)
  qed
  then have "sum (entry_keys hashf (set_entry bs i e f)) ?A + entry_keys hashf bs (i, e) =
      sum (entry_keys hashf bs) ?A + entry_keys hashf (set_entry bs i e f) (i, e)"
    using assms by (intro sum_change_one) auto
  moreover have "entry_keys hashf (set_entry bs i e f) (i, e) = (if f = magic_code then {#} else {#key hashf i f#})"
    using assms by (simp add: entry_keys_def set_entry_nth)
  ultimately show ?thesis by (simp add: stored_def)
qed

text \<open>Searching a bucket.\<close>

lemma entry_from_Some: "entry_from xs f j = Some e \<Longrightarrow> j \<le> e \<and> e < j + length xs \<and> xs ! (e - j) = f"
  by (induction xs f j rule: entry_from.induct) (auto split: if_splits simp: nth_Cons')

lemma entry_from_None: "entry_from xs f j = None \<longleftrightarrow> f \<notin> set xs"
  by (induction xs f j rule: entry_from.induct) auto

lemma bucket_has_Some:
  assumes "table_ok hashf bs" "i < length bs" "bucket_has bs i f = Some e"
  shows "e < 4" "bs ! i ! e = f"
proof -
  have "length (bs ! i) = 4" using assms(1,2) by (simp add: table_ok_def)
  then show "e < 4" "bs ! i ! e = f" using entry_from_Some [OF assms(3) [unfolded bucket_has_def]] by auto
qed

lemma hole_is_has: "bucket_has_hole bs i = bucket_has bs i magic_code"
  by (simp add: bucket_has_hole_def bucket_has_def)

lemma bucket_has_None:
  assumes "table_ok hashf bs" "i < length bs"
  shows "bucket_has bs i f = None \<longleftrightarrow> (\<forall>e < 4. bs ! i ! e \<noteq> f)"
proof -
  have "length (bs ! i) = 4" using assms by (simp add: table_ok_def)
  then show ?thesis by (auto simp: bucket_has_def entry_from_None in_set_conv_nth)
qed

text \<open>An entry in a hole adds its key; a reset entry removes it.\<close>

lemma add_entry_stored:
  assumes "table_ok hashf bs" "i < length bs" "bucket_has_hole bs i = Some e" "f \<noteq> magic_code"
  shows "\<exists>bs'. add_entry bs i e f = Some bs' \<and> table_ok hashf bs' \<and> length bs' = length bs \<and>
    stored hashf bs' = add_mset (key hashf i f) (stored hashf bs)"
proof -
  have e: "e < 4" "bs ! i ! e = magic_code"
    using bucket_has_Some [OF assms(1,2)] assms(3) by (auto simp: hole_is_has)
  then have "stored hashf (set_entry bs i e f) = add_mset (key hashf i f) (stored hashf bs)"
    using stored_set_entry [OF assms(1,2), of e f] assms(4) by (simp add: entry_keys_def)
  then show ?thesis using e table_ok_set_entry [OF assms(1)] by (simp add: add_entry_def)
qed

lemma reset_entry_stored:
  assumes "table_ok hashf bs" "i < length bs" "bucket_has bs i f = Some e" "f \<noteq> magic_code"
  shows "stored hashf (reset_entry bs i e) + {#key hashf i f#} = stored hashf bs"
  using bucket_has_Some [OF assms(1-3)] stored_set_entry [OF assms(1,2), of e magic_code] assms(4)
  by (simp add: entry_keys_def reset_entry_def)

lemma stored_member:
  assumes "table_ok hashf bs" "f \<noteq> magic_code" "i < length bs"
  shows "key hashf i f \<in># stored hashf bs \<longleftrightarrow> bucket_has bs i f \<noteq> None \<or> bucket_has bs (i XOR hashf f) f \<noteq> None"
proof -
  have i2: "i XOR hashf f < length bs" using table_ok_xor [OF assms(1,3)] .
  have "key hashf i f \<in># stored hashf bs \<longleftrightarrow>
      (\<exists>j < length bs. \<exists>e < 4. bs ! j ! e \<noteq> magic_code \<and> key hashf i f = key hashf j (bs ! j ! e))"
    by (auto simp: stored_def set_mset_sum entry_keys_def Let_def split: if_splits)
  also have "\<dots> \<longleftrightarrow> (\<exists>j \<in> {i, i XOR hashf f}. \<exists>e < 4. bs ! j ! e = f)"
  proof -
    have k: "key hashf i f = key hashf j g \<longleftrightarrow> g = f \<and> j \<in> {i, i XOR hashf f}" for j g
      unfolding key_def by (auto simp: doubleton_eq_iff xor.assoc)
    show ?thesis
    proof
      assume "\<exists>j < length bs. \<exists>e < 4. bs ! j ! e \<noteq> magic_code \<and> key hashf i f = key hashf j (bs ! j ! e)"
      then show "\<exists>j \<in> {i, i XOR hashf f}. \<exists>e < 4. bs ! j ! e = f" unfolding k by metis
    next
      assume "\<exists>j \<in> {i, i XOR hashf f}. \<exists>e < 4. bs ! j ! e = f"
      then obtain j e where je: "j \<in> {i, i XOR hashf f}" "e < 4" "bs ! j ! e = f" by metis
      moreover have "j < length bs" using je(1) assms(3) i2 by auto
      ultimately show "\<exists>j < length bs. \<exists>e < 4. bs ! j ! e \<noteq> magic_code \<and> key hashf i f = key hashf j (bs ! j ! e)"
        unfolding k using assms(2) by (intro exI [of _ j] conjI exI [of _ e]) simp_all
    qed
  qed
  also have "\<dots> \<longleftrightarrow> bucket_has bs i f \<noteq> None \<or> bucket_has bs (i XOR hashf f) f \<noteq> None"
    using bucket_has_None [OF assms(1,3)] bucket_has_None [OF assms(1) i2] by auto
  finally show ?thesis .
qed

text \<open>
  The eviction loop on a full bucket: it never fails an assertion; when it succeeds the new key is stored
  besides all the others, and when it gives up exactly one key is gone.
\<close>

lemma evict_stored:
  assumes "table_ok hashf bs" "i < length bs" "bucket_has_hole bs i = None" "f \<noteq> magic_code" "\<And>n. dis n < 4"
  shows "\<exists>ok bs'. evict hashf dis retry i f bs = Some (ok, bs') \<and> table_ok hashf bs' \<and> length bs' = length bs \<and>
    (if ok then stored hashf bs' = add_mset (key hashf i f) (stored hashf bs)
     else \<exists>k. add_mset k (stored hashf bs') = add_mset (key hashf i f) (stored hashf bs))"
  using assms(1-4)
proof (induction retry arbitrary: i f bs)
  case 0
  then show ?case by (auto intro!: exI [of _ "key hashf i f"])
next
  case (Suc retry)
  let ?e = "dis retry"
  let ?old = "bs ! i ! ?e" and ?bs = "set_entry bs i ?e f"
  let ?i = "i XOR hashf ?old"
  have old: "?old \<noteq> magic_code"
    using Suc.prems(3) bucket_has_None [OF Suc.prems(1,2)] assms(5) by (simp add: hole_is_has)
  have ok: "table_ok hashf ?bs" "?i < length ?bs"
    using table_ok_set_entry [OF Suc.prems(1)] table_ok_xor [OF Suc.prems(1,2)] by auto
  have st: "add_mset (key hashf ?i ?old) (stored hashf ?bs) = add_mset (key hashf i f) (stored hashf bs)"
    using stored_set_entry [OF Suc.prems(1,2), of ?e f] assms(5) [of retry] Suc.prems(4) old
    by (simp add: entry_keys_def key_other)
  show ?case
  proof (cases "bucket_has_hole ?bs ?i")
    case (Some e)
    obtain bs' where bs': "add_entry ?bs ?i e ?old = Some bs'" "table_ok hashf bs'" "length bs' = length bs"
      "stored hashf bs' = add_mset (key hashf ?i ?old) (stored hashf ?bs)"
      using add_entry_stored [OF ok Some old] by auto
    have "evict hashf dis (Suc retry) i f bs = Some (True, bs')"
      using Some old bs'(1) by (simp add: any_entry_def Let_def)
    with bs' st show ?thesis by (intro exI [of _ True] exI [of _ bs']) (simp del: evict.simps)
  next
    case None
    show ?thesis
    proof -
      have "evict hashf dis (Suc retry) i f bs = evict hashf dis retry ?i ?old ?bs"
        using None old by (simp add: any_entry_def Let_def)
      with Suc.IH [OF ok None old] st show ?thesis by (simp only: length_set_entry)
    qed
  qed
qed

section \<open>The operations on the multiset\<close>

abbreviation filter_hash :: "(fbits \<Rightarrow> u64) \<Rightarrow> cuckoo \<Rightarrow> fbits \<Rightarrow> nat" where
  "filter_hash hf c \<equiv> hash_f hf (length (buckets c))"

definition filter_ok :: "(fbits \<Rightarrow> u64) \<Rightarrow> nat \<Rightarrow> cuckoo \<Rightarrow> bool" where
  "filter_ok hf N c \<longleftrightarrow> length (buckets c) = N \<and> table_ok (hash_f hf N) (buckets c)"

definition item_key :: "('a \<Rightarrow> u64) \<Rightarrow> ('a \<Rightarrow> u64) \<Rightarrow> (fbits \<Rightarrow> u64) \<Rightarrow> nat \<Rightarrow> 'a \<Rightarrow> nat set \<times> fbits" where
  "item_key ht hs hf N x = key (hash_f hf N) (hash_x hs N x) (fingerprint ht x)"

definition keys_of :: "(fbits \<Rightarrow> u64) \<Rightarrow> cuckoo \<Rightarrow> (nat set \<times> fbits) multiset" where
  "keys_of hf c = stored (filter_hash hf c) (buckets c)"

lemma filter_ok_hash: "filter_ok hf N c \<Longrightarrow> hash_x hs N x < N"
  by (auto simp: filter_ok_def table_ok_def hash_x_def)

lemma cuckoo_new_ok:
  assumes "N = 2 ^ k"
  shows "filter_ok hf N (cuckoo_new N)" "keys_of hf (cuckoo_new N) = {#}"
  using assms by (auto simp: filter_ok_def table_ok_def cuckoo_new_def hash_f_def keys_of_def stored_def entry_keys_def intro!: sum.neutral)

lemma cuckoo_lookup_iff:
  assumes "filter_ok hf N c" "fingerprint ht x \<noteq> magic_code"
  shows "cuckoo_lookup ht hs hf x c \<longleftrightarrow> item_key ht hs hf N x \<in># keys_of hf c"
  using assms stored_member [of "hash_f hf N" "buckets c" "fingerprint ht x" "hash_x hs N x"] filter_ok_hash [OF assms(1), of hs x]
  by (simp add: filter_ok_def cuckoo_lookup_def keys_of_def item_key_def Let_def)

lemma cuckoo_remove_ok:
  assumes "filter_ok hf N c" "fingerprint ht x \<noteq> magic_code" "item_key ht hs hf N x \<in># keys_of hf c"
  shows "\<exists>c'. cuckoo_remove ht hs hf x c = Some c' \<and> filter_ok hf N c' \<and> add_mset (item_key ht hs hf N x) (keys_of hf c') = keys_of hf c"
proof -
  let ?h = "hash_f hf N" and ?f = "fingerprint ht x" and ?i1 = "hash_x hs N x"
  let ?i2 = "?i1 XOR ?h ?f"
  have t: "table_ok ?h (buckets c)" and len: "length (buckets c) = N" using assms(1) by (auto simp: filter_ok_def)
  have i: "?i1 < length (buckets c)" "?i2 < length (buckets c)"
    using filter_ok_hash [OF assms(1), of hs x] table_ok_xor [OF t] len by auto
  have ok: "filter_ok hf N (c\<lparr>buckets := reset_entry (buckets c) j e\<rparr>)" for j e
    using t len by (simp add: filter_ok_def reset_entry_def table_ok_set_entry)
  show ?thesis
  proof (cases "bucket_has (buckets c) ?i1 ?f")
    case (Some e)
    then show ?thesis
      using ok [of ?i1 e] reset_entry_stored [OF t i(1) Some assms(2)] len
      by (simp add: cuckoo_remove_def Let_def keys_of_def item_key_def reset_entry_def)
  next
    case None
    then obtain e where e: "bucket_has (buckets c) ?i2 ?f = Some e"
      using assms stored_member [OF t assms(2) i(1)] len by (auto simp: keys_of_def item_key_def)
    show ?thesis
      using ok [of ?i2 e] reset_entry_stored [OF t i(2) e assms(2)] None e len
      by (simp add: cuckoo_remove_def Let_def keys_of_def item_key_def reset_entry_def key_other)
  qed
qed

lemma cuckoo_add_ok:
  assumes "filter_ok hf N c" "fingerprint ht x \<noteq> magic_code" "\<And>n. dis n < 4"
  shows "\<exists>ok c'. cuckoo_add ht hs hf dis x c = Some (ok, c') \<and> filter_ok hf N c' \<and>
    (if ok then keys_of hf c' = add_mset (item_key ht hs hf N x) (keys_of hf c)
     else \<exists>k. add_mset k (keys_of hf c') = add_mset (item_key ht hs hf N x) (keys_of hf c))"
proof -
  let ?h = "hash_f hf N" and ?f = "fingerprint ht x" and ?i1 = "hash_x hs N x"
  let ?i2 = "?i1 XOR ?h ?f"
  define t0 where "t0 = (if s_round c then ?i1 else ?i2)"
  define t1 where "t1 = (if s_round c then ?i2 else ?i1)"
  have t: "table_ok ?h (buckets c)" and len: "length (buckets c) = N" using assms(1) by (auto simp: filter_ok_def)
  have i: "t0 < length (buckets c)" "t1 < length (buckets c)"
    using filter_ok_hash [OF assms(1), of hs x] table_ok_xor [OF t] len by (auto simp: t0_def t1_def)
  have k: "key ?h t0 ?f = item_key ht hs hf N x" "key ?h t1 ?f = item_key ht hs hf N x"
    by (auto simp: t0_def t1_def item_key_def key_other)
  have add: "cuckoo_add ht hs hf dis x c =
      (case bucket_has_hole (buckets c) t0 of
         Some e \<Rightarrow> map_option (\<lambda>bs'. (True, c\<lparr>buckets := bs', s_round := \<not> s_round c\<rparr>)) (add_entry (buckets c) t0 e ?f)
       | None \<Rightarrow>
           (case bucket_has_hole (buckets c) t1 of
              Some e \<Rightarrow> map_option (\<lambda>bs'. (True, c\<lparr>buckets := bs', s_round := \<not> s_round c\<rparr>)) (add_entry (buckets c) t1 e ?f)
            | None \<Rightarrow> map_option (\<lambda>(ok, bs'). (ok, c\<lparr>buckets := bs', s_round := \<not> s_round c\<rparr>)) (evict ?h dis 100 t0 ?f (buckets c))))"
    unfolding cuckoo_add_def t0_def t1_def len Let_def by (cases "s_round c") simp_all
  have upd: "filter_ok hf N (c\<lparr>buckets := bs', s_round := b\<rparr>)" "keys_of hf (c\<lparr>buckets := bs', s_round := b\<rparr>) = stored ?h bs'"
    if "table_ok ?h bs'" "length bs' = length (buckets c)" for bs' b
    using that len by (auto simp: filter_ok_def keys_of_def)
  have st: "keys_of hf c = stored ?h (buckets c)" using len by (simp add: keys_of_def)
  show ?thesis
  proof (cases "bucket_has_hole (buckets c) t0")
    case (Some e)
    show ?thesis
      using add_entry_stored [OF t i(1) Some assms(2)] upd unfolding add Some st k by auto
  next
    case None
    show ?thesis
    proof (cases "bucket_has_hole (buckets c) t1")
      case (Some e)
      show ?thesis
        using add_entry_stored [OF t i(2) Some assms(2)] upd unfolding add None Some st k by auto
    next
      case None': None
      obtain ok bs' where "evict ?h dis 100 t0 ?f (buckets c) = Some (ok, bs')" "table_ok ?h bs'" "length bs' = length (buckets c)"
        "if ok then stored ?h bs' = add_mset (item_key ht hs hf N x) (stored ?h (buckets c))
         else \<exists>k. add_mset k (stored ?h bs') = add_mset (item_key ht hs hf N x) (stored ?h (buckets c))"
        using evict_stored [OF t i(1) None assms(2), of dis 100] assms(3) unfolding k by blast
      then show ?thesis using upd unfolding add None None' st by (cases ok) auto
    qed
  qed
qed

section \<open>A filter and its caller\<close>

datatype ('c, 'a) filter_op = Add 'c 'a | Remove 'a

text \<open>
  A caller that adds items, each with the choices the random engine makes for that call, and removes items it has added,
  with the multiset of the items that are in: \<open>None\<close> when an add reports that the filter is full, when an assertion
  fails, or when it would remove what is not in.
\<close>

fun run_filter :: "('c \<Rightarrow> 'a \<Rightarrow> 's \<Rightarrow> (bool \<times> 's) option) \<Rightarrow> ('a \<Rightarrow> 's \<Rightarrow> 's option) \<Rightarrow> ('c, 'a) filter_op list \<Rightarrow> 'a multiset \<Rightarrow> 's \<Rightarrow>
    ('a multiset \<times> 's) option" where
  "run_filter add remove [] M s = Some (M, s)"
| "run_filter add remove (Add d x # ops) M s =
    (case add d x s of Some (True, s') \<Rightarrow> run_filter add remove ops (add_mset x M) s' | _ \<Rightarrow> None)"
| "run_filter add remove (Remove x # ops) M s =
    (if x \<in># M then case remove x s of Some s' \<Rightarrow> run_filter add remove ops (M - {#x#}) s' | None \<Rightarrow> None else None)"

fun op_valid :: "('c \<Rightarrow> bool) \<Rightarrow> ('a \<Rightarrow> bool) \<Rightarrow> ('c, 'a) filter_op \<Rightarrow> bool" where
  "op_valid choice valid (Add d x) \<longleftrightarrow> choice d \<and> valid x"
| "op_valid choice valid (Remove x) \<longleftrightarrow> valid x"

locale membership_filter =
  fixes inv :: "'s \<Rightarrow> bool"
    and keys :: "'s \<Rightarrow> 'k multiset"
    and item :: "'a \<Rightarrow> 'k"
    and valid :: "'a \<Rightarrow> bool"
    and choice :: "'c \<Rightarrow> bool"
    and add :: "'c \<Rightarrow> 'a \<Rightarrow> 's \<Rightarrow> (bool \<times> 's) option"
    and remove :: "'a \<Rightarrow> 's \<Rightarrow> 's option"
    and lookup :: "'a \<Rightarrow> 's \<Rightarrow> bool"
  assumes add_law: "inv s \<Longrightarrow> valid x \<Longrightarrow> choice d \<Longrightarrow> add d x s = Some (True, s') \<Longrightarrow>
      inv s' \<and> keys s' = add_mset (item x) (keys s)"
    and remove_law: "inv s \<Longrightarrow> valid x \<Longrightarrow> item x \<in># keys s \<Longrightarrow>
      \<exists>s'. remove x s = Some s' \<and> inv s' \<and> add_mset (item x) (keys s') = keys s"
    and lookup_law: "inv s \<Longrightarrow> valid x \<Longrightarrow> lookup x s \<longleftrightarrow> item x \<in># keys s"
begin

lemma run_keys:
  assumes "run_filter add remove ops M s = Some (M', s')" "inv s" "keys s = image_mset item M" "\<forall>x \<in># M. valid x"
    "\<forall>op \<in> set ops. op_valid choice valid op"
  shows "inv s' \<and> keys s' = image_mset item M' \<and> (\<forall>x \<in># M'. valid x)"
  using assms
proof (induction ops arbitrary: M s)
  case (Cons op ops)
  show ?case
  proof (cases op)
    case (Add d x)
    then obtain s1 where s1: "add d x s = Some (True, s1)" "run_filter add remove ops (add_mset x M) s1 = Some (M', s')"
      using Cons.prems(1) by (auto split: option.splits prod.splits bool.splits)
    then show ?thesis using Cons.IH [OF s1(2)] add_law [OF Cons.prems(2) _ _ s1(1)] Cons.prems(3-5) Add by auto
  next
    case (Remove x)
    then have x: "x \<in># M" using Cons.prems(1) by (auto split: if_splits)
    then have "item x \<in># keys s" using Cons.prems(3) by simp
    then obtain s1 where s1: "remove x s = Some s1" "inv s1" "add_mset (item x) (keys s1) = keys s"
      using remove_law [OF Cons.prems(2)] Cons.prems(5) Remove by auto
    have "add_mset (item x) (keys s1) = add_mset (item x) (image_mset item (M - {#x#}))"
      using s1(3) Cons.prems(3) x by (metis image_mset_add_mset insert_DiffM)
    then have "keys s1 = image_mset item (M - {#x#})" by simp
    moreover have "\<forall>y \<in># M - {#x#}. valid y" using Cons.prems(4) by (auto dest: in_diffD)
    ultimately show ?thesis using Cons.IH [of "M - {#x#}" s1] s1 Cons.prems(1,5) Remove x by simp
  qed
qed simp

lemma no_false_negatives:
  assumes "run_filter add remove ops {#} s = Some (M, s')" "inv s" "keys s = {#}"
    "\<forall>op \<in> set ops. op_valid choice valid op" "x \<in># M"
  shows "lookup x s' \<and> remove x s' \<noteq> None"
proof -
  have "inv s'" "keys s' = image_mset item M" "valid x" using run_keys [OF assms(1,2)] assms(3-5) by auto
  then show ?thesis using lookup_law [of s' x] remove_law [of s' x] assms(5) by auto
qed

end

text \<open>The caller's items have fingerprints other than the code for an empty entry; a choice is below four.\<close>

definition storable :: "('a \<Rightarrow> u64) \<Rightarrow> 'a \<Rightarrow> bool" where
  "storable ht x \<longleftrightarrow> fingerprint ht x \<noteq> magic_code"

definition entry_choices :: "(nat \<Rightarrow> nat) \<Rightarrow> bool" where
  "entry_choices dis \<longleftrightarrow> (\<forall>n. dis n < 4)"

interpretation cuckoof: membership_filter "filter_ok hf N" "keys_of hf" "item_key ht hs hf N" "storable ht" entry_choices
  "cuckoo_add ht hs hf" "cuckoo_remove ht hs hf" "cuckoo_lookup ht hs hf" for ht hs hf N
proof
  fix c c' :: cuckoo and x dis
  assume c: "filter_ok hf N c" and v: "storable ht x"
  show "filter_ok hf N c' \<and> keys_of hf c' = add_mset (item_key ht hs hf N x) (keys_of hf c)"
    if "entry_choices dis" "cuckoo_add ht hs hf dis x c = Some (True, c')"
    using cuckoo_add_ok [of hf N c ht x dis hs] c v that by (auto simp: storable_def entry_choices_def split: if_splits)
  show "\<exists>c'. cuckoo_remove ht hs hf x c = Some c' \<and> filter_ok hf N c' \<and>
      add_mset (item_key ht hs hf N x) (keys_of hf c') = keys_of hf c" if "item_key ht hs hf N x \<in># keys_of hf c"
    using cuckoo_remove_ok [of hf N c ht x hs] c v that by (auto simp: storable_def)
  show "cuckoo_lookup ht hs hf x c \<longleftrightarrow> item_key ht hs hf N x \<in># keys_of hf c"
    using cuckoo_lookup_iff [of hf N c ht x hs] c v by (auto simp: storable_def)
qed

text \<open>
  C35. The cuckoo filter has no false negatives: after any sequence of adds that reported success and of removals of items
  that were in, \<^verbatim>\<open>lookup\<close> finds every item that is in and \<^verbatim>\<open>remove\<close> of it does not reach its assertion. This holds for
  every power of two of buckets, all hash functions and all random choices, which each add makes anew, for items whose
  fingerprint is not the code for an empty entry.
\<close>

theorem cuckoo_no_false_negatives:
  assumes "N = 2 ^ k"
    "run_filter (cuckoo_add ht hs hf) (cuckoo_remove ht hs hf) ops {#} (cuckoo_new N) = Some (M, c)"
    "\<forall>op \<in> set ops. op_valid entry_choices (storable ht) op" "x \<in># M"
  shows "cuckoo_lookup ht hs hf x c \<and> cuckoo_remove ht hs hf x c \<noteq> None"
  by (rule cuckoof.no_false_negatives [OF assms(2) cuckoo_new_ok [OF assms(1)] assms(3,4)])

theorem cuckoo_no_false_negatives_witness:
  "run_filter (cuckoo_add id (\<lambda>x. x + 1) ucast) (cuckoo_remove id (\<lambda>x. x + 1) ucast)
      [Add (\<lambda>_. 0) 3, Add (\<lambda>n. n mod 4) 7, Remove 3] {#} (cuckoo_new 1) =
     Some ({#7#}, \<lparr>buckets = [[magic_code, 7, magic_code, magic_code]], s_round = False\<rparr>) \<and>
   cuckoo_lookup id (\<lambda>x. x + 1) ucast (7::u64) \<lparr>buckets = [[magic_code, 7, magic_code, magic_code]], s_round = False\<rparr>"
proof -
  let ?hs = "\<lambda>x::u64. x + 1" and ?d = "\<lambda>n::nat. n mod 4"
  have "cuckoo_add id ?hs ucast (\<lambda>_. 0) (3::u64) (cuckoo_new 1) =
      Some (True, \<lparr>buckets = [[3, magic_code, magic_code, magic_code]], s_round = True\<rparr>)" by code_simp
  moreover have "cuckoo_add id ?hs ucast ?d (7::u64) \<lparr>buckets = [[3, magic_code, magic_code, magic_code]], s_round = True\<rparr> =
      Some (True, \<lparr>buckets = [[3, 7, magic_code, magic_code]], s_round = False\<rparr>)" by code_simp
  moreover have "cuckoo_remove id ?hs ucast (3::u64) \<lparr>buckets = [[3, 7, magic_code, magic_code]], s_round = False\<rparr> =
      Some \<lparr>buckets = [[magic_code, 7, magic_code, magic_code]], s_round = False\<rparr>" by code_simp
  ultimately have r: "run_filter (cuckoo_add id ?hs ucast) (cuckoo_remove id ?hs ucast)
      [Add (\<lambda>_. 0) 3, Add ?d (7::u64), Remove 3] {#} (cuckoo_new 1) =
      Some ({#7#}, \<lparr>buckets = [[magic_code, 7, magic_code, magic_code]], s_round = False\<rparr>)" by simp
  moreover have "storable id (3::u64)" "storable id (7::u64)" by code_simp+
  ultimately show ?thesis
    using cuckoo_no_false_negatives [OF _ r, of 0 7] by (simp add: entry_choices_def)
qed

text \<open>
  C36. On a filter that is well formed (a power of two of buckets of four entries) and an item whose fingerprint is not
  \<^verbatim>\<open>0x5a5a\<close>, the code for an empty entry, \<^verbatim>\<open>add\<close> never fails an assertion, and it either stores the item besides
  everything that was stored, or gives up after its hundred evictions, returns \<^verbatim>\<open>false\<close>, and has dropped exactly one of the entries, which may
  belong to an item that was added successfully before.
\<close>

theorem cuckoo_add_outcome:
  assumes "filter_ok hf N c" "storable ht x" "entry_choices dis"
  shows "\<exists>ok c'. cuckoo_add ht hs hf dis x c = Some (ok, c') \<and> filter_ok hf N c' \<and>
    (if ok then keys_of hf c' = add_mset (item_key ht hs hf N x) (keys_of hf c)
     else \<exists>k. add_mset k (keys_of hf c') = add_mset (item_key ht hs hf N x) (keys_of hf c))"
  by (rule cuckoo_add_ok [OF assms(1) assms(2) [unfolded storable_def] assms(3) [unfolded entry_choices_def, rule_format]])

theorem cuckoo_add_outcome_witness:
  "\<exists>ok c'. cuckoo_add id (\<lambda>x. x + 1) ucast (\<lambda>n. if n = 0 then 1 else 0) (5::u64) \<lparr>buckets = [[1, 2, 3, 4]], s_round = False\<rparr> = Some (ok, c') \<and>
     \<not> ok \<and> filter_ok ucast 1 c' \<and> \<not> cuckoo_lookup id (\<lambda>x. x + 1) ucast (2::u64) c'"
proof -
  let ?c = "\<lparr>buckets = [[1, 2, 3, 4]], s_round = False\<rparr>" and ?dis = "\<lambda>n. if n = 0 then 1 else 0 :: nat"
  have ev: "cuckoo_add id (\<lambda>x. x + 1) ucast ?dis (5::u64) ?c = Some (False, \<lparr>buckets = [[5, 1, 3, 4]], s_round = True\<rparr>)"
    by code_simp
  have "filter_ok ucast 1 ?c" by (auto simp: filter_ok_def table_ok_def hash_f_def intro!: exI [of _ 0])
  moreover have "storable id (5::u64)" by code_simp
  moreover have "entry_choices ?dis" by (simp add: entry_choices_def)
  ultimately obtain ok c' where "cuckoo_add id (\<lambda>x. x + 1) ucast ?dis (5::u64) ?c = Some (ok, c')" "filter_ok ucast 1 c'"
    using cuckoo_add_outcome [of ucast 1 ?c id 5 ?dis "\<lambda>x. x + 1"] by blast
  with ev have "ok = False" "c' = \<lparr>buckets = [[5, 1, 3, 4]], s_round = True\<rparr>" "filter_ok ucast 1 c'" by auto
  moreover have "\<not> cuckoo_lookup id (\<lambda>x. x + 1) ucast (2::u64) \<lparr>buckets = [[5, 1, 3, 4]], s_round = True\<rparr>" by code_simp
  ultimately show ?thesis using ev by auto
qed

end
