(* ===== verification/Power_Of_Two.thy ===== *)
theory Power_Of_Two
  imports Prelude
begin

text \<open>
  The bit tricks of \<^verbatim>\<open>src/net/fluent/include/utils/Algorithms.h\<close> on 32-bit \<^verbatim>\<open>int\<close>. A signed overflow is undefined
  behaviour, the outcome \<open>Undefined\<close>; \<^verbatim>\<open>>>\<close> on a signed value keeps the sign.
\<close>

section \<open>The functions\<close>

definition INT_MAX :: i32 where
  "INT_MAX = 0x7FFFFFFF"

definition INT_MIN :: i32 where
  "INT_MIN = 0x80000000"

text \<open>One line \<^verbatim>\<open>v |= v >> k\<close>.\<close>

definition smear :: "nat \<Rightarrow> i32 \<Rightarrow> i32" where
  "smear k v = v OR signed_drop_bit k v"

definition roundToPowerOfTwo :: "i32 \<Rightarrow> i32 outcome" where
  "roundToPowerOfTwo v =
  (if v = INT_MIN then Undefined
   else let v = v - 1; v = smear 1 v; v = smear 2 v; v = smear 4 v; v = smear 8 v; v = smear 16 v
     in if v = INT_MAX then Undefined else Value (v + 1))"

definition lowbit :: "i32 \<Rightarrow> i32 outcome" where
  "lowbit v = (if v = INT_MIN then Undefined else Value (v AND - v))"

definition isPowerOfTwo :: "i32 \<Rightarrow> bool outcome" where
  "isPowerOfTwo v = map_outcome (\<lambda>l. v = l) (lowbit v)"

text \<open>The loop \<^verbatim>\<open>for(int i = 31; ~i; --i)\<close>, with \<open>Suc i\<close> for the values still to try.\<close>

fun highest_from :: "i32 \<Rightarrow> nat \<Rightarrow> int" where
  "highest_from v 0 = 0"
| "highest_from v (Suc i) = (if signed_drop_bit i v AND 1 \<noteq> 0 then int i else highest_from v i)"

definition highestBitPosition :: "i32 \<Rightarrow> int" where
  "highestBitPosition v = highest_from v 32"

definition ceilOfPowerOfTwo :: "i32 \<Rightarrow> int outcome" where
  "ceilOfPowerOfTwo v = (let n = highestBitPosition v in map_outcome (\<lambda>p. if p then n else n + 1) (isPowerOfTwo v))"

definition floorOfPowerOfTwo :: "i32 \<Rightarrow> int outcome" where
  "floorOfPowerOfTwo v = (let n = highestBitPosition v in map_outcome (\<lambda>p. if p then n else n - 1) (isPowerOfTwo v))"

section \<open>Bits of the results\<close>

definition nonneg_bits :: "i32 \<Rightarrow> bool" where
  "nonneg_bits v \<longleftrightarrow> (\<forall>n \<ge> 31. \<not> bit v n)"

lemma nonneg_bits_iff:
  assumes "unat v < 2 ^ 31"
  shows "nonneg_bits v"
  unfolding nonneg_bits_def
proof (intro allI impI notI)
  fix n :: nat
  assume n: "31 \<le> n" "bit v n"
  have "bit (unat v) n" using n(2) by (simp add: bit_unsigned_iff bit_imp_le_length)
  moreover have "(2::nat) ^ 31 \<le> 2 ^ n" using n(1) by (intro power_increasing) auto
  then have "unat v div 2 ^ n = 0" using assms by (intro div_less) linarith
  ultimately show False by (simp add: bit_iff_odd)
qed

lemma smear_bits:
  assumes "nonneg_bits a" "k < 32"
  shows "bit (smear k a) n \<longleftrightarrow> bit a n \<or> bit a (n + k)" "nonneg_bits (smear k a)"
  using assms by (auto simp: smear_def nonneg_bits_def bit_simps add.commute) 

text \<open>After the smears by 1, 2, .., \<open>m\<close> a bit is set when one of the next \<open>2 m\<close> bits was.\<close>

lemma smear_double:
  assumes "nonneg_bits a" "m < 32" "\<And>n. bit a n \<longleftrightarrow> (\<exists>j < m. bit v (n + j))"
  shows "bit (smear m a) n \<longleftrightarrow> (\<exists>j < 2 * m. bit v (n + j))"
proof -
  have "(\<exists>j < 2 * m. bit v (n + j)) \<longleftrightarrow> (\<exists>j < m. bit v (n + j)) \<or> (\<exists>j < m. bit v (n + m + j))"
  proof
    assume "\<exists>j < 2 * m. bit v (n + j)"
    then obtain j where j: "j < 2 * m" "bit v (n + j)" by blast
    show "(\<exists>j < m. bit v (n + j)) \<or> (\<exists>j < m. bit v (n + m + j))"
    proof (cases "j < m")
      case False
      then have "j - m < m" "n + m + (j - m) = n + j" using j(1) by auto
      then show ?thesis using j(2) by metis
    qed (use j in blast)
  next
    assume "(\<exists>j < m. bit v (n + j)) \<or> (\<exists>j < m. bit v (n + m + j))"
    then show "\<exists>j < 2 * m. bit v (n + j)"
    proof
      assume "\<exists>j < m. bit v (n + m + j)"
      then obtain j where "j < m" "bit v (n + (m + j))" by (auto simp: add.assoc)
      then show ?thesis by (intro exI [of _ "m + j"]) auto
    next
      assume "\<exists>j < m. bit v (n + j)"
      then obtain j where "j < m" "bit v (n + j)" by blast
      then show ?thesis by (intro exI [of _ j]) auto
    qed
  qed
  then show ?thesis using smear_bits(1) [OF assms(1,2)] assms(3) by simp
qed

lemma smear_all:
  assumes "nonneg_bits v"
  shows "bit (smear 16 (smear 8 (smear 4 (smear 2 (smear 1 v))))) n \<longleftrightarrow> (\<exists>j < 32. bit v (n + j))"
proof -
  let ?v1 = "smear 1 v"
  let ?v2 = "smear 2 ?v1"
  let ?v3 = "smear 4 ?v2"
  let ?v4 = "smear 8 ?v3"
  note nn = assms smear_bits(2)
  have p: "nonneg_bits ?v1" "nonneg_bits ?v2" "nonneg_bits ?v3" "nonneg_bits ?v4"
    using assms by (simp_all add: smear_bits(2))
  have 1: "bit ?v1 n \<longleftrightarrow> (\<exists>j < 2. bit v (n + j))" for n using smear_double [OF assms, of 1 v n] by simp
  have 2: "bit ?v2 n \<longleftrightarrow> (\<exists>j < 4. bit v (n + j))" for n using smear_double [OF p(1), of 2 v n] 1 by simp
  have 3: "bit ?v3 n \<longleftrightarrow> (\<exists>j < 8. bit v (n + j))" for n using smear_double [OF p(2), of 4 v n] 2 by simp
  have 4: "bit ?v4 n \<longleftrightarrow> (\<exists>j < 16. bit v (n + j))" for n using smear_double [OF p(3), of 8 v n] 3 by simp
  show ?thesis using smear_double [OF p(4), of 16 v n] 4 by simp
qed

section \<open>The positions of the highest bits\<close>

lemma bit_iff_shift: "n < 32 \<Longrightarrow> signed_drop_bit n v AND 1 \<noteq> 0 \<longleftrightarrow> bit (v :: i32) n"
proof -
  have "signed_drop_bit n v AND 1 \<noteq> 0 \<longleftrightarrow> bit (signed_drop_bit n v) 0"
    by (simp add: and_one_eq bit_0 even_iff_mod_2_eq_zero)
  then show "n < 32 \<Longrightarrow> ?thesis" by (simp add: bit_signed_drop_bit_iff)
qed

lemma highest_from_bit:
  assumes "bit v k" "k < i" "i \<le> 32" "\<And>n. bit v n \<Longrightarrow> n \<le> k"
  shows "highest_from v i = int k"
  using assms
proof (induction i)
  case (Suc i)
  show ?case
  proof (cases "i = k")
    case True
    then show ?thesis using Suc.prems by (simp add: bit_iff_shift del: One_nat_def)
  next
    case False
    then have "\<not> bit v i" using Suc.prems(2) assms(4) by force
    then show ?thesis using Suc False by (simp add: bit_iff_shift del: One_nat_def)
  qed
qed simp

lemma highestBitPosition_log:
  assumes "2 ^ k \<le> unat v" "unat v < 2 ^ Suc k"
  shows "highestBitPosition v = int k"
  unfolding highestBitPosition_def
proof (rule highest_from_bit)
  show "bit v k" using bit_between(2) [OF assms] .
  then show "k < 32" using bit_imp_le_length [of v k] by simp
qed (use bit_between(1) [OF assms] in auto)

lemma and_not_self:
  fixes v w :: "'a::len word"
  shows "v = v AND NOT w \<longleftrightarrow> v AND w = 0"
proof
  assume "v = v AND NOT w"
  then have "v AND w = (v AND NOT w) AND w" by (rule arg_cong)
  also have "\<dots> = 0" by (rule bit_word_eqI) (simp add: bit_simps)
  finally show "v AND w = 0" .
next
  assume zero: "v AND w = 0"
  show "v = v AND NOT w"
  proof (rule bit_word_eqI)
    fix n
    assume "n < LENGTH('a)"
    moreover have "\<not> (bit v n \<and> bit w n)" using arg_cong [OF zero, of "\<lambda>x. bit x n"] by (simp add: bit_simps)
    ultimately show "bit v n = bit (v AND NOT w) n" by (auto simp: bit_simps)
  qed
qed

lemma isPowerOfTwo_iff:
  assumes "0 < unat v" "unat v < 2 ^ 31"
  shows "isPowerOfTwo v = Value (\<exists>k. unat v = 2 ^ k)"
proof -
  have min: "v \<noteq> INT_MIN" using assms(2) by (auto simp: INT_MIN_def)
  have "v = v AND - v \<longleftrightarrow> v AND (v - 1) = 0"
    using and_not_self [of v "v - 1"] by (simp add: minus_eq_not_minus_1)
  also have "\<dots> \<longleftrightarrow> (\<exists>k. unat v = 2 ^ k)"
  proof
    assume "v AND (v - 1) = 0"
    then show "\<exists>k. unat v = 2 ^ k" using and_minus_one_pow2 [of v] assms(1) by (auto simp: unat_gt_0)
  next
    assume "\<exists>k. unat v = 2 ^ k"
    then obtain k where k: "unat v = 2 ^ k" by blast
    then have "k < 31" using assms(2) power_less_imp_less_exp [of "2::nat" k 31] by simp
    then have v: "v = 2 ^ k" using k by (simp add: word_unat_eq_iff unat_exp_less)
    have "v AND mask k = 0" unfolding v by (rule bit_word_eqI) (auto simp: bit_simps)
    then show "v AND (v - 1) = 0" by (simp add: v mask_eq_exp_minus_1)
  qed
  finally show ?thesis using min by (simp add: isPowerOfTwo_def lowbit_def)
qed

lemma round_bits:
  assumes "0 < unat v" "unat v < 2 ^ 31" "2 ^ k \<le> unat (v - 1)" "unat (v - 1) < 2 ^ Suc k"
  shows "roundToPowerOfTwo v = (if k = 30 then Undefined else Value (2 ^ Suc k))"
proof -
  define s where "s = smear 16 (smear 8 (smear 4 (smear 2 (smear 1 (v - 1)))))"
  have v1: "unat (v - 1) = unat v - 1" using assms(1) by (simp add: unat_minus_one unat_gt_0)
  have k: "k < 31" using assms(2,3) v1 power_less_imp_less_exp [of "2::nat" k 31] by simp
  have "bit s n \<longleftrightarrow> n < Suc k" for n
  proof -
    have "bit s n \<longleftrightarrow> (\<exists>j < 32. bit (v - 1) (n + j))"
      unfolding s_def using assms(2) v1 by (intro smear_all nonneg_bits_iff) simp
    also have "\<dots> \<longleftrightarrow> n \<le> k"
    proof
      assume "n \<le> k"
      then show "\<exists>j < 32. bit (v - 1) (n + j)" using bit_between(2) [OF assms(3,4)] k by (intro exI [of _ "k - n"]) auto
    qed (use bit_between(1) [OF assms(3,4)] in fastforce)
    finally show ?thesis by auto
  qed
  then have s: "s = mask (Suc k)" using k by (intro bit_word_eqI) (auto simp: bit_mask_iff)
  have "v \<noteq> INT_MIN" using assms(2) by (auto simp: INT_MIN_def)
  moreover have "s = INT_MAX \<longleftrightarrow> k = 30"
  proof -
    have "INT_MAX = mask 31" by (simp add: INT_MAX_def mask_eq_exp_minus_1)
    moreover have "mask (Suc k) = (mask 31 :: i32) \<longleftrightarrow> Suc k = 31"
    proof
      assume "mask (Suc k) = (mask 31 :: i32)"
      then have "bit (mask (Suc k) :: i32) 30 = bit (mask 31 :: i32) 30" by simp
      then show "Suc k = 31" using k by (simp add: bit_mask_iff)
    qed simp
    ultimately show ?thesis using s by auto
  qed
  moreover have "s + 1 = 2 ^ Suc k" by (simp add: s mask_eq_exp_minus_1)
  ultimately show ?thesis by (simp add: roundToPowerOfTwo_def Let_def s_def)
qed

lemma round_one: "roundToPowerOfTwo 1 = Value 1"
  by (simp add: roundToPowerOfTwo_def smear_def INT_MIN_def INT_MAX_def)

text \<open>Up to \<open>2^30\<close> the result is a power of two that fits the \<^verbatim>\<open>int\<close>.\<close>

lemma round_up:
  assumes "0 < unat v" "unat v \<le> 2 ^ 30"
  shows "\<exists>c \<le> 30. roundToPowerOfTwo v = Value (2 ^ c) \<and> unat v \<le> 2 ^ c"
proof (cases "unat v = 1")
  case True
  then have "v = 1" by (simp add: word_unat_eq_iff)
  then show ?thesis using round_one by (intro exI [of _ 0]) simp
next
  case False
  have v1: "unat (v - 1) = unat v - 1" using assms(1) by (simp add: unat_minus_one unat_gt_0)
  then have "0 < unat (v - 1)" using False assms(1) by simp
  then obtain k where k: "2 ^ k \<le> unat (v - 1)" "unat (v - 1) < 2 ^ Suc k"
    using ex_power_ivl1 [of 2 "unat (v - 1)"] by auto
  then have "k < 30" using v1 assms power_less_imp_less_exp [of "2::nat" k 30] by simp
  then show ?thesis using round_bits [OF assms(1) _ k] k(2) v1 assms by (intro exI [of _ "Suc k"]) simp
qed

text \<open>
  C38. The power-of-two helpers on a positive \<^verbatim>\<open>int\<close>, with \<open>c\<close> the exponent of the least power of two that is not below it:
  \<^verbatim>\<open>roundToPowerOfTwo\<close> returns that power up to \<open>2^30\<close> and overflows above; \<^verbatim>\<open>ceilOfPowerOfTwo\<close> returns \<open>c\<close>; and
  \<^verbatim>\<open>floorOfPowerOfTwo\<close> returns \<open>c\<close> on a power of two and \<open>c - 2\<close> otherwise, one less than the floor of the logarithm.
\<close>

theorem power_of_two_helpers:
  assumes "0 < unat v" "unat v < 2 ^ 31"
  shows "\<exists>c. unat v \<le> 2 ^ c \<and> 2 ^ c < 2 * unat v \<and>
    roundToPowerOfTwo v = (if unat v \<le> 2 ^ 30 then Value (2 ^ c) else Undefined) \<and>
    ceilOfPowerOfTwo v = Value (int c) \<and>
    floorOfPowerOfTwo v = Value (if unat v = 2 ^ c then int c else int c - 2)"
proof (cases "unat v = 1")
  case True
  then have v: "v = 1" by (simp add: word_unat_eq_iff)
  have "isPowerOfTwo 1 = Value True" "highestBitPosition 1 = 0"
    using isPowerOfTwo_iff [of 1] highestBitPosition_log [of 0 1] by (simp_all add: exI [of _ 0])
  moreover note round_one
  ultimately show ?thesis
    unfolding v by (intro exI [of _ 0]) (simp add: ceilOfPowerOfTwo_def floorOfPowerOfTwo_def)
next
  case False
  have v1: "unat (v - 1) = unat v - 1" using assms(1) by (simp add: unat_minus_one unat_gt_0)
  then have "0 < unat (v - 1)" using False assms(1) by simp
  then obtain k where k: "2 ^ k \<le> unat (v - 1)" "unat (v - 1) < 2 ^ Suc k"
    using ex_power_ivl1 [of 2 "unat (v - 1)"] by auto
  have bnd: "2 ^ k < unat v" "unat v \<le> 2 ^ Suc k" using k v1 assms(1) by auto
  have "k = 30 \<longleftrightarrow> \<not> unat v \<le> 2 ^ 30"
  proof
    assume "\<not> unat v \<le> 2 ^ 30"
    then have "(2::nat) ^ 30 < 2 ^ Suc k" "(2::nat) ^ k < 2 ^ 31" using bnd assms(2) by linarith+
    then have "30 < Suc k" "k < 31" using power_less_imp_less_exp by (metis one_less_numeral_iff semiring_norm(76))+
    then show "k = 30" by simp
  qed (use bnd in auto)
  then have rd: "roundToPowerOfTwo v = (if unat v \<le> 2 ^ 30 then Value (2 ^ Suc k) else Undefined)"
    using round_bits [OF assms k] by simp
  have pow: "(\<exists>m. unat v = 2 ^ m) \<longleftrightarrow> unat v = 2 ^ Suc k"
  proof
    assume "\<exists>m. unat v = 2 ^ m"
    then obtain m where "unat v = 2 ^ m" by blast
    moreover from this have "k < m" "m \<le> Suc k"
      using bnd power_less_imp_less_exp [of "2::nat" k m] power_le_imp_le_exp [of "2::nat" m "Suc k"] by auto
    ultimately have "m = Suc k" "unat v = 2 ^ m" by auto
    then show "unat v = 2 ^ Suc k" by simp
  qed blast
  have hb: "highestBitPosition v = (if unat v = 2 ^ Suc k then int (Suc k) else int k)"
    using highestBitPosition_log [of "Suc k" v] highestBitPosition_log [of k v] bnd by (auto simp: le_less)
  show ?thesis
    using rd hb isPowerOfTwo_iff [OF assms] pow bnd
    by (intro exI [of _ "Suc k"]) (auto simp: ceilOfPowerOfTwo_def floorOfPowerOfTwo_def Let_def)
qed

theorem power_of_two_helpers_witness:
  "\<exists>c. c = 3 \<and> roundToPowerOfTwo 5 = Value 8 \<and> ceilOfPowerOfTwo 5 = Value (int c) \<and> floorOfPowerOfTwo 5 = Value 1"
proof -
  obtain c where c: "5 \<le> (2::nat) ^ c" "(2::nat) ^ c < 10" "roundToPowerOfTwo 5 = Value (2 ^ c)" "ceilOfPowerOfTwo 5 = Value (int c)"
    "floorOfPowerOfTwo 5 = Value (if (5::nat) = 2 ^ c then int c else int c - 2)"
    using power_of_two_helpers [of 5] by auto
  have "2 < c" "c < 4"
    using c(1,2) power_less_imp_less_exp [of "2::nat" 2 c] power_less_imp_less_exp [of "2::nat" c 4] by auto
  then have "c = 3" by simp
  with c show ?thesis by auto
qed

end
