(* ===== verification/Net_Buffer.thy ===== *)
theory Net_Buffer
  imports Power_Of_Two
begin

text \<open>
  The network buffer of \<^verbatim>\<open>src/net/fluent/include/network/Buffer.h\<close>: a vector of bytes with a read and a write position. Sizes are
  \<^verbatim>\<open>ssize_t\<close>, modelled by \<open>int\<close>; \<^verbatim>\<open>gc(hint)\<close> narrows the wanted size to the 32-bit \<^verbatim>\<open>int\<close> of \<^verbatim>\<open>roundToPowerOfTwo\<close>. What the
  kernel returns from \<^verbatim>\<open>readv\<close> and \<^verbatim>\<open>write\<close> is an argument. Errors are values: the exception of
  \<^verbatim>\<open>vector::resize\<close>, a copy outside the vector, a signed overflow, and \<^verbatim>\<open>WriteException\<close>.
\<close>

section \<open>The buffer\<close>

record net_buffer =
  buf :: string
  capacity :: int
  rpos :: int
  wpos :: int

datatype sys_errno = EAGAIN | EINTR | Other_errno int

datatype buffer_error = Length_error | Out_of_range | Int_overflow | Write_exception sys_errno

definition buffer_new :: "nat \<Rightarrow> net_buffer" where
  "buffer_new sz = \<lparr>buf = replicate sz (CHR 0x00), capacity = int sz, rpos = 0, wpos = 0\<rparr>"

definition unread :: "net_buffer \<Rightarrow> int" where
  "unread b = wpos b - rpos b"

definition unwrite :: "net_buffer \<Rightarrow> int" where
  "unwrite b = capacity b - wpos b"

definition available :: "net_buffer \<Rightarrow> int" where
  "available b = capacity b - unread b"

definition clear :: "net_buffer \<Rightarrow> net_buffer" where
  "clear b = b\<lparr>rpos := 0, wpos := 0\<rparr>"

text \<open>\<^verbatim>\<open>memmove\<close> and \<^verbatim>\<open>memcpy\<close> into a vector.\<close>

definition overwrite :: "nat \<Rightarrow> 'a list \<Rightarrow> 'a list \<Rightarrow> 'a list" where
  "overwrite i data xs = take i xs @ data @ drop (i + length data) xs"

text \<open>The bytes between the two positions.\<close>

definition readable :: "net_buffer \<Rightarrow> string" where
  "readable b = take (nat (unread b)) (drop (nat (rpos b)) (buf b))"

definition gc :: "net_buffer \<Rightarrow> net_buffer" where
  "gc b = (if rpos b > 0 then b\<lparr>buf := overwrite 0 (readable b) (buf b), wpos := unread b, rpos := 0\<rparr> else b)"

definition reuseIfPossible :: "net_buffer \<Rightarrow> net_buffer" where
  "reuseIfPossible b =
  (if rpos b = wpos b then clear b
   else if unread b < capacity b div 16 \<and> rpos b > capacity b div 16 then gc b else b)"

definition vector_resize :: "nat \<Rightarrow> string \<Rightarrow> string" where
  "vector_resize n xs = take n xs @ replicate (n - length xs) (CHR 0x00)"

definition expandTo :: "int \<Rightarrow> net_buffer \<Rightarrow> buffer_error + net_buffer" where
  "expandTo sz b =
  (if sz < 0 then Inl Length_error else Inr (b\<lparr>buf := vector_resize (nat sz) (buf b), capacity := sz\<rparr>))"

definition expand :: "net_buffer \<Rightarrow> net_buffer" where
  "expand b = b\<lparr>buf := vector_resize (nat (2 * capacity b)) (buf b), capacity := 2 * capacity b\<rparr>"

definition gc_hint :: "int \<Rightarrow> net_buffer \<Rightarrow> buffer_error + net_buffer" where
  "gc_hint hint b =
  (if hint \<le> unwrite b then Inr b
   else let b = gc b in
     if hint > available b then
       let appendSize = hint - available b; expectSize = int (length (buf b)) + appendSize
       in case roundToPowerOfTwo (word_of_int expectSize) of
            Undefined \<Rightarrow> Inl Int_overflow
          | Value sz \<Rightarrow> expandTo (sint sz) b
     else Inr b)"

definition hasWritten :: "int \<Rightarrow> net_buffer \<Rightarrow> net_buffer" where
  "hasWritten n b = b\<lparr>wpos := wpos b + n\<rparr>"

definition hasRead :: "int \<Rightarrow> net_buffer \<Rightarrow> net_buffer" where
  "hasRead n b = reuseIfPossible (b\<lparr>rpos := rpos b + n\<rparr>)"

text \<open>\<^verbatim>\<open>memcpy(writeBuffer(), data, size)\<close>.\<close>

definition copy_in :: "string \<Rightarrow> net_buffer \<Rightarrow> buffer_error + net_buffer" where
  "copy_in data b =
  (if wpos b < 0 \<or> wpos b + int (length data) > int (length (buf b)) then Inl Out_of_range
   else Inr (b\<lparr>buf := overwrite (nat (wpos b)) data (buf b)\<rparr>))"

definition append_bytes :: "string \<Rightarrow> net_buffer \<Rightarrow> buffer_error + net_buffer" where
  "append_bytes data b =
  bind_res (gc_hint (int (length data)) b)
    (\<lambda>b. bind_res (copy_in data b) (\<lambda>b. Inr (hasWritten (int (length data)) b)))"

text \<open>
  \<^verbatim>\<open>readFrom\<close>: \<open>None\<close> is a failed \<^verbatim>\<open>readv\<close>, which returns \<open>-1\<close>; otherwise the bytes it scattered, first into the free part of the
  buffer, then into the local one.
\<close>

definition readFrom :: "string option \<Rightarrow> net_buffer \<Rightarrow> buffer_error + (int \<times> net_buffer)" where
  "readFrom received b =
  (case received of None \<Rightarrow> Inr (- 1, b)
   | Some bytes \<Rightarrow>
       let bufferLimit = unwrite b; n = int (length bytes) in
       if n > 0 then
         bind_res (copy_in (take (nat bufferLimit) bytes) b)
           (\<lambda>b. if n \<le> bufferLimit then Inr (n, hasWritten n b)
                else bind_res (append_bytes (drop (nat bufferLimit) bytes) (hasWritten bufferLimit b)) (\<lambda>b. Inr (n, b)))
       else Inr (n, b))"

text \<open>\<^verbatim>\<open>writeTo\<close>: \<open>Inl\<close> is a failed \<^verbatim>\<open>write\<close> with its error number, \<open>Inr n\<close> the number of bytes it took.\<close>

definition writeTo :: "sys_errno + nat \<Rightarrow> net_buffer \<Rightarrow> buffer_error + (int \<times> net_buffer)" where
  "writeTo result b =
  (case result of
     Inl EAGAIN \<Rightarrow> Inr (0, hasRead 0 b)
   | Inl EINTR \<Rightarrow> Inr (0, hasRead 0 b)
   | Inl e \<Rightarrow> Inl (Write_exception e)
   | Inr n \<Rightarrow> Inr (int n, hasRead (int n) b))"

section \<open>The buffer as a queue of bytes\<close>

definition buffer_inv :: "net_buffer \<Rightarrow> bool" where
  "buffer_inv b \<longleftrightarrow> 0 \<le> rpos b \<and> rpos b \<le> wpos b \<and> wpos b \<le> capacity b \<and> capacity b = int (length (buf b))"

lemma buffer_new_inv: "buffer_inv (buffer_new sz)" "readable (buffer_new sz) = []"
  by (simp_all add: buffer_inv_def buffer_new_def readable_def unread_def)

lemma readable_nat: "rpos b = int r \<Longrightarrow> wpos b = int w \<Longrightarrow> readable b = take (w - r) (drop r (buf b))"
  by (simp add: readable_def unread_def nat_minus_as_int)

lemma buffer_inv_nat:
  assumes "buffer_inv b"
  obtains r w where "rpos b = int r" "wpos b = int w" "r \<le> w" "w \<le> length (buf b)" "capacity b = int (length (buf b))"
proof -
  show ?thesis using assms by (intro that [of "nat (rpos b)" "nat (wpos b)"]) (auto simp: buffer_inv_def)
qed

lemma length_readable:
  assumes "buffer_inv b"
  shows "int (length (readable b)) = unread b"
proof -
  obtain r w where "rpos b = int r" "wpos b = int w" "r \<le> w" "w \<le> length (buf b)" using buffer_inv_nat [OF assms] by metis
  then show ?thesis by (simp add: readable_nat unread_def)
qed

lemma length_overwrite: "i + length data \<le> length xs \<Longrightarrow> length (overwrite i data xs) = length xs"
  by (simp add: overwrite_def)

lemma take_drop_overwrite:
  assumes "r \<le> w" "w + length data \<le> length xs"
  shows "take (w + length data - r) (drop r (overwrite w data xs)) = take (w - r) (drop r xs) @ data"
  using assms by (simp add: overwrite_def drop_take take_append)

lemma gc_ok:
  assumes "buffer_inv b"
  shows "buffer_inv (gc b)" "readable (gc b) = readable b" "rpos (gc b) = 0" "capacity (gc b) = capacity b"
    "wpos (gc b) = unread b"
proof -
  have "length (readable b) \<le> length (buf b)" by (simp add: readable_def)
  then show "buffer_inv (gc b)" "readable (gc b) = readable b" "rpos (gc b) = 0" "capacity (gc b) = capacity b" "wpos (gc b) = unread b"
    using assms length_readable [OF assms] length_overwrite [of 0 "readable b" "buf b"]
    by (auto simp: gc_def buffer_inv_def readable_def unread_def overwrite_def)
qed

lemma reuse_ok:
  assumes "buffer_inv b"
  shows "buffer_inv (reuseIfPossible b)" "readable (reuseIfPossible b) = readable b"
  using assms gc_ok [OF assms] by (auto simp: reuseIfPossible_def clear_def buffer_inv_def readable_def unread_def)

lemma hasRead_ok:
  assumes "buffer_inv b" "n \<le> length (readable b)"
  shows "buffer_inv (hasRead (int n) b)" "readable (hasRead (int n) b) = drop n (readable b)"
proof -
  let ?b = "b\<lparr>rpos := rpos b + int n\<rparr>"
  have inv: "buffer_inv ?b" using assms length_readable [OF assms(1)] by (auto simp: buffer_inv_def unread_def)
  obtain r w where rw: "rpos b = int r" "wpos b = int w" using buffer_inv_nat [OF assms(1)] by metis
  then have "rpos ?b = int (r + n)" "wpos ?b = int w" by simp_all
  then have "readable ?b = drop n (readable b)"
    using readable_nat [of ?b "r + n" w] by (simp add: readable_nat [OF rw] drop_take add.commute)
  then show "buffer_inv (hasRead (int n) b)" "readable (hasRead (int n) b) = drop n (readable b)"
    using reuse_ok [OF inv] by (simp_all add: hasRead_def)
qed

lemma readable_resize:
  assumes "buffer_inv b" "length (buf b) \<le> n"
  shows "buffer_inv (b\<lparr>buf := vector_resize n (buf b), capacity := int n\<rparr>)"
    "readable (b\<lparr>buf := vector_resize n (buf b), capacity := int n\<rparr>) = readable b"
proof -
  obtain r w where rw: "rpos b = int r" "wpos b = int w" "r \<le> w" "w \<le> length (buf b)" using buffer_inv_nat [OF assms(1)] by metis
  let ?b = "b\<lparr>buf := vector_resize n (buf b), capacity := int n\<rparr>"
  show "buffer_inv ?b" using assms rw by (simp add: buffer_inv_def vector_resize_def)
  show "readable ?b = readable b"
    using readable_nat [of ?b r w] readable_nat [OF rw(1,2)] rw assms(2) by (simp add: vector_resize_def)
qed

lemma expand_ok:
  assumes "buffer_inv b"
  shows "buffer_inv (expand b)" "readable (expand b) = readable b"
proof -
  have n: "2 * capacity b = int (2 * length (buf b))" "nat (2 * capacity b) = 2 * length (buf b)" using assms by (simp_all add: buffer_inv_def)
  show "buffer_inv (expand b)" "readable (expand b) = readable b"
    unfolding expand_def n(2) unfolding n(1) using readable_resize [OF assms, of "2 * length (buf b)"] by simp_all
qed

lemma unat_word_of_int_less: "0 \<le> x \<Longrightarrow> x < 2 ^ 32 \<Longrightarrow> unat (word_of_int x :: i32) = nat x"
  by (simp add: unsigned_of_int take_bit_int_eq_self)

text \<open>\<^verbatim>\<open>gc(hint)\<close> makes room, as long as the bytes and the hint together fit one gibibyte.\<close>

lemma gc_hint_ok:
  assumes "buffer_inv b" "unread b + int h \<le> 2 ^ 30"
  shows "\<exists>b'. gc_hint (int h) b = Inr b' \<and> buffer_inv b' \<and> readable b' = readable b \<and> int h \<le> unwrite b'"
proof (cases "int h \<le> unwrite b")
  case True
  then show ?thesis using assms by (simp add: gc_hint_def)
next
  case False
  note g = gc_ok [OF assms(1)]
  have av: "available (gc b) = unwrite (gc b)" "unwrite (gc b) = capacity b - unread b" "unread (gc b) = unread b"
    using g by (simp_all add: available_def unwrite_def unread_def)
  show ?thesis
  proof (cases "int h > available (gc b)")
    case False
    then show ?thesis using \<open>\<not> int h \<le> unwrite b\<close> g av by (simp add: gc_hint_def Let_def)
  next
    case True
    define e where "e = int (length (buf (gc b))) + (int h - available (gc b))"
    have e: "e = unread b + int h" "e > capacity b"
      using g(1,4) av True by (auto simp: e_def buffer_inv_def available_def)
    have "0 \<le> unread b" "0 \<le> capacity b" using assms(1) by (auto simp: buffer_inv_def unread_def)
    then have e0: "0 < e" "e \<le> 2 ^ 30" using e assms(2) by auto
    then have uw: "unat (word_of_int e :: i32) = nat e" "0 < nat e" "nat e \<le> 2 ^ 30"
      using unat_word_of_int_less [of e] by auto
    obtain c where c: "c \<le> 30" "roundToPowerOfTwo (word_of_int e) = Value (2 ^ c)" "nat e \<le> 2 ^ c"
      using round_up [of "word_of_int e"] uw by auto
    have s: "sint (2 ^ c :: i32) = int (2 ^ c)"
    proof -
      have u: "uint (2 ^ c :: i32) = 2 ^ c"
        using arg_cong [OF unat_exp_less [of c, where 'a = 32], of int] c(1) by simp
      have b: "(2::int) ^ c \<le> 2 ^ 30" "(0::int) \<le> 2 ^ c" using c(1) power_increasing [of c 30 "2::int"] by auto
      have "signed_take_bit 31 ((2::int) ^ c) = 2 ^ c"
        by (rule signed_take_bit_int_eq_self [OF order_trans [OF _ b(2)] le_less_trans [OF b(1)]]) simp_all
      then show ?thesis by (simp add: sint_uint u)
    qed
    have "int (length (buf (gc b))) < e" using g(1,4) e(2) by (simp add: buffer_inv_def)
    then have "length (buf (gc b)) \<le> nat e" by linarith
    then have len: "length (buf (gc b)) \<le> 2 ^ c" using c(3) by (rule order_trans)
    let ?b = "(gc b)\<lparr>buf := vector_resize (2 ^ c) (buf (gc b)), capacity := int (2 ^ c)\<rparr>"
    have "gc_hint (int h) b =
        (case roundToPowerOfTwo (word_of_int e) of Undefined \<Rightarrow> Inl Int_overflow | Value sz \<Rightarrow> expandTo (sint sz) (gc b))"
      unfolding gc_hint_def Let_def e_def using \<open>\<not> int h \<le> unwrite b\<close> True by (simp only: if_False if_True)
    then have "gc_hint (int h) b = Inr ?b"
      unfolding c(2) outcome.case expandTo_def s nat_int by simp
    moreover have "int h \<le> unwrite ?b"
      using g(5) e(1) c(3) by (simp add: unwrite_def nat_le_iff)
    ultimately show ?thesis using readable_resize [OF g(1) len] g(2) by auto
  qed
qed

lemma copy_in_ok:
  assumes "buffer_inv b" "int (length data) \<le> unwrite b"
  shows "\<exists>b'. copy_in data b = Inr b' \<and> buffer_inv (hasWritten (int (length data)) b') \<and>
    readable (hasWritten (int (length data)) b') = readable b @ data \<and> capacity b' = capacity b \<and> wpos b' = wpos b"
proof -
  obtain r w where rw: "rpos b = int r" "wpos b = int w" "r \<le> w" "w \<le> length (buf b)" "capacity b = int (length (buf b))"
    using buffer_inv_nat [OF assms(1)] by metis
  have fit: "w + length data \<le> length (buf b)" using assms(2) rw by (simp add: unwrite_def)
  let ?b = "hasWritten (int (length data)) (b\<lparr>buf := overwrite w data (buf b)\<rparr>)"
  have "rpos ?b = int r" "wpos ?b = int (w + length data)" using rw by (simp_all add: hasWritten_def)
  then have "readable ?b = readable b @ data"
    using readable_nat [of ?b r "w + length data"] readable_nat [OF rw(1,2)] take_drop_overwrite [OF rw(3) fit] by (simp add: hasWritten_def)
  moreover have "buffer_inv ?b" using rw fit by (simp add: buffer_inv_def hasWritten_def length_overwrite)
  ultimately show ?thesis using rw fit by (simp add: copy_in_def)
qed

lemma append_ok:
  assumes "buffer_inv b" "unread b + int (length data) \<le> 2 ^ 30"
  shows "\<exists>b'. append_bytes data b = Inr b' \<and> buffer_inv b' \<and> readable b' = readable b @ data"
proof -
  obtain b1 where b1: "gc_hint (int (length data)) b = Inr b1" "buffer_inv b1" "readable b1 = readable b" "int (length data) \<le> unwrite b1"
    using gc_hint_ok [OF assms] by blast
  then show ?thesis using copy_in_ok [OF b1(2,4)] by (auto simp: append_bytes_def)
qed

lemma readFrom_ok:
  assumes "buffer_inv b" "unread b + int (length bytes) \<le> 2 ^ 30"
  shows "\<exists>b'. readFrom (Some bytes) b = Inr (int (length bytes), b') \<and> buffer_inv b' \<and> readable b' = readable b @ bytes"
proof (cases "bytes = []")
  case True
  then show ?thesis using assms(1) by (simp add: readFrom_def Let_def)
next
  case False
  define m where "m = nat (unwrite b)"
  have m: "unwrite b = int m" using assms(1) by (simp add: m_def buffer_inv_def unwrite_def)
  have fit: "int (length (take m bytes)) \<le> unwrite b" by (simp add: m)
  obtain b1 where b1: "copy_in (take m bytes) b = Inr b1" "buffer_inv (hasWritten (int (length (take m bytes))) b1)"
      "readable (hasWritten (int (length (take m bytes))) b1) = readable b @ take m bytes"
    using copy_in_ok [OF assms(1) fit] by blast
  show ?thesis
  proof (cases "length bytes \<le> m")
    case True
    then show ?thesis using b1 False m by (simp add: readFrom_def Let_def)
  next
    case over: False
    let ?b = "hasWritten (int m) b1"
    have b: "buffer_inv ?b" "readable ?b = readable b @ take m bytes" using b1 over by simp_all
    have "unread ?b = unread b + int m"
      using arg_cong [OF b(2), of "\<lambda>xs. int (length xs)"] length_readable [OF b(1)] length_readable [OF assms(1)] over by simp
    then obtain b2 where "append_bytes (drop m bytes) ?b = Inr b2" "buffer_inv b2" "readable b2 = readable b @ bytes"
      using append_ok [OF b(1), of "drop m bytes"] assms(2) b(2) over by auto
    then show ?thesis using b1(1) False over m by (simp add: readFrom_def Let_def)
  qed
qed

section \<open>Any sequence of operations\<close>

datatype buffer_op = Append string | Has_read nat | Read_from "string option" | Write_to "sys_errno + nat"

definition buffer_step :: "buffer_op \<Rightarrow> net_buffer \<Rightarrow> buffer_error + net_buffer" where
  "buffer_step op b =
  (case op of
     Append data \<Rightarrow> append_bytes data b
   | Has_read n \<Rightarrow> Inr (hasRead (int n) b)
   | Read_from received \<Rightarrow> bind_res (readFrom received b) (\<lambda>(n, b). Inr b)
   | Write_to result \<Rightarrow> bind_res (writeTo result b) (\<lambda>(n, b). Inr b))"

text \<open>
  A sequence of calls. A call that throws \<^verbatim>\<open>WriteException\<close> does so before it changes the buffer; the caller sees the error
  number and may go on with the buffer. Any other error ends the run.
\<close>

fun run_buffer :: "buffer_op list \<Rightarrow> net_buffer \<Rightarrow> buffer_error + (sys_errno option list \<times> net_buffer)" where
  "run_buffer [] b = Inr ([], b)"
| "run_buffer (op # ops) b =
    (case buffer_step op b of
       Inr b' \<Rightarrow> bind_res (run_buffer ops b') (\<lambda>(ex, b). Inr (None # ex, b))
     | Inl (Write_exception e) \<Rightarrow> bind_res (run_buffer ops b) (\<lambda>(ex, b). Inr (Some e # ex, b))
     | Inl e \<Rightarrow> Inl e)"

text \<open>The same on a queue of bytes, and the error number of a write that fails for good.\<close>

fun bytes_step :: "buffer_op \<Rightarrow> string \<Rightarrow> string" where
  "bytes_step (Append data) cs = cs @ data"
| "bytes_step (Has_read n) cs = drop n cs"
| "bytes_step (Read_from None) cs = cs"
| "bytes_step (Read_from (Some bytes)) cs = cs @ bytes"
| "bytes_step (Write_to (Inl e)) cs = cs"
| "bytes_step (Write_to (Inr n)) cs = drop n cs"

fun op_throws :: "buffer_op \<Rightarrow> sys_errno option" where
  "op_throws (Write_to (Inl e)) = (if e = EAGAIN \<or> e = EINTR then None else Some e)"
| "op_throws _ = None"

text \<open>
  The caller reads no more than there is, the kernel takes no more than it is offered, and the unread bytes stay within
  one gibibyte.
\<close>

fun op_ok :: "buffer_op \<Rightarrow> string \<Rightarrow> bool" where
  "op_ok (Append data) cs \<longleftrightarrow> length cs + length data \<le> 2 ^ 30"
| "op_ok (Has_read n) cs \<longleftrightarrow> n \<le> length cs"
| "op_ok (Read_from None) cs \<longleftrightarrow> True"
| "op_ok (Read_from (Some bytes)) cs \<longleftrightarrow> length cs + length bytes \<le> 2 ^ 30"
| "op_ok (Write_to (Inl e)) cs \<longleftrightarrow> True"
| "op_ok (Write_to (Inr n)) cs \<longleftrightarrow> n \<le> length cs"

fun ops_ok :: "buffer_op list \<Rightarrow> string \<Rightarrow> bool" where
  "ops_ok [] cs \<longleftrightarrow> True"
| "ops_ok (op # ops) cs \<longleftrightarrow> op_ok op cs \<and> ops_ok ops (bytes_step op cs)"

lemma buffer_step_ok:
  assumes "buffer_inv b" "op_ok op (readable b)" "op_throws op = None"
  shows "\<exists>b'. buffer_step op b = Inr b' \<and> buffer_inv b' \<and> readable b' = bytes_step op (readable b)"
proof -
  note len = length_readable [OF assms(1)]
  show ?thesis
  proof (cases op)
    case (Append data)
    then show ?thesis using append_ok [OF assms(1), of data] assms(2) len by (simp add: buffer_step_def)
  next
    case (Has_read n)
    then show ?thesis using hasRead_ok [OF assms(1), of n] assms(2) by (simp add: buffer_step_def)
  next
    case (Read_from received)
    show ?thesis
    proof (cases received)
      case None
      then show ?thesis using Read_from assms(1) by (simp add: buffer_step_def readFrom_def)
    next
      case (Some bytes)
      then have "unread b + int (length bytes) \<le> 2 ^ 30" using assms(2) Read_from len by simp
      from readFrom_ok [OF assms(1) this] show ?thesis using Read_from Some by (auto simp: buffer_step_def)
    qed
  next
    case (Write_to result)
    show ?thesis
    proof (cases result)
      case (Inl e)
      then have "e = EAGAIN \<or> e = EINTR" using assms(3) Write_to by (simp split: if_splits)
      then have "writeTo result b = Inr (0, hasRead 0 b)" using Inl by (auto simp: writeTo_def)
      then show ?thesis using Write_to Inl hasRead_ok [OF assms(1), of 0] by (simp add: buffer_step_def)
    next
      case (Inr n)
      then show ?thesis using Write_to assms hasRead_ok [OF assms(1), of n] by (simp add: buffer_step_def writeTo_def)
    qed
  qed
qed

lemma buffer_step_throws: "op_throws op = Some e \<Longrightarrow> buffer_step op b = Inl (Write_exception e) \<and> bytes_step op cs = cs"
  by (induction op rule: op_throws.induct) (auto simp: buffer_step_def writeTo_def split: if_splits sys_errno.split)

lemma run_buffer_queue:
  assumes "ops_ok ops cs" "buffer_inv b" "readable b = cs"
  shows "\<exists>b'. run_buffer ops b = Inr (map op_throws ops, b') \<and> buffer_inv b' \<and> readable b' = fold bytes_step ops cs"
  using assms
proof (induction ops arbitrary: b cs)
  case (Cons op ops)
  show ?case
  proof (cases "op_throws op")
    case None
    obtain b1 where b1: "buffer_step op b = Inr b1" "buffer_inv b1" "readable b1 = bytes_step op cs"
      using buffer_step_ok [OF Cons.prems(2) _ None] Cons.prems by auto
    then show ?thesis using Cons.IH [OF _ b1(2,3)] Cons.prems(1) None by auto
  next
    case (Some e)
    then show ?thesis using Cons.IH [OF _ Cons.prems(2,3)] Cons.prems(1) buffer_step_throws [OF Some, of b cs] by auto
  qed
qed simp

text \<open>
  C37. The network buffer is a queue of bytes: any sequence of appends, reads, \<^verbatim>\<open>readFrom\<close> and \<^verbatim>\<open>writeTo\<close> calls, in which the
  caller reads no more than is unread, the kernel takes no more than it is offered, and the unread bytes stay within one
  gibibyte, runs from a new buffer of any size without copying outside the vector, keeps
  \<^verbatim>\<open>0 <= _r <= _w <= _capacity = _buf.size()\<close>, and leaves exactly the bytes of the queue to read, however often the buffer
  was compacted, reused or grown. A call throws exactly if it is a \<^verbatim>\<open>writeTo\<close> whose \<^verbatim>\<open>write\<close> failed with an error other than
  \<^verbatim>\<open>EAGAIN\<close> and \<^verbatim>\<open>EINTR\<close>, and then it loses no byte.
\<close>

theorem buffer_is_byte_queue:
  assumes "ops_ok ops []"
  shows "\<exists>b. run_buffer ops (buffer_new sz) = Inr (map op_throws ops, b) \<and> buffer_inv b \<and> readable b = fold bytes_step ops []"
  using run_buffer_queue [OF assms] buffer_new_inv [of sz] by blast

theorem buffer_is_byte_queue_witness:
  "\<exists>b. run_buffer [Append ''GET /'', Has_read 4, Write_to (Inl (Other_errno 32)), Read_from (Some '' HTTP''), Write_to (Inr 2)]
       (buffer_new 2) = Inr ([None, None, Some (Other_errno 32), None, None], b) \<and>
     buffer_inv b \<and> readable b = ''HTTP''"
proof -
  let ?ops = "[Append ''GET /'', Has_read 4, Write_to (Inl (Other_errno 32)), Read_from (Some '' HTTP''), Write_to (Inr 2)]"
  have "ops_ok ?ops []" by simp
  from buffer_is_byte_queue [OF this, of 2] show ?thesis by simp
qed

end
