(* ===== verification/Lisp_Evaluator.thy ===== *)
theory Lisp_Evaluator
  imports Prelude "HOL-Library.Monad_Syntax"
begin

text \<open>
  The expression evaluator of \<^verbatim>\<open>src/Algorithm/lisp.cpp\<close>: a recursive-descent reader that evaluates as it reads. \<open>None\<close> is
  undefined behaviour, that is, a read behind the terminating zero of the string or an overflow of the 64-bit \<^verbatim>\<open>long long\<close>
  values, or the end of the fuel. The position, an \<^verbatim>\<open>int\<close>, is a natural number: strings are shorter than
  \<open>2 ^ 31\<close>. The operands of \<^verbatim>\<open>expression() + expression()\<close> are read from left to right; the other
  order the language allows reads the same two expressions, and both operations are commutative.
\<close>

section \<open>The evaluator\<close>

record lisp =
  src :: string
  pos :: nat
  symbols :: "(string \<rightharpoonup> i64) list"

definition is_digit :: "char \<Rightarrow> bool" where
  "is_digit c \<longleftrightarrow> 48 \<le> uc c \<and> uc c \<le> 57"

definition is_alpha :: "char \<Rightarrow> bool" where
  "is_alpha c \<longleftrightarrow> 65 \<le> uc c \<and> uc c \<le> 90 \<or> 97 \<le> uc c \<and> uc c \<le> 122"

text \<open>\<^verbatim>\<open>s[pos]\<close>: the terminating zero at the end, undefined behind it.\<close>

definition peek :: "lisp \<Rightarrow> char option" where
  "peek st =
  (if pos st < length (src st) then Some (src st ! pos st)
   else if pos st = length (src st) then Some (CHR 0x00) else None)"

definition pop_n :: "nat \<Rightarrow> lisp \<Rightarrow> lisp" where
  "pop_n step st = st\<lparr>pos := pos st + step\<rparr>"

definition pop :: "lisp \<Rightarrow> (char \<times> lisp) option" where
  "pop st = do { c \<leftarrow> peek st; Some (c, pop_n 1 st) }"

lemma peek_inside: "peek st = Some c \<Longrightarrow> c \<noteq> CHR 0x00 \<Longrightarrow> pos st < length (src st)"
  by (auto simp: peek_def split: if_splits)

function eat :: "lisp \<Rightarrow> lisp option" where
  "eat st = (case peek st of None \<Rightarrow> None | Some c \<Rightarrow> if c = ch_space then eat (pop_n 1 st) else Some st)"
  by auto
termination
  by (relation "measure (\<lambda>st. length (src st) - pos st)") (auto simp: pop_n_def dest!: peek_inside)

declare eat.simps [simp del]

text \<open>\<^verbatim>\<open>ans * 10 + (ctl.pop() - '0')\<close>: the product and the sum can overflow.\<close>

definition append_digit :: "i64 \<Rightarrow> char \<Rightarrow> i64 option" where
  "append_digit ans c = do { m \<leftarrow> checked (sint ans * 10); checked (sint (m :: i64) + int (uc c - 48)) }"

function number_digits :: "i64 \<Rightarrow> lisp \<Rightarrow> (i64 \<times> lisp) option" where
  "number_digits ans st =
  (case peek st of None \<Rightarrow> None
   | Some c \<Rightarrow>
       if is_digit c then
         (case append_digit ans c of None \<Rightarrow> None | Some ans \<Rightarrow> number_digits ans (pop_n 1 st))
       else Some (ans, st))"
  by auto
termination
  by (relation "measure (\<lambda>(_, st). length (src st) - pos st)") (auto simp: pop_n_def is_digit_def dest!: peek_inside)

declare number_digits.simps [simp del]

definition number :: "lisp \<Rightarrow> (i64 option \<times> lisp) option" where
  "number st = do {
     st \<leftarrow> eat st;
     c \<leftarrow> peek st;
     if \<not> (is_digit c \<or> c = CHR ''-'' \<or> c = CHR ''+'') then Some (None, st)
     else do {
       (negative, st) \<leftarrow> (if c = CHR ''-'' \<or> c = CHR ''+'' then do { (c, st) \<leftarrow> pop st; Some (c = CHR ''-'', st) } else Some (False, st));
       (ans, st) \<leftarrow> number_digits 0 st;
       ans \<leftarrow> (if negative then checked (- sint ans) else Some ans);
       Some (Some ans, st)
     }
   }"

fun variant_value :: "string \<Rightarrow> (string \<rightharpoonup> i64) list \<Rightarrow> i64" where
  "variant_value name [] = 0"
| "variant_value name (scope # scopes) = (case scope name of Some v \<Rightarrow> v | None \<Rightarrow> variant_value name scopes)"

function variant_name :: "string \<Rightarrow> lisp \<Rightarrow> (string \<times> lisp) option" where
  "variant_name name st =
  (case peek st of None \<Rightarrow> None
   | Some c \<Rightarrow> if is_digit c \<or> is_alpha c then variant_name (name @ [c]) (pop_n 1 st) else Some (name, st))"
  by auto
termination
  by (relation "measure (\<lambda>(_, st). length (src st) - pos st)") (auto simp: pop_n_def is_digit_def is_alpha_def dest!: peek_inside)

declare variant_name.simps [simp del]

definition variant :: "lisp \<Rightarrow> (i64 option \<times> lisp) option" where
  "variant st = do {
     st \<leftarrow> eat st;
     c \<leftarrow> peek st;
     if \<not> is_alpha c then Some (None, st)
     else do { (name, st) \<leftarrow> variant_name [] st; Some (Some (variant_value name (symbols st)), st) }
   }"

text \<open>
  \<open>expression\<close>, and the loop of \<^verbatim>\<open>let\<close> after it opened its scope, which is the first of \<open>symbols\<close>. Every call takes one unit
  of fuel.
\<close>

fun expression :: "nat \<Rightarrow> lisp \<Rightarrow> (i64 \<times> lisp) option"
  and let_loop :: "nat \<Rightarrow> lisp \<Rightarrow> (i64 \<times> lisp) option"
where
  "expression 0 st = None"
| "expression (Suc n) st = do {
     (num, st) \<leftarrow> number st;
     case num of Some v \<Rightarrow> Some (v, st)
     | None \<Rightarrow> do {
         (var, st) \<leftarrow> variant st;
         case var of Some v \<Rightarrow> Some (v, st)
         | None \<Rightarrow> do {
             (_, st) \<leftarrow> pop st;
             c \<leftarrow> peek st;
             (v, st) \<leftarrow>
               (if c = CHR ''l'' then do {
                  (v, st) \<leftarrow> let_loop n ((pop_n 3 st)\<lparr>symbols := Map.empty # symbols st\<rparr>);
                  Some (v, st\<lparr>symbols := tl (symbols st)\<rparr>)
                }
                else if c = CHR ''a'' then do {
                  (x, st) \<leftarrow> expression n (pop_n 3 st);
                  (y, st) \<leftarrow> expression n st;
                  v \<leftarrow> checked (sint x + sint y);
                  Some (v, st)
                }
                else if c = CHR ''m'' then do {
                  (x, st) \<leftarrow> expression n (pop_n 5 st);
                  (y, st) \<leftarrow> expression n st;
                  v \<leftarrow> checked (sint x * sint y);
                  Some (v, st)
                }
                else Some (0, st));
             (_, st) \<leftarrow> pop st;
             Some (v, st)
           }
       }
   }"
| "let_loop 0 st = None"
| "let_loop (Suc n) st = do {
     st \<leftarrow> eat st;
     c \<leftarrow> peek st;
     if is_alpha c then do {
       (name, st) \<leftarrow> variant_name [] st;
       st \<leftarrow> eat st;
       c \<leftarrow> peek st;
       if c = CHR '')'' then Some (variant_value name (symbols st), st)
       else do {
         (v, st) \<leftarrow> expression n st;
         let_loop n (st\<lparr>symbols := (hd (symbols st))(name \<mapsto> v) # tl (symbols st)\<rparr>)
       }
     }
     else expression n st
   }"

text \<open>The result is an \<^verbatim>\<open>int\<close>. A call is deeper than its caller only after a character was read, so the length is fuel enough.\<close>

definition evaluate :: "string \<Rightarrow> i32 option" where
  "evaluate e = map_option (\<lambda>(v, st). ucast v) (expression (Suc (length e)) \<lparr>src = e, pos = 0, symbols = []\<rparr>)"

section \<open>Expressions, their text and their value\<close>

text \<open>
  The grammar in the comment on \<^verbatim>\<open>expression\<close>, and the value of an expression in a stack of scopes: \<open>None\<close> if the absolute
  value of a numeral, or a sum or a product on the way, is no \<^verbatim>\<open>long long\<close>.
\<close>

datatype lexpr = Num int | Var string | Let lets | Add lexpr lexpr | Mult lexpr lexpr
  and lets = Bind string lexpr lets | Body lexpr

primrec eval :: "lexpr \<Rightarrow> (string \<rightharpoonup> i64) list \<Rightarrow> i64 option"
  and eval_lets :: "lets \<Rightarrow> (string \<rightharpoonup> i64) list \<Rightarrow> i64 option"
where
  "eval (Num n) \<rho> = (if \<bar>n\<bar> < 2 ^ 63 then Some (of_int n) else None)"
| "eval (Var x) \<rho> = Some (variant_value x \<rho>)"
| "eval (Let l) \<rho> = eval_lets l (Map.empty # \<rho>)"
| "eval (Add a b) \<rho> = do { x \<leftarrow> eval a \<rho>; y \<leftarrow> eval b \<rho>; checked (sint x + sint y) }"
| "eval (Mult a b) \<rho> = do { x \<leftarrow> eval a \<rho>; y \<leftarrow> eval b \<rho>; checked (sint x * sint y) }"
| "eval_lets (Bind x e l) \<rho> = do { v \<leftarrow> eval e \<rho>; eval_lets l ((hd \<rho>)(x \<mapsto> v) # tl \<rho>) }"
| "eval_lets (Body b) \<rho> = eval b \<rho>"

fun show_nat :: "nat \<Rightarrow> string" where
  "show_nat n = (if n < 10 then [char_of (48 + n)] else show_nat (n div 10) @ [char_of (48 + n mod 10)])"

declare show_nat.simps [simp del]

primrec print_expr :: "lexpr \<Rightarrow> string" and print_lets :: "lets \<Rightarrow> string" where
  "print_expr (Num n) = (if n < 0 then CHR ''-'' # show_nat (nat (- n)) else show_nat (nat n))"
| "print_expr (Var x) = x"
| "print_expr (Let l) = ''(let'' @ print_lets l @ '')''"
| "print_expr (Add a b) = ''(add '' @ print_expr a @ '' '' @ print_expr b @ '')''"
| "print_expr (Mult a b) = ''(multi '' @ print_expr a @ '' '' @ print_expr b @ '')''"
| "print_lets (Bind x e l) = '' '' @ x @ '' '' @ print_expr e @ print_lets l"
| "print_lets (Body b) = '' '' @ print_expr b"

definition name_ok :: "string \<Rightarrow> bool" where
  "name_ok x \<longleftrightarrow> x \<noteq> [] \<and> is_alpha (hd x) \<and> (\<forall>c \<in> set x. is_digit c \<or> is_alpha c)"

primrec names_ok :: "lexpr \<Rightarrow> bool" and names_ok_lets :: "lets \<Rightarrow> bool" where
  "names_ok (Num n) \<longleftrightarrow> True"
| "names_ok (Var x) \<longleftrightarrow> name_ok x"
| "names_ok (Let l) \<longleftrightarrow> names_ok_lets l"
| "names_ok (Add a b) \<longleftrightarrow> names_ok a \<and> names_ok b"
| "names_ok (Mult a b) \<longleftrightarrow> names_ok a \<and> names_ok b"
| "names_ok_lets (Bind x e l) \<longleftrightarrow> name_ok x \<and> names_ok e \<and> names_ok_lets l"
| "names_ok_lets (Body b) \<longleftrightarrow> names_ok b"

text \<open>How deep the calls go.\<close>

primrec depth :: "lexpr \<Rightarrow> nat" and depth_lets :: "lets \<Rightarrow> nat" where
  "depth (Num n) = 1"
| "depth (Var x) = 1"
| "depth (Let l) = Suc (depth_lets l)"
| "depth (Add a b) = Suc (max (depth a) (depth b))"
| "depth (Mult a b) = Suc (max (depth a) (depth b))"
| "depth_lets (Bind x e l) = Suc (max (depth e) (depth_lets l))"
| "depth_lets (Body b) = Suc (depth b)"

section \<open>Reading\<close>

text \<open>\<open>at st w\<close>: the reader stands before \<open>w\<close>.\<close>

definition at :: "lisp \<Rightarrow> string \<Rightarrow> bool" where
  "at st w \<longleftrightarrow> pos st \<le> length (src st) \<and> drop (pos st) (src st) = w"

definition first :: "string \<Rightarrow> char" where
  "first w = (case w of [] \<Rightarrow> CHR 0x00 | c # _ \<Rightarrow> c)"

lemma first_simps [simp]: "first [] = CHR 0x00" "first (c # w) = c" "u \<noteq> [] \<Longrightarrow> first (u @ w) = hd u"
  by (simp_all add: first_def) (cases u; simp)

lemma peek_at: "at st w \<Longrightarrow> peek st = Some (first w)"
  by (cases w) (auto simp: at_def peek_def first_def drop_eq_Nil hd_drop_conv_nth [symmetric] split: list.splits)

lemma at_pop_n:
  assumes "at st (u @ w)"
  shows "at (pop_n (length u) st) w"
proof -
  have d: "drop (pos st) (src st) = u @ w" using assms by (simp add: at_def)
  have "length (src st) - pos st = length u + length w" using arg_cong [OF d, of length] by simp
  moreover have "drop (pos st + length u) (src st) = w" using arg_cong [OF d, of "drop (length u)"] by (simp add: add.commute)
  ultimately show ?thesis using assms unfolding at_def pop_n_def by auto
qed

lemma at_pop_1: "at st (c # w) \<Longrightarrow> at (pop_n 1 st) w"
  using at_pop_n [of st "[c]" w] by simp

lemma at_symbols [simp]: "at (st\<lparr>symbols := x\<rparr>) w = at st w"
  by (simp add: at_def)

lemma pop_n_simps [simp]:
  "pop_n a (pop_n b st) = pop_n (b + a) st" "pop_n 0 st = st" "symbols (pop_n a st) = symbols st"
  "pop_n a (st\<lparr>symbols := x\<rparr>) = (pop_n a st)\<lparr>symbols := x\<rparr>"
  by (simp_all add: pop_n_def)

lemma pop_n_symbols [simp]: "(pop_n a st)\<lparr>symbols := symbols st\<rparr> = pop_n a st"
  by (cases st) (simp add: pop_n_def)

lemma pop_at: "at st w \<Longrightarrow> pop st = Some (first w, pop_n 1 st)"
  by (simp add: pop_def peek_at)

lemma eat_at:
  assumes "at st (replicate k ch_space @ w)" "first w \<noteq> ch_space"
  shows "eat st = Some (pop_n k st)"
  using assms
proof (induction k arbitrary: st)
  case 0
  then show ?case by (subst eat.simps) (simp add: peek_at)
next
  case (Suc k)
  then have "at (pop_n 1 st) (replicate k ch_space @ w)" using at_pop_1 by auto
  then show ?case using Suc by (subst eat.simps) (simp add: peek_at)
qed

primrec digits_value :: "string \<Rightarrow> i64 \<Rightarrow> i64 option" where
  "digits_value [] a = Some a"
| "digits_value (c # cs) a = do { a \<leftarrow> append_digit a c; digits_value cs a }"

lemma digits_value_snoc: "digits_value (cs @ [c]) a = do { a \<leftarrow> digits_value cs a; append_digit a c }"
  by (induction cs arbitrary: a) (auto split: Option.bind_split)

lemma number_digits_at:
  assumes "at st (ds @ w)" "\<forall>c \<in> set ds. is_digit c" "\<not> is_digit (first w)"
  shows "number_digits a st = do { v \<leftarrow> digits_value ds a; Some (v, pop_n (length ds) st) }"
  using assms
proof (induction ds arbitrary: st a)
  case Nil
  then show ?case by (subst number_digits.simps) (simp add: peek_at)
next
  case (Cons d ds)
  then have "at (pop_n 1 st) (ds @ w)" using at_pop_1 by auto
  then show ?case using Cons by (subst number_digits.simps) (simp add: peek_at split: option.split)
qed

lemma variant_name_at:
  assumes "at st (x @ w)" "\<forall>c \<in> set x. is_digit c \<or> is_alpha c" "\<not> is_digit (first w)" "\<not> is_alpha (first w)"
  shows "variant_name name st = Some (name @ x, pop_n (length x) st)"
  using assms
proof (induction x arbitrary: st name)
  case Nil
  then show ?case by (subst variant_name.simps) (simp add: peek_at)
next
  case (Cons c x)
  then have "at (pop_n 1 st) (x @ w)" using at_pop_1 by auto
  then show ?case using Cons by (subst variant_name.simps) (simp add: peek_at)
qed

text \<open>Numerals.\<close>

lemma uc_digit: "n < 10 \<Longrightarrow> uc (char_of (48 + n)) = 48 + n"
  by (simp add: uc_def)

lemma show_nat_digits: "\<forall>c \<in> set (show_nat n). is_digit c" "show_nat n \<noteq> []"
  by (induction n rule: show_nat.induct) (subst show_nat.simps; auto simp: is_digit_def uc_digit)+

lemma append_digit_nat:
  assumes "n < 10" "m < 2 ^ 63"
  shows "append_digit (of_nat m) (char_of (48 + n)) =
    (if m * 10 + n < 2 ^ 63 then Some (of_nat (m * 10 + n)) else None)"
proof -
  have s: "sint (of_nat k :: i64) = int k" if "k < 2 ^ 63" for k
    using that by (simp add: signed_of_nat signed_take_bit_int_eq_self)
  show ?thesis
    using assms s [of m] s [of "m * 10"] unfolding append_digit_def uc_digit [OF assms(1)]
    by (auto simp: checked_def fits_signed_def s)
qed

lemma show_nat_value: "digits_value (show_nat n) 0 = (if n < 2 ^ 63 then Some (of_nat n) else None)"
proof (induction n rule: show_nat.induct)
  case (1 n)
  show ?case
  proof (cases "n < 10")
    case True
    then show ?thesis using append_digit_nat [of n 0] by (subst show_nat.simps) simp
  next
    case False
    then have "digits_value (show_nat n) 0 =
        do { a \<leftarrow> digits_value (show_nat (n div 10)) 0; append_digit a (char_of (48 + n mod 10)) }"
      by (subst show_nat.simps) (simp add: digits_value_snoc)
    moreover have "n < 2 ^ 63 \<Longrightarrow> n div 10 < 2 ^ 63" by simp
    moreover have "n div 10 * 10 + n mod 10 = n" by simp
    ultimately show ?thesis
      using 1 [OF False] append_digit_nat [of "n mod 10" "n div 10"] by auto
  qed
qed

section \<open>Reading back a printed expression\<close>

text \<open>What follows an expression in a printed text: a blank, a closing parenthesis or the end.\<close>

definition delimited :: "string \<Rightarrow> bool" where
  "delimited w \<longleftrightarrow> first w \<in> {ch_space, CHR '')'', CHR 0x00}"

lemma delimited_first: "delimited w \<Longrightarrow> \<not> is_digit (first w) \<and> \<not> is_alpha (first w)"
  by (auto simp: delimited_def is_digit_def is_alpha_def)

lemma char_classes:
  "is_digit c \<Longrightarrow> c \<noteq> ch_space \<and> c \<noteq> CHR ''-'' \<and> c \<noteq> CHR ''+'' \<and> c \<noteq> CHR '')'' \<and> \<not> is_alpha c"
  "is_alpha c \<Longrightarrow> c \<noteq> ch_space \<and> c \<noteq> CHR ''-'' \<and> c \<noteq> CHR ''+'' \<and> c \<noteq> CHR '')'' \<and> \<not> is_digit c"
  "\<not> is_digit (CHR ''('')" "\<not> is_alpha (CHR ''('')" "\<not> is_digit (CHR ''-'')" "\<not> is_alpha (CHR ''-'')"
  by (auto simp: is_digit_def is_alpha_def)

lemma number_at:
  assumes "at st (replicate k ch_space @ print_expr (Num n) @ w)" "delimited w"
  shows "number st = do { v \<leftarrow> eval (Num n) (symbols st); Some (Some v, pop_n (k + length (print_expr (Num n))) st) }"
proof -
  let ?ds = "show_nat (nat \<bar>n\<bar>)"
  note ds = show_nat_digits [of "nat \<bar>n\<bar>"] and w = delimited_first [OF assms(2)]
  have hd: "is_digit (hd ?ds)" using ds by (metis hd_in_set)
  let ?v = "if nat \<bar>n\<bar> < 2 ^ 63 then Some (of_nat (nat \<bar>n\<bar>)) else (None :: i64 option)"
  have val: "number_digits 0 st' = do { v \<leftarrow> ?v; Some (v, pop_n (length ?ds) st') }" if "at st' (?ds @ w)" for st'
    using number_digits_at [OF that ds(1)] w by (simp add: show_nat_value)
  have neg: "checked (- sint (of_nat (nat \<bar>n\<bar>) :: i64)) = Some (of_int (- \<bar>n\<bar>) :: i64)" if "nat \<bar>n\<bar> < 2 ^ 63"
  proof -
    have "fits_signed LENGTH(64) \<bar>n\<bar>" using that by (simp add: fits_signed_def nat_less_iff)
    from sint_word_of_int_fits [OF this] have "sint (of_nat (nat \<bar>n\<bar>) :: i64) = \<bar>n\<bar>" by simp
    then show ?thesis using that by (simp add: checked_def fits_signed_def nat_less_iff)
  qed
  have at1: "at (pop_n k st) (print_expr (Num n) @ w)" using at_pop_n [OF assms(1)] by simp
  show ?thesis
  proof (cases "n < 0")
    case True
    have p: "print_expr (Num n) = CHR ''-'' # ?ds" using True by simp
    have e: "eat st = Some (pop_n k st)" by (rule eat_at [OF assms(1)]) (simp add: True)
    have at2: "at (pop_n k st) (CHR ''-'' # ?ds @ w)" using at1 p by simp
    have "number_digits 0 (pop_n (Suc k) st) = do { v \<leftarrow> ?v; Some (v, pop_n (Suc k + length ?ds) st) }"
      using val [OF at_pop_1 [OF at2]] by simp
    then show ?thesis using e peek_at [OF at2] pop_at [OF at2] p neg True by (auto simp: number_def char_classes nat_less_iff)
  next
    case False
    have p: "print_expr (Num n) = ?ds" using False by simp
    have f: "first (print_expr (Num n) @ w) = hd ?ds" unfolding p using ds(2) by (rule first_simps(3))
    have e: "eat st = Some (pop_n k st)"
      by (rule eat_at [OF assms(1)]) (use char_classes(1) [OF hd] in \<open>unfold f, blast\<close>)
    have pk: "peek (pop_n k st) = Some (hd ?ds)" using peek_at [OF at1] p ds(2) by simp
    have "number_digits 0 (pop_n k st) = do { v \<leftarrow> ?v; Some (v, pop_n (k + length ?ds) st) }"
      using val [of "pop_n k st"] at1 p by simp
    moreover have "(of_int n :: i64) = of_nat (nat \<bar>n\<bar>)" using False by simp
    ultimately show ?thesis using e pk p hd char_classes(1) [OF hd] False by (auto simp: number_def nat_less_iff)
  qed
qed

lemma number_none:
  assumes "at st (replicate k ch_space @ w)" "is_alpha (first w) \<or> first w = CHR ''(''"
  shows "number st = Some (None, pop_n k st)"
proof -
  have "eat st = Some (pop_n k st)" by (rule eat_at [OF assms(1)]) (use assms(2) char_classes(2) in auto)
  moreover have "peek (pop_n k st) = Some (first w)" using at_pop_n [OF assms(1)] by (simp add: peek_at)
  ultimately show ?thesis using assms(2) char_classes(2) [of "first w"] char_classes(3) by (auto simp: number_def)
qed

lemma variant_at:
  assumes "at st (replicate k ch_space @ x @ w)" "name_ok x" "delimited w"
  shows "variant st = Some (Some (variant_value x (symbols st)), pop_n (k + length x) st)"
proof -
  have x: "x \<noteq> []" "is_alpha (hd x)" "\<forall>c \<in> set x. is_digit c \<or> is_alpha c" using assms(2) by (auto simp: name_ok_def)
  have at1: "at (pop_n k st) (x @ w)" using at_pop_n [OF assms(1)] by simp
  have "eat st = Some (pop_n k st)" by (rule eat_at [OF assms(1)]) (use x char_classes(2) in auto)
  moreover have "peek (pop_n k st) = Some (hd x)" using peek_at [OF at1] x by simp
  moreover have "variant_name [] (pop_n k st) = Some (x, pop_n (k + length x) st)"
    using variant_name_at [OF at1 x(3)] delimited_first [OF assms(3)] by simp
  ultimately show ?thesis using x by (simp add: variant_def)
qed

lemma variant_none: "at st w \<Longrightarrow> first w = CHR ''('' \<Longrightarrow> variant st = Some (None, st)"
  using eat_at [of st 0 w] by (simp add: variant_def peek_at char_classes)

text \<open>The first character of a printed expression.\<close>

lemma print_first:
  assumes "names_ok e"
  shows "print_expr e \<noteq> []" "first (print_expr e @ w) = hd (print_expr e)"
    "hd (print_expr e) \<noteq> ch_space \<and> hd (print_expr e) \<noteq> CHR '')''"
    "is_alpha (hd (print_expr e)) \<longleftrightarrow> (\<exists>x. e = Var x)"
proof -
  have ds: "show_nat m \<noteq> []" "is_digit (hd (show_nat m))" for m
    using show_nat_digits [of m] by (auto intro: hd_in_set)
  show ne: "print_expr e \<noteq> []" using assms ds by (cases e) (auto simp: name_ok_def)
  then show "first (print_expr e @ w) = hd (print_expr e)" by simp
  show "hd (print_expr e) \<noteq> ch_space \<and> hd (print_expr e) \<noteq> CHR '')''" "is_alpha (hd (print_expr e)) \<longleftrightarrow> (\<exists>x. e = Var x)"
    using assms ds char_classes by (cases e; force simp: name_ok_def)+
qed

text \<open>A parenthesised expression: \<open>body\<close> is what its keyword selects.\<close>

lemma expression_paren:
  assumes "at st (replicate k ch_space @ CHR ''('' # w)"
  shows "expression (Suc n) st = do {
      c \<leftarrow> peek (pop_n (Suc k) st);
      (v, st) \<leftarrow>
        (let st = pop_n (Suc k) st in
         if c = CHR ''l'' then do {
           (v, st) \<leftarrow> let_loop n ((pop_n 3 st)\<lparr>symbols := Map.empty # symbols st\<rparr>);
           Some (v, st\<lparr>symbols := tl (symbols st)\<rparr>)
         }
         else if c = CHR ''a'' then do {
           (x, st) \<leftarrow> expression n (pop_n 3 st); (y, st) \<leftarrow> expression n st; v \<leftarrow> checked (sint x + sint y); Some (v, st)
         }
         else if c = CHR ''m'' then do {
           (x, st) \<leftarrow> expression n (pop_n 5 st); (y, st) \<leftarrow> expression n st; v \<leftarrow> checked (sint x * sint y); Some (v, st)
         }
         else Some (0, st));
      (_, st) \<leftarrow> pop st;
      Some (v, st)
    }"
proof -
  have at1: "at (pop_n k st) (CHR ''('' # w)" using at_pop_n [OF assms] by simp
  have "number st = Some (None, pop_n k st)" by (rule number_none [OF assms]) simp
  moreover have "variant (pop_n k st) = Some (None, pop_n k st)" by (rule variant_none [OF at1]) simp
  moreover have "pop (pop_n k st) = Some (CHR ''('', pop_n (Suc k) st)" using pop_at [OF at1] by simp
  ultimately show ?thesis by (simp add: Let_def)
qed

lemma expression_binary:
  assumes "at st (replicate k ch_space @ ''('' @ kw @ '' '' @ print_expr a @ '' '' @ print_expr b @ '')'' @ w)"
    "kw = ''add'' \<and> f = (\<lambda>x y :: i64. checked (sint x + sint y)) \<or> kw = ''multi'' \<and> f = (\<lambda>x y. checked (sint x * sint y))"
    "\<And>st k w. at st (replicate k ch_space @ print_expr a @ w) \<Longrightarrow> delimited w \<Longrightarrow>
      expression n st = do { v \<leftarrow> eval a (symbols st); Some (v, pop_n (k + length (print_expr a)) st) }"
    "\<And>st k w. at st (replicate k ch_space @ print_expr b @ w) \<Longrightarrow> delimited w \<Longrightarrow>
      expression n st = do { v \<leftarrow> eval b (symbols st); Some (v, pop_n (k + length (print_expr b)) st) }"
  shows "expression (Suc n) st = do {
      x \<leftarrow> eval a (symbols st); y \<leftarrow> eval b (symbols st); v \<leftarrow> f x y;
      Some (v, pop_n (k + length (''('' @ kw @ '' '' @ print_expr a @ '' '' @ print_expr b @ '')'')) st)
    }"
proof -
  have at1: "at (pop_n (Suc k) st) (kw @ '' '' @ print_expr a @ '' '' @ print_expr b @ '')'' @ w)"
    using at_pop_n [of st "replicate k ch_space @ ''(''"] assms(1) by simp
  have at2: "at (pop_n (Suc k + length kw) st) (replicate 1 ch_space @ print_expr a @ '' '' @ print_expr b @ '')'' @ w)"
    using at_pop_n [OF at1] by simp
  then have ea: "expression n (pop_n (Suc k + length kw) st) =
      do { v \<leftarrow> eval a (symbols st); Some (v, pop_n (Suc k + length kw + (1 + length (print_expr a))) st) }"
    using assms(3) [OF at2] by (simp add: delimited_def)
  have at3: "at (pop_n (Suc k + length kw + (1 + length (print_expr a))) st) (replicate 1 ch_space @ print_expr b @ '')'' @ w)"
    using at_pop_n [of "pop_n (Suc k + length kw) st" "'' '' @ print_expr a"] at2 by (simp add: ac_simps)
  then have eb: "expression n (pop_n (Suc k + length kw + (1 + length (print_expr a))) st) =
      do { v \<leftarrow> eval b (symbols st); Some (v, pop_n (Suc k + length kw + (1 + length (print_expr a)) + (1 + length (print_expr b))) st) }"
    using assms(4) [OF at3] by (simp add: delimited_def)
  have at4: "at (pop_n (Suc k + length kw + (1 + length (print_expr a)) + (1 + length (print_expr b))) st) ('')'' @ w)"
    using at_pop_n [of "pop_n (Suc k + length kw + (1 + length (print_expr a))) st" "'' '' @ print_expr b"] at3 by (simp add: ac_simps)
  have start: "at st (replicate k ch_space @ CHR ''('' # kw @ '' '' @ print_expr a @ '' '' @ print_expr b @ '')'' @ w)"
    using assms(1) by simp
  show ?thesis
    using assms(2) ea eb pop_at [OF at4] peek_at [OF at1] unfolding expression_paren [OF start]
    by (elim disjE conjE; cases "eval a (symbols st)"; cases "eval b (symbols st)")
      (simp_all add: Let_def ac_simps eval_nat_numeral split: Option.bind_split)
qed

text \<open>The two cases of the loop of \<^verbatim>\<open>let\<close>: a name that the body consists of, and a name that is bound.\<close>

lemma let_loop_name:
  assumes "at st ('' '' @ x @ w)" "name_ok x" "delimited w"
  shows "let_loop (Suc n) st = do {
      st \<leftarrow> eat (pop_n (Suc (length x)) st);
      c \<leftarrow> peek st;
      if c = CHR '')'' then Some (variant_value x (symbols st), st)
      else do {
        (v, st) \<leftarrow> expression n st;
        let_loop n (st\<lparr>symbols := (hd (symbols st))(x \<mapsto> v) # tl (symbols st)\<rparr>)
      }
    }"
proof -
  have x: "x \<noteq> []" "is_alpha (hd x)" "\<forall>c \<in> set x. is_digit c \<or> is_alpha c" using assms(2) by (auto simp: name_ok_def)
  have at1: "at (pop_n 1 st) (x @ w)" using at_pop_n [OF assms(1)] by simp
  have "eat st = Some (pop_n 1 st)"
    by (rule eat_at [of _ 1 "x @ w"]) (use assms(1) x char_classes(2) in auto)
  moreover have "peek (pop_n 1 st) = Some (hd x)" using peek_at [OF at1] x by simp
  moreover have "variant_name [] (pop_n 1 st) = Some (x, pop_n (Suc (length x)) st)"
    using variant_name_at [OF at1 x(3)] delimited_first [OF assms(3)] by simp
  ultimately show ?thesis using x by simp
qed

lemma let_loop_body:
  assumes "at st ('' '' @ w)" "first w \<noteq> ch_space" "\<not> is_alpha (first w)"
  shows "let_loop (Suc n) st = expression n (pop_n 1 st)"
proof -
  have "eat st = Some (pop_n 1 st)" by (rule eat_at [of _ 1 w]) (use assms in auto)
  moreover have "peek (pop_n 1 st) = Some (first w)" using at_pop_n [OF assms(1)] by (simp add: peek_at)
  ultimately show ?thesis using assms(3) by simp
qed

lemma read_printed:
  fixes e :: lexpr and l :: lets
  shows "names_ok e \<Longrightarrow> depth e \<le> n \<Longrightarrow> at st (replicate k ch_space @ print_expr e @ w) \<Longrightarrow> delimited w \<Longrightarrow>
      expression n st = do { v \<leftarrow> eval e (symbols st); Some (v, pop_n (k + length (print_expr e)) st) }"
    and "names_ok_lets l \<Longrightarrow> depth_lets l \<le> n \<Longrightarrow> at st (print_lets l @ '')'' @ w) \<Longrightarrow> symbols st \<noteq> [] \<Longrightarrow>
      \<exists>sc. let_loop n st =
        do { v \<leftarrow> eval_lets l (symbols st); Some (v, (pop_n (length (print_lets l)) st)\<lparr>symbols := sc # tl (symbols st)\<rparr>) }"
proof (induction e and l arbitrary: n st k w and n st w)
  case (Num m)
  then obtain n' where "n = Suc n'" by (cases n) auto
  then show ?case using number_at [of st k m w] Num by (cases "\<bar>m\<bar> < 2 ^ 63") simp_all
next
  case (Var x)
  then obtain n' where n: "n = Suc n'" by (cases n) auto
  have x: "x \<noteq> []" "is_alpha (hd x)" using Var.prems(1) by (auto simp: name_ok_def)
  have "number st = Some (None, pop_n k st)" by (rule number_none [of _ _ "x @ w"]) (use Var.prems x in auto)
  moreover have "variant (pop_n k st) = Some (Some (variant_value x (symbols st)), pop_n (k + length x) st)"
    using variant_at [of "pop_n k st" 0 x w] at_pop_n [of st "replicate k ch_space"] Var.prems by simp
  ultimately show ?case using n by simp
next
  case (Let l)
  then obtain n' where n: "n = Suc n'" "depth_lets l \<le> n'" by (cases n) auto
  have at1: "at (pop_n (Suc k) st) (''let'' @ print_lets l @ '')'' @ w)"
    using at_pop_n [of st "replicate k ch_space @ ''(''"] Let.prems(3) by simp
  let ?st = "(pop_n (Suc k + 3) st)\<lparr>symbols := Map.empty # symbols st\<rparr>"
  have at2: "at ?st (print_lets l @ '')'' @ w)" using at_pop_n [OF at1] by (simp add: eval_nat_numeral)
  obtain sc where lp: "let_loop n' ?st = do {
      v \<leftarrow> eval_lets l (Map.empty # symbols st); Some (v, (pop_n (length (print_lets l)) ?st)\<lparr>symbols := sc # symbols st\<rparr>) }"
    using Let.IH [OF _ n(2) at2] Let.prems(1) by auto
  have at3: "at (pop_n (Suc k + 3 + length (print_lets l)) st) ('')'' @ w)" using at_pop_n [OF at2] by simp
  have start: "at st (replicate k ch_space @ CHR ''('' # ''let'' @ print_lets l @ '')'' @ w)" using Let.prems(3) by simp
  show ?case
    unfolding n(1) expression_paren [OF start] using lp pop_at [OF at3] peek_at [OF at1]
    by (cases "eval_lets l (Map.empty # symbols st)") (simp_all add: Let_def ac_simps eval_nat_numeral)
next
  case (Add a b)
  then obtain n' where n: "n = Suc n'" "depth a \<le> n'" "depth b \<le> n'" by (cases n) auto
  show ?case
    unfolding n(1) using expression_binary [of st k "''add''" a b w "\<lambda>x y. checked (sint x + sint y)" n'] Add.IH(1) [OF _ n(2)] Add.IH(2) [OF _ n(3)] Add.prems by simp
next
  case (Mult a b)
  then obtain n' where n: "n = Suc n'" "depth a \<le> n'" "depth b \<le> n'" by (cases n) auto
  show ?case
    unfolding n(1) using expression_binary [of st k "''multi''" a b w "\<lambda>x y. checked (sint x * sint y)" n'] Mult.IH(1) [OF _ n(2)] Mult.IH(2) [OF _ n(3)] Mult.prems by simp
next
  case (Bind x e l)
  then obtain n' where n: "n = Suc n'" "depth e \<le> n'" "depth_lets l \<le> n'" by (cases n) auto
  have ok: "name_ok x" "names_ok e" "names_ok_lets l" using Bind.prems(1) by auto
  let ?w = "print_expr e @ print_lets l @ '')'' @ w"
  have at1: "at st ('' '' @ x @ '' '' @ ?w)" using Bind.prems(3) by simp
  have at2: "at (pop_n (Suc (length x)) st) (replicate 1 ch_space @ ?w)"
    using at_pop_n [of st "'' '' @ x"] at1 by simp
  have at3: "at (pop_n (Suc (Suc (length x))) st) ?w" using at_pop_1 [of "pop_n (Suc (length x)) st"] at2 by simp
  note hd = print_first [OF ok(2)]
  have "eat (pop_n (Suc (length x)) st) = Some (pop_n (Suc (Suc (length x))) st)"
    using eat_at [OF at2] hd by simp
  moreover have "peek (pop_n (Suc (Suc (length x))) st) = Some (hd (print_expr e))" using peek_at [OF at3] hd by simp
  moreover have dl: "delimited (print_lets l @ '')'' @ w)" by (cases l) (auto simp: delimited_def)
  then have ex: "expression n' (pop_n (Suc (Suc (length x))) st) =
      do { v \<leftarrow> eval e (symbols st); Some (v, pop_n (Suc (Suc (length x)) + length (print_expr e)) st) }"
    using Bind.IH(1) [OF ok(2) n(2), of "pop_n (Suc (Suc (length x))) st" 0] at3 by simp
  ultimately have lp: "let_loop n st = do {
      (v, st) \<leftarrow> expression n' (pop_n (Suc (Suc (length x))) st);
      let_loop n' (st\<lparr>symbols := (hd (symbols st))(x \<mapsto> v) # tl (symbols st)\<rparr>) }"
    unfolding n(1) using let_loop_name [OF at1 ok(1)] hd by (simp add: delimited_def)
  show ?case
  proof (cases "eval e (symbols st)")
    case None
    then show ?thesis using lp ex by simp
  next
    case (Some v)
    let ?st = "(pop_n (Suc (Suc (length x)) + length (print_expr e)) st)\<lparr>symbols := (hd (symbols st))(x \<mapsto> v) # tl (symbols st)\<rparr>"
    have "at ?st (print_lets l @ '')'' @ w)" using at_pop_n [OF at3] by simp
    then obtain sc where "let_loop n' ?st = do {
        v \<leftarrow> eval_lets l (symbols ?st); Some (v, (pop_n (length (print_lets l)) ?st)\<lparr>symbols := sc # tl (symbols ?st)\<rparr>) }"
      using Bind.IH(2) [OF ok(3) n(3)] by fastforce
    then have "let_loop n st = do {
        v \<leftarrow> eval_lets (Bind x e l) (symbols st);
        Some (v, (pop_n (length (print_lets (Bind x e l))) st)\<lparr>symbols := sc # tl (symbols st)\<rparr>) }"
      using lp ex Some by (simp add: ac_simps)
    then show ?thesis by blast
  qed
next
  case (Body e)
  then obtain n' where n: "n = Suc n'" "depth e \<le> n'" by (cases n) auto
  have ok: "names_ok e" using Body.prems(1) by simp
  note hd = print_first [OF ok]
  have at1: "at st ('' '' @ print_expr e @ '')'' @ w)" using Body.prems(3) by simp
  have sy: "hd (symbols st) # tl (symbols st) = symbols st" using Body.prems(4) by simp
  show ?case
  proof (cases "\<exists>x. e = Var x")
    case True
    then obtain x where x: "e = Var x" "name_ok x" using ok by auto
    have at2: "at (pop_n (Suc (length x)) st) ('')'' @ w)" using at_pop_n [of st "'' '' @ x"] at1 x by simp
    have "eat (pop_n (Suc (length x)) st) = Some (pop_n (Suc (length x)) st)"
      using eat_at [of "pop_n (Suc (length x)) st" 0 "'')'' @ w"] at2 by simp
    then have "let_loop n st = do { v \<leftarrow> eval e (symbols st); Some (v, pop_n (Suc (length x)) st) }"
      unfolding n(1) using let_loop_name [of st x "'')'' @ w"] at1 x peek_at [OF at2] by (simp add: delimited_def)
    then show ?thesis using x sy by (intro exI [of _ "hd (symbols st)"]) simp
  next
    case False
    have "at (pop_n 1 st) (print_expr e @ '')'' @ w)" using at_pop_n [OF at1] by simp
    then have "let_loop n st = do { v \<leftarrow> eval e (symbols st); Some (v, pop_n (Suc (length (print_expr e))) st) }"
      unfolding n(1) using let_loop_body [OF at1] Body.IH [OF ok n(2), of "pop_n 1 st" 0 "'')'' @ w"] hd False by (simp add: delimited_def)
    then show ?thesis using sy by (intro exI [of _ "hd (symbols st)"]) simp
  qed
qed

lemma depth_le: "names_ok e \<Longrightarrow> depth e \<le> length (print_expr e)" "names_ok_lets l \<Longrightarrow> depth_lets l \<le> length (print_lets l)"
proof (induction e and l)
  case (Num n)
  then show ?case using show_nat_digits(2) by (simp add: Suc_le_eq)
next
  case (Var x)
  then show ?case by (simp add: name_ok_def Suc_le_eq)
qed auto

text \<open>
  C39. The evaluator reads back what is printed: for every expression of the grammar whose names start with a letter
  and go on with letters and digits, \<^verbatim>\<open>evaluate\<close> of its text returns its value, with nested \<^verbatim>\<open>let\<close> scopes, shadowing and
  sequential bindings, converted to \<^verbatim>\<open>int\<close>, and neither runs off the string nor out of fuel. Its only undefined behaviour
  is that of the expression itself: a numeral or an intermediate result that overflows 64 bits.
\<close>

theorem evaluate_printed:
  assumes "names_ok e"
  shows "evaluate (print_expr e) = map_option ucast (eval e [])"
proof -
  let ?st = "\<lparr>src = print_expr e, pos = 0, symbols = []\<rparr>"
  have "at ?st (replicate 0 ch_space @ print_expr e @ [])" by (simp add: at_def)
  from read_printed(1) [OF assms _ this, of "Suc (length (print_expr e))"] show ?thesis
    using depth_le(1) [OF assms] by (cases "eval e []") (simp_all add: evaluate_def delimited_def)
qed

theorem evaluate_printed_witness:
  "evaluate ''(let y 2 x (let q 2 z y 200) (add x (multi x y)))'' = Some 600"
proof -
  let ?inner = "Let (Bind ''q'' (Num 2) (Bind ''z'' (Var ''y'') (Body (Num 200))))"
  let ?e = "Let (Bind ''y'' (Num 2) (Bind ''x'' ?inner (Body (Add (Var ''x'') (Mult (Var ''x'') (Var ''y''))))))"
  have "names_ok ?e" by (simp add: name_ok_def is_alpha_def)
  then have r: "evaluate (print_expr ?e) = map_option ucast (eval ?e [])" by (rule evaluate_printed)
  have p: "print_expr ?e = ''(let y 2 x (let q 2 z y 200) (add x (multi x y)))''"
    by (simp add: show_nat.simps char_of_def bit_0)
  have v: "eval ?e [] = Some 600" by (simp add: checked_def fits_signed_def)
  show ?thesis using r unfolding p v by simp
qed

end
