(* ===== verification/Spec2Isabelle.thy ===== *)
theory Spec2Isabelle
  imports Json_Tokenizer Musttail_Classify Musttail_Tokenizer Json_VM Program_Generator Elf_Linker
    Bitonic_Sort Fifo_Threads Linked_Queue Spinlock Shared_Mutex
    Bounded_Mpmc Cuckoo_Filter Net_Buffer Lisp_Evaluator
begin

text \<open>
  A verification library for the algorithmic parts of the Snippets repository, a collection of C++ programs under \<^verbatim>\<open>src/\<close>. The
  programs do not call each other, with the exceptions named below, so the library is a group of components over one
  prelude. Each component theory has the data of its file as records and datatypes, one definition per function or method in the
  order of the source, the invariants and helper lemmas, and at its end the properties, each after a text that states it.

  \<^bold>\<open>Conventions\<close> (\<open>Prelude\<close>). Machine integers are words of their width (\<open>u8\<close> to \<open>u64\<close>, \<open>i32\<close>, \<open>i64\<close>); \<open>int\<close> and \<open>nat\<close> stand for integers
  only where the invariants bound them. Unsigned arithmetic wraps around; a signed
  result that its type does not hold is undefined (\<open>checked\<close>). A C++ \<^verbatim>\<open>char\<close> is a \<open>char\<close>, read as a number by \<open>uc\<close>. An operation that can throw returns
  a sum with its own error type; one that can run into undefined behaviour returns \<open>Undefined\<close> of type \<open>outcome\<close> or \<open>None\<close>. A loop that need
  not end takes fuel and returns \<open>None\<close> when the fuel is used up, and the properties prove that it returns. Threads are step relations: a step
  is one access to shared memory (sequentially consistent), or one critical section where a mutex is held, and the
  properties hold for every interleaving, with any number of threads except for the two of \<open>Fifo_Threads\<close>.

  \<^bold>\<open>Threaded code\<close> (\<^verbatim>\<open>perf/threaded_code\<close>).
  \<^item> \<open>Char_Classify\<close>: the five character classifiers of \<^verbatim>\<open>json.cpp\<close>, with their tables; C1 shows that they agree.
  \<^item> \<open>Json_Tokenizer\<close>: the four tokenizer classes and \<^verbatim>\<open>tokenize_all\<close>. The locales \<open>tokenizer_spec\<close> and \<open>progressive_tokenizer\<close> say what the driver needs
    of a tokenizer; each class interprets one of them with the lexical specification \<open>lex\<close>. C2, C3: the classes agree in pairs; C4, C5: the driver ends, or
    provably does not; C6: all four agree on valid input; C7: printed lexemes are read back.
  \<^item> \<open>Musttail_Classify\<close>, \<open>Musttail_Tokenizer\<close>: the tail-calling versions of \<^verbatim>\<open>json_musttail.cpp\<close>; a chain of tail calls is a recursive
    function, ended by a measure. C8, C9, C10 relate them to the loops.
  \<^item> \<open>Json_VM\<close>: the bytecode interpreters of both files and the number program. C11, C12: they agree, C12 on programs of the nine opcodes that
    cannot run off their end; C13: the program ends within
    \<open>2 * length + 8\<close> instructions on every input and recognises numbers.
  \<^item> \<open>Register_VM\<close>, \<open>Register_VM_Equiv\<close>: the register machine of \<^verbatim>\<open>basic.cpp\<close> with six interpreters. The locale \<open>threaded_implementation\<close> is a step-by-step
    simulation of the switch interpreter, \<open>faithful_interpreter\<close> the agreement of whole runs; C14 collects the interpretations. Fuel counts instructions, so
    equal results for every fuel are equal behaviour, endless loops and signed overflows included.
  \<^item> \<open>Program_Generator\<close>: the generator of benchmark programs, with the random engine as a parameter. C15: the programs without a loop
    end within the fuel stated, with a value unless they reach a signed overflow, which two of the patterns never do; C16: what the loop program computes.

  \<^bold>\<open>ELF linker\<close> (\<^verbatim>\<open>llm4fun/linker/mini_elf_linker.cpp\<close>), in the order of its steps.
  \<^item> \<open>Elf_Format\<close>: the little-endian structures and the reading of the inputs; the file system is a function from names to bytes.
  \<^item> \<open>Elf_Layout\<close>, \<open>Elf_Layout_Correct\<close>: chunks, output sections, offsets and addresses; C17, C18.
  \<^item> \<open>Elf_Symbols\<close>: symbol tables and resolution; C19, C20, C25.
  \<^item> \<open>Elf_Relocate\<close>: the relocations with their range checks; C21, C22.
  \<^item> \<open>Elf_Linker\<close>: the output file and the whole program; C23, C24 rest on the lemmas of all the steps. \<open>elf_memory\<close> is the meaning of an executable file
    after the ELF specification, read from its bytes; C23 states of it that every byte of every input section is at its address, C24 gives the fields of the
    headers. Hypotheses on inputs: alignments are powers of two, for C23 dividing the base address, sizes fit 64 bits, and sections that share a name with a zero-initialised
    one are writable data.

  \<^bold>\<open>Algorithms and data structures\<close>.
  \<^item> \<open>Bitonic_Sort\<close> (\<^verbatim>\<open>Algorithm/parallel_sort.cpp\<close>): the network sorts every power of two of elements of any linear order, by the
    zero-one principle; C26.
  \<^item> \<open>Cuckoo_Filter\<close> (\<^verbatim>\<open>Algorithm/cuckoo_filter.cpp\<close>): the locale \<open>membership_filter\<close> is the contract of a filter; the three hash functions are parameters, and so are the random choices
    of each \<^verbatim>\<open>add\<close>; C35, C36.
  \<^item> \<open>Lisp_Evaluator\<close> (\<^verbatim>\<open>Algorithm/lisp.cpp\<close>): C39; the fuel, the length of the text plus one, is more than the nesting depth, and overflow is \<open>None\<close> in the
    evaluator as in the specification.
  \<^item> \<open>Power_Of_Two\<close>, \<open>Net_Buffer\<close> (\<^verbatim>\<open>net/fluent/include/utils/Algorithms.h\<close> and \<^verbatim>\<open>network/Buffer.h\<close>, which calls it): C38, C37; the buffer is a queue of bytes, failed
    system calls and \<^verbatim>\<open>WriteException\<close> included.

  \<^bold>\<open>Concurrency\<close> (\<^verbatim>\<open>Concurrency\<close>).
  \<^item> \<open>Queue_Contract\<close>: the locales \<open>queue\<close> (bounded) and \<open>unbounded_queue\<close>, and what follows for any sequence of calls. \<open>Fifo_Ring\<close>,
    \<open>Locked_Queue\<close> and \<open>Linked_Queue\<close> interpret them.
  \<^item> \<open>Fifo_Ring\<close>, \<open>Fifo_Threads\<close> (\<^verbatim>\<open>Fifo.cpp\<close>): the ring and the two threads of \<^verbatim>\<open>main\<close>; C27, C28, C29.
  \<^item> \<open>Locked_Queue\<close>, \<open>Linked_Queue\<close> (\<^verbatim>\<open>Queue.cpp\<close>): the queue under a mutex with its condition variable, and the two-lock queue on an explicit
    store of nodes; C30, C31, C32.
  \<^item> \<open>Spinlock\<close>, \<open>Shared_Mutex\<close> (\<^verbatim>\<open>Spinlock.cpp\<close>, \<^verbatim>\<open>SharedMutex.cpp\<close>): mutual exclusion, and no update is lost; C33, C34.
  \<^item> \<open>Bounded_Mpmc\<close> (\<^verbatim>\<open>Bounded_mpmc.cpp\<close>): the ticket queue; C40. The bound of \<open>2^31\<close> tickets is where the \<^verbatim>\<open>int\<close> parameters of
    \<^verbatim>\<open>seq\<close> and \<^verbatim>\<open>idx\<close> overflow.

  \<^bold>\<open>Not modelled\<close>.
  \<^item> Input, output, timing and printing in the files above: the benchmark and test harnesses, command lines, file permissions.
  \<^item> Weak memory: the step relations interleave sequentially consistent accesses, so the programs whose subject is reordering
    (\<^verbatim>\<open>Concurrency/test_reorder\<close>, \<^verbatim>\<open>LKMM\<close>, \<^verbatim>\<open>herd7\<close>, \<^verbatim>\<open>perfbook\<close>) are out of reach, and memory orders are not checked.
  \<^item> Floating point (\<^verbatim>\<open>Algorithm/alias_method.cpp\<close>): a model over the reals would not be the code.
  \<^item> Lock-free reclamation (\<^verbatim>\<open>Stack_lockfree.cpp\<close>, \<^verbatim>\<open>Queue_lockfree.cpp\<close>, \<^verbatim>\<open>Freelist.hpp\<close>): a node is reused while another thread holds its address, guarded by a
    16-bit tag; the claim that this is safe is probabilistic.
  \<^item> Type erasure, allocators, futures and callbacks (\<^verbatim>\<open>Basic\<close>, \<^verbatim>\<open>ThreadPool.cpp\<close>, most of \<^verbatim>\<open>net/fluent\<close>): what they do is
    decided by the user's callables and by the operating system.
  \<^item> The vector kernels of \<^verbatim>\<open>simd\<close>: they are written in the vendor's intrinsics, of which this library has no model yet.
  \<^item> Smaller algorithms inside experiments, such as the interleaved binary searches of \<^verbatim>\<open>perf/coroutine_pipeline\<close>, the parser of \<^verbatim>\<open>memory/meminfo_parser.hpp\<close> and
    the index arithmetic of \<^verbatim>\<open>linux/xarray\<close>: not treated yet.
  \<^item> Experiments with system calls, the kernel, the compiler and the processor, recorded traces, web pages and scripts: input and
    output, time, and generated text.
\<close>

end
